(* ===== verification/Prelude.thy ===== *)
theory Prelude
  imports Main "HOL-Library.Word" "HOL-Library.Multiset"
begin

text \<open>
  What the components of minisqld share: the C library functions on characters and
  NUL-terminated strings that the sources use (\<^verbatim>\<open>isspace\<close>, \<^verbatim>\<open>tolower\<close>, \<^verbatim>\<open>strncpy\<close>,
  \<^verbatim>\<open>strtol\<close>, \<^verbatim>\<open>atoi\<close>, the \<^verbatim>\<open>%d\<close> conversion) and generic lemmas on lists and maps.
  A C string is the list of its characters before the NUL.
\<close>

named_theorems c_simps \<open>unfolding rules for the C library functions\<close>

type_synonym 'a result = "'a option"

section \<open>Characters\<close>

abbreviation code_of :: "char \<Rightarrow> nat" where
  "code_of c \<equiv> of_char c"

definition is_space :: "char \<Rightarrow> bool" where
  "is_space c \<longleftrightarrow> (9 \<le> code_of c \<and> code_of c \<le> 13) \<or> code_of c = 32"

definition is_digit :: "char \<Rightarrow> bool" where
  "is_digit c \<longleftrightarrow> 48 \<le> code_of c \<and> code_of c \<le> 57"

definition is_upper :: "char \<Rightarrow> bool" where
  "is_upper c \<longleftrightarrow> 65 \<le> code_of c \<and> code_of c \<le> 90"

definition is_lower :: "char \<Rightarrow> bool" where
  "is_lower c \<longleftrightarrow> 97 \<le> code_of c \<and> code_of c \<le> 122"

definition is_alnum :: "char \<Rightarrow> bool" where
  "is_alnum c \<longleftrightarrow> is_digit c \<or> is_upper c \<or> is_lower c"

definition to_lower :: "char \<Rightarrow> char" where
  "to_lower c = (if is_upper c then char_of (code_of c + 32) else c)"

definition to_upper :: "char \<Rightarrow> char" where
  "to_upper c = (if is_lower c then char_of (code_of c - 32) else c)"

section \<open>Strings\<close>

text \<open>The case-insensitive comparison loop that every module of the source repeats.\<close>

fun ieq :: "string \<Rightarrow> string \<Rightarrow> bool" where
  "ieq (a # as) (b # bs) = (if to_lower a \<noteq> to_lower b then False else ieq as bs)"
| "ieq as bs = (as = [] \<and> bs = [])"

lemma ieq_iff: "ieq a b \<longleftrightarrow> map to_lower a = map to_lower b"
  by (induction a b rule: ieq.induct) auto

lemma ieq_refl [simp]: "ieq a a"
  by (simp add: ieq_iff)

lemma ieq_sym: "ieq a b \<Longrightarrow> ieq b a"
  by (simp add: ieq_iff)

lemma ieq_trans: "ieq a b \<Longrightarrow> ieq b c \<Longrightarrow> ieq a c"
  by (simp add: ieq_iff)

lemma ieq_length: "ieq a b \<Longrightarrow> length a = length b"
  by (induction a b rule: ieq.induct) (auto split: if_splits)

text \<open>\<^verbatim>\<open>strncpy(dst, s, sizeof(dst) - 1)\<close> into a zeroed array of \<open>Suc n\<close> bytes.\<close>

definition strncpy :: "nat \<Rightarrow> string \<Rightarrow> string" where
  "strncpy n s = take n s"

lemma strncpy_short [simp]: "length s \<le> n \<Longrightarrow> strncpy n s = s"
  by (simp add: strncpy_def)

lemma strncpy_length: "length (strncpy n s) \<le> n"
  by (simp add: strncpy_def)

text \<open>The in-place trimming loop: white space off both ends.\<close>

definition trim_ws :: "string \<Rightarrow> string" where
  "trim_ws s = rev (dropWhile is_space (rev (dropWhile is_space s)))"

lemma trim_ws_no_space: "\<forall>c \<in> set s. \<not> is_space c \<Longrightarrow> trim_ws s = s"
proof -
  assume h: "\<forall>c \<in> set s. \<not> is_space c"
  have drop: "\<forall>c \<in> set t. \<not> is_space c \<Longrightarrow> dropWhile is_space t = t" for t
    by (cases t) auto
  show ?thesis
    using h by (simp add: trim_ws_def drop)
qed

lemma length_trim_ws: "length (trim_ws s) \<le> length s"
  unfolding trim_ws_def by (metis length_dropWhile_le length_rev order_trans)

text \<open>\<^verbatim>\<open>strip_optional_quotes\<close>: one pair of matching quotes removed, then a bounded copy.\<close>

definition strip_quotes :: "nat \<Rightarrow> string \<Rightarrow> string" where
  "strip_quotes n s =
     (let t = (if 2 \<le> length s \<and>
                  ((hd s = CHR 0x27 \<and> last s = CHR 0x27) \<or>
                   (hd s = CHR 0x22 \<and> last s = CHR 0x22))
               then butlast (tl s) else s)
      in take n t)"

lemma strip_quotes_plain:
  "length s \<le> n \<Longrightarrow> s = [] \<or> (hd s \<noteq> CHR 0x27 \<and> hd s \<noteq> CHR 0x22) \<Longrightarrow> strip_quotes n s = s"
  by (auto simp: strip_quotes_def)

section \<open>Numbers\<close>

definition digit_val :: "char \<Rightarrow> int" where
  "digit_val c = int (code_of c) - 48"

definition nat_of_digits :: "string \<Rightarrow> int" where
  "nat_of_digits ds = foldl (\<lambda>a c. 10 * a + digit_val c) 0 ds"

definition long_min :: int where "long_min = - (2 ^ 63)"
definition long_max :: int where "long_max = 2 ^ 63 - 1"
definition int_min :: int where "int_min = - (2 ^ 31)"
definition int_max :: int where "int_max = 2 ^ 31 - 1"

text \<open>
  \<^verbatim>\<open>strtol(s, &end, 10)\<close>: \<open>None\<close> when no conversion is made (\<open>end = s\<close>), otherwise the
  clamped value, the rest of the string and whether \<open>errno\<close> is set to \<open>ERANGE\<close>.
\<close>

definition strtol :: "string \<Rightarrow> (int \<times> string \<times> bool) option" where
  "strtol s =
     (let s1 = dropWhile is_space s;
          neg = (s1 \<noteq> [] \<and> hd s1 = CHR ''-'');
          s2 = (if s1 \<noteq> [] \<and> (hd s1 = CHR ''-'' \<or> hd s1 = CHR ''+'') then tl s1 else s1);
          ds = takeWhile is_digit s2;
          v = (if neg then - nat_of_digits ds else nat_of_digits ds)
      in if ds = [] then None
         else Some (max long_min (min long_max v), dropWhile is_digit s2,
                    v < long_min \<or> long_max < v))"

text \<open>Conversion of a \<^verbatim>\<open>long\<close> to a 32-bit \<^verbatim>\<open>int\<close>, and \<^verbatim>\<open>atoi\<close>.\<close>

definition wrap32 :: "int \<Rightarrow> int" where
  "wrap32 x = (x + 2 ^ 31) mod 2 ^ 32 - 2 ^ 31"

definition wrap64 :: "int \<Rightarrow> int" where
  "wrap64 x = (x + 2 ^ 63) mod 2 ^ 64 - 2 ^ 63"

definition atoi :: "string \<Rightarrow> int" where
  "atoi s = (case strtol s of None \<Rightarrow> 0 | Some (v, _, _) \<Rightarrow> wrap32 v)"

lemma wrap32_id: "int_min \<le> x \<Longrightarrow> x \<le> int_max \<Longrightarrow> wrap32 x = x"
  by (simp add: wrap32_def int_min_def int_max_def)

lemma wrap32_range: "int_min \<le> wrap32 x \<and> wrap32 x \<le> int_max"
  using pos_mod_bound [of "2^32" "x + 2^31"] pos_mod_sign [of "2^32" "x + 2^31"]
  by (simp add: wrap32_def int_min_def int_max_def)

lemma wrap64_id: "long_min \<le> x \<Longrightarrow> x \<le> long_max \<Longrightarrow> wrap64 x = x"
  by (simp add: wrap64_def long_min_def long_max_def)

text \<open>The \<^verbatim>\<open>%d\<close> and \<^verbatim>\<open>%ld\<close> conversions.\<close>

fun show_nat :: "nat \<Rightarrow> string" where
  "show_nat n = (if n < 10 then [char_of (48 + n)] else show_nat (n div 10) @ [char_of (48 + n mod 10)])"

declare show_nat.simps [simp del]

definition show_int :: "int \<Rightarrow> string" where
  "show_int x = (if x < 0 then CHR ''-'' # show_nat (nat (- x)) else show_nat (nat x))"

lemma code_of_digit [simp]: "(n::nat) < 10 \<Longrightarrow> code_of (char_of (48 + n)) = 48 + n"
  by (simp add: of_char_of)

lemma is_digit_digit [simp]: "(n::nat) < 10 \<Longrightarrow> is_digit (char_of (48 + n))"
  by (simp add: is_digit_def)

lemma show_nat_digits: "\<forall>c \<in> set (show_nat n). is_digit c"
proof (induction n rule: show_nat.induct)
  case (1 n)
  then show ?case
    by (subst show_nat.simps) auto
qed

lemma show_nat_nonempty [simp]: "show_nat n \<noteq> []"
  by (subst show_nat.simps) simp

lemma nat_of_digits_snoc [simp]: "nat_of_digits (ds @ [c]) = 10 * nat_of_digits ds + digit_val c"
  by (simp add: nat_of_digits_def)

lemma nat_of_digits_show: "nat_of_digits (show_nat n) = int n"
proof (induction n rule: show_nat.induct)
  case (1 n)
  show ?case
  proof (cases "n < 10")
    case True
    then show ?thesis
      by (subst show_nat.simps) (simp add: nat_of_digits_def digit_val_def)
  next
    case False
    then have "nat_of_digits (show_nat n)
        = 10 * nat_of_digits (show_nat (n div 10)) + digit_val (char_of (48 + n mod 10))"
      by (subst show_nat.simps) simp
    also have "\<dots> = int n"
      using "1" False by (simp add: digit_val_def) presburger
    finally show ?thesis .
  qed
qed

lemma digit_not_space: "is_digit c \<Longrightarrow> \<not> is_space c"
  by (auto simp: is_digit_def is_space_def)

lemma digit_not_sign: "is_digit c \<Longrightarrow> c \<noteq> CHR ''-'' \<and> c \<noteq> CHR ''+''"
  by (auto simp: is_digit_def)

lemma not_space_minus: "\<not> is_space (CHR ''-'')"
  by (simp add: is_space_def)

lemma takeWhile_digits: "\<forall>c \<in> set ds. is_digit c \<Longrightarrow> takeWhile is_digit ds = ds"
  and dropWhile_digits: "\<forall>c \<in> set ds. is_digit c \<Longrightarrow> dropWhile is_digit ds = []"
  by (induction ds) auto

lemma strtol_digits:
  assumes "ds \<noteq> []" and "\<forall>c \<in> set ds. is_digit c" and "nat_of_digits ds \<le> long_max"
    and "0 \<le> nat_of_digits ds"
  shows "strtol ds = Some (nat_of_digits ds, [], False)"
proof -
  obtain c cs where ds: "ds = c # cs" using assms(1) by (cases ds) auto
  then have c: "is_digit c" using assms(2) by simp
  have s1: "dropWhile is_space ds = ds"
    using c by (simp add: ds digit_not_space)
  have "\<not> (hd ds = CHR ''-'' \<or> hd ds = CHR ''+'')" using digit_not_sign [OF c] by (simp add: ds)
  then show ?thesis
    using assms by (simp add: strtol_def s1 takeWhile_digits dropWhile_digits long_min_def
        long_max_def Let_def)
qed

lemma strtol_show_int:
  assumes "long_min \<le> x" and "x \<le> long_max"
  shows "strtol (show_int x) = Some (x, [], False)"
proof (cases "x < 0")
  case False
  then show ?thesis
    using strtol_digits [of "show_nat (nat x)"] assms
    by (simp add: show_int_def show_nat_digits nat_of_digits_show)
next
  case True
  then show ?thesis
    using assms by (simp add: strtol_def show_int_def not_space_minus takeWhile_digits
        dropWhile_digits show_nat_digits nat_of_digits_show Let_def)
qed

lemma atoi_show_int: "int_min \<le> x \<Longrightarrow> x \<le> int_max \<Longrightarrow> atoi (show_int x) = x"
  using strtol_show_int [of x]
  by (simp add: atoi_def wrap32_id int_min_def int_max_def long_min_def long_max_def)

lemma show_int_nonempty [simp]: "show_int x \<noteq> []"
  by (simp add: show_int_def)

lemma show_int_inject:
  assumes "long_min \<le> x" "x \<le> long_max" "long_min \<le> y" "y \<le> long_max"
    and eq: "show_int x = show_int y"
  shows "x = y"
proof -
  have "strtol (show_int x) = Some (y, [], False)"
    unfolding eq by (rule strtol_show_int [OF assms(3,4)])
  then show ?thesis by (simp add: strtol_show_int [OF assms(1,2)])
qed

section \<open>Lists\<close>

text \<open>The linear search loops of the source: the index of the first hit.\<close>

fun find_idx :: "('a \<Rightarrow> bool) \<Rightarrow> 'a list \<Rightarrow> nat option" where
  "find_idx p [] = None"
| "find_idx p (x # xs) = (if p x then Some 0 else map_option Suc (find_idx p xs))"

lemma find_idx_Some:
  "find_idx p xs = Some i \<Longrightarrow> i < length xs \<and> p (xs ! i) \<and> (\<forall>j < i. \<not> p (xs ! j))"
proof (induction xs arbitrary: i)
  case Nil
  then show ?case by simp
next
  case (Cons x xs)
  show ?case
  proof (cases "p x")
    case True
    with Cons.prems show ?thesis by simp
  next
    case False
    with Cons.prems obtain k where "find_idx p xs = Some k" and i: "i = Suc k" by auto
    with Cons.IH have k: "k < length xs \<and> p (xs ! k) \<and> (\<forall>j < k. \<not> p (xs ! j))" by blast
    have "\<forall>j < Suc k. \<not> p ((x # xs) ! j)"
      using k False by (auto simp: less_Suc_eq_0_disj)
    with k i show ?thesis by simp
  qed
qed

lemma find_idx_None: "find_idx p xs = None \<longleftrightarrow> (\<forall>x \<in> set xs. \<not> p x)"
  by (induction xs) auto

lemma find_idx_length: "find_idx p xs = Some i \<Longrightarrow> i < length xs"
  by (drule find_idx_Some) simp

lemma find_idx_append:
  "find_idx p (xs @ ys) = (case find_idx p xs of Some i \<Rightarrow> Some i
     | None \<Rightarrow> map_option (\<lambda>j. length xs + j) (find_idx p ys))"
  by (induction xs; cases "find_idx p ys") (auto split: option.splits)

text \<open>The last write to a key of a list of writes.\<close>

definition last_write :: "('k \<times> 'v) list \<Rightarrow> 'k \<rightharpoonup> 'v" where
  "last_write kvs = map_of (rev kvs)"

lemma last_write_Nil [simp]: "last_write [] = Map.empty"
  by (simp add: last_write_def)

lemma last_write_snoc [simp]: "last_write (kvs @ [(k, v)]) = (last_write kvs)(k \<mapsto> v)"
  by (simp add: last_write_def fun_eq_iff)

lemma length_filter_update:
  "i < length xs \<Longrightarrow> length (filter P (xs[i := y])) + (if P (xs ! i) then 1 else 0)
     = length (filter P xs) + (if P y then 1 else 0)"
proof (induction xs arbitrary: i)
  case (Cons x xs)
  then show ?case by (cases i) (auto split: if_splits)
qed simp

lemma length_filter_update_same:
  "i < length xs \<Longrightarrow> P y = P (xs ! i) \<Longrightarrow> length (filter P (xs[i := y])) = length (filter P xs)"
  using length_filter_update [of i xs P y] by (auto split: if_splits)

lemma all_nth_update: "\<forall>x \<in> set xs. P x \<Longrightarrow> P y \<Longrightarrow> \<forall>x \<in> set (xs[i := y]). P x"
  by (auto dest!: subsetD [OF set_update_subset_insert])

section \<open>Step systems\<close>

text \<open>
  The concurrent components are step relations: every atomic action of the program (one
  critical section, or one step of a thread between two) is a step, and all interleavings
  are the reachable states.
\<close>

inductive reachable :: "('s \<Rightarrow> bool) \<Rightarrow> ('s \<Rightarrow> 's \<Rightarrow> bool) \<Rightarrow> 's \<Rightarrow> bool" for init step where
  reachable_init: "init s \<Longrightarrow> reachable init step s"
| reachable_step: "reachable init step s \<Longrightarrow> step s t \<Longrightarrow> reachable init step t"

locale step_system =
  fixes init :: "'s \<Rightarrow> bool" and step :: "'s \<Rightarrow> 's \<Rightarrow> bool" and inv :: "'s \<Rightarrow> bool"
  assumes init_inv: "init s \<Longrightarrow> inv s"
    and step_inv: "inv s \<Longrightarrow> step s t \<Longrightarrow> inv t"
begin

lemma reachable_inv: "reachable init step s \<Longrightarrow> inv s"
  by (induction rule: reachable.induct) (auto intro: init_inv step_inv)

lemma steps_inv: "step\<^sup>*\<^sup>* s t \<Longrightarrow> inv s \<Longrightarrow> inv t"
  by (induction rule: rtranclp_induct) (auto intro: step_inv)

lemma reachable_steps: "step\<^sup>*\<^sup>* s t \<Longrightarrow> reachable init step s \<Longrightarrow> reachable init step t"
  by (induction rule: rtranclp_induct) (auto intro: reachable_step)

end

end
