(* ===== verification/BPTree.thy ===== *)
theory BPTree
  imports Prelude
begin

text \<open>
  The B+ tree of \<^verbatim>\<open>src/bptree.c\<close>: keys are row ids, values row numbers. A leaf carries its
  address and its \<^verbatim>\<open>next\<close> pointer, so that the leaf chain that range queries walk is
  modelled as the code builds it; the pointers from a parent to its children are the only
  other ones and are never shared, so they are the structure of the datatype. The parallel
  arrays \<^verbatim>\<open>keys[]\<close> and \<^verbatim>\<open>row_indices[]\<close> of a leaf are one list of pairs, and
  \<^verbatim>\<open>num_keys\<close> is its length. Memory allocation does not fail in the model.

  After the definitions: the invariant (ordering, occupancy, equal depth, the leaf chain)
  and its preservation, the functional correctness of search, insertion and range, and the
  interfaces \<open>kv_index\<close> and \<open>range_index\<close> that the storage layer relies on.
\<close>

section \<open>The code\<close>

type_synonym addr = nat
type_synonym entry = "int \<times> int"

datatype node =
    Leaf addr "entry list" "addr option"
  | Internal "int list" "node list"

record bptree =
  bp_order :: nat
  bp_root :: node
  bp_fresh :: addr

definition leaf_new :: "addr \<Rightarrow> node" where
  "leaf_new a = Leaf a [] None"

definition bptree_create :: "int \<Rightarrow> bptree option" where
  "bptree_create order =
     (if order < 3 then None
      else Some \<lparr>bp_order = nat order, bp_root = leaf_new 0, bp_fresh = 1\<rparr>)"

fun internal_child_idx :: "int list \<Rightarrow> int \<Rightarrow> nat" where
  "internal_child_idx [] key = 0"
| "internal_child_idx (k # ks) key = (if key \<ge> k then Suc (internal_child_idx ks key) else 0)"

definition leaf_insert_sorted :: "entry list \<Rightarrow> int \<Rightarrow> int \<Rightarrow> entry list" where
  "leaf_insert_sorted es key row_index =
     (let i = length (takeWhile (\<lambda>e. fst e < key) es)
      in if i < length es \<and> fst (es ! i) = key then es[i := (key, row_index)]
         else take i es @ (key, row_index) # drop i es)"

text \<open>The left leaf, the promoted key and the right leaf, allocated at \<open>fresh\<close>.\<close>

definition split_leaf :: "nat \<Rightarrow> addr \<Rightarrow> entry list \<Rightarrow> addr option \<Rightarrow> addr \<Rightarrow> node \<times> int \<times> node" where
  "split_leaf order a es nx fresh =
     (let mid = order div 2;
          right = drop mid es
      in (Leaf a (take mid es) (Some fresh), fst (hd right), Leaf fresh right nx))"

definition internal_insert_nonfull ::
    "int list \<Rightarrow> node list \<Rightarrow> int \<Rightarrow> node \<Rightarrow> int list \<times> node list" where
  "internal_insert_nonfull ks cs key right =
     (let i = internal_child_idx ks key
      in (take i ks @ key # drop i ks, take (i + 1) cs @ right # drop (i + 1) cs))"

definition split_internal :: "nat \<Rightarrow> int list \<Rightarrow> node list \<Rightarrow> node \<times> int \<times> node" where
  "split_internal order ks cs =
     (let mid = order div 2
      in (Internal (take mid ks) (take (mid + 1) cs), ks ! mid,
          Internal (drop (mid + 1) ks) (drop (mid + 1) cs)))"

lemma nth_size_less [termination_simp]: "i < length cs \<Longrightarrow> size (cs ! i) < Suc (size_list size cs)"
  using size_list_estimation' [of "cs ! i" cs "size (cs ! i)" size] by (simp add: less_Suc_eq_le)

text \<open>
  The result is the node as updated in place, the promoted key and new right sibling when
  the node was split, and the next free address. A child index past the last child cannot
  occur in a well-formed tree.
\<close>

fun insert_rec :: "nat \<Rightarrow> int \<Rightarrow> int \<Rightarrow> node \<Rightarrow> addr \<Rightarrow> node \<times> (int \<times> node) option \<times> addr" where
  "insert_rec order key row_index (Leaf a es nx) fresh =
     (let es' = leaf_insert_sorted es key row_index
      in if length es' < order then (Leaf a es' nx, None, fresh)
         else (case split_leaf order a es' nx fresh of
                 (l, k, r) \<Rightarrow> (l, Some (k, r), Suc fresh)))"
| "insert_rec order key row_index (Internal ks cs) fresh =
     (let ci = internal_child_idx ks key
      in if ci < length cs then
           (case insert_rec order key row_index (cs ! ci) fresh of
              (c, None, fresh') \<Rightarrow> (Internal ks (cs[ci := c]), None, fresh')
            | (c, Some (child_key, child_split), fresh') \<Rightarrow>
                (case internal_insert_nonfull ks (cs[ci := c]) child_key child_split of
                   (ks', cs') \<Rightarrow>
                     if length ks' < order then (Internal ks' cs', None, fresh')
                     else (case split_internal order ks' cs' of
                             (l, k, r) \<Rightarrow> (l, Some (k, r), fresh'))))
         else (Internal ks cs, None, fresh))"

definition bptree_insert :: "bptree \<Rightarrow> int \<Rightarrow> int \<Rightarrow> bptree" where
  "bptree_insert t key row_index =
     (case insert_rec (bp_order t) key row_index (bp_root t) (bp_fresh t) of
        (n, None, f) \<Rightarrow> t\<lparr>bp_root := n, bp_fresh := f\<rparr>
      | (n, Some (promoted_key, sibling), f) \<Rightarrow>
          t\<lparr>bp_root := Internal [promoted_key] [n, sibling], bp_fresh := f\<rparr>)"

text \<open>The descent loop that search and range share, and the scan of the leaf.\<close>

fun find_leaf :: "node \<Rightarrow> int \<Rightarrow> addr \<times> entry list \<times> addr option" where
  "find_leaf (Leaf a es nx) key = (a, es, nx)"
| "find_leaf (Internal ks cs) key =
     (let ci = internal_child_idx ks key
      in if ci < length cs then find_leaf (cs ! ci) key else (0, [], None))"

text \<open>The nodes that the loop visits, from the root to the leaf.\<close>

fun search_path :: "node \<Rightarrow> int \<Rightarrow> node list" where
  "search_path (Leaf a es nx) key = [Leaf a es nx]"
| "search_path (Internal ks cs) key =
     (let ci = internal_child_idx ks key
      in Internal ks cs # (if ci < length cs then search_path (cs ! ci) key else []))"

fun leaf_scan :: "entry list \<Rightarrow> int \<Rightarrow> int" where
  "leaf_scan [] key = -1"
| "leaf_scan ((k, v) # es) key = (if k = key then v else leaf_scan es key)"

definition bptree_search :: "bptree \<Rightarrow> int \<Rightarrow> int" where
  "bptree_search t key = (case find_leaf (bp_root t) key of (_, es, _) \<Rightarrow> leaf_scan es key)"

text \<open>All leaves from left to right: what a leaf pointer can point to.\<close>

fun leaves :: "node \<Rightarrow> (addr \<times> entry list \<times> addr option) list" where
  "leaves (Leaf a es nx) = [(a, es, nx)]"
| "leaves (Internal ks cs) = concat (map leaves cs)"

definition leaf_at :: "node \<Rightarrow> addr \<Rightarrow> (entry list \<times> addr option) option" where
  "leaf_at n a = map_of (leaves n) a"

text \<open>
  The inner loop of \<^verbatim>\<open>bptree_range\<close> over one leaf; the flag says that the function returned
  because a key above \<open>to\<close> was met.
\<close>

fun range_leaf :: "int \<Rightarrow> int \<Rightarrow> nat \<Rightarrow> entry list \<Rightarrow> int list \<Rightarrow> int list \<times> bool" where
  "range_leaf lo hi max_out [] out = (out, False)"
| "range_leaf lo hi max_out ((k, v) # es) out =
     (if max_out \<le> length out then (out, False)
      else if k < lo then range_leaf lo hi max_out es out
      else if k > hi then (out, True)
      else range_leaf lo hi max_out es (out @ [v]))"

text \<open>
  The outer loop follows the \<^verbatim>\<open>next\<close> pointers; \<open>None\<close> is a loop that does not end or a
  pointer to no leaf.
\<close>

partial_function (option) range_walk ::
    "node \<Rightarrow> int \<Rightarrow> int \<Rightarrow> nat \<Rightarrow> addr option \<Rightarrow> int list \<Rightarrow> int list option" where
  "range_walk n lo hi max_out cur out =
     (case cur of
        None \<Rightarrow> Some out
      | Some a \<Rightarrow>
          if max_out \<le> length out then Some out
          else (case leaf_at n a of
                  None \<Rightarrow> None
                | Some (es, nx) \<Rightarrow>
                    (case range_leaf lo hi max_out es out of
                       (out', stop) \<Rightarrow>
                         if stop then Some out' else range_walk n lo hi max_out nx out')))"

text \<open>The row numbers written to \<^verbatim>\<open>out\<close>; the C function returns their count.\<close>

definition bptree_range :: "bptree \<Rightarrow> int \<Rightarrow> int \<Rightarrow> int \<Rightarrow> int list option" where
  "bptree_range t lo hi max_out =
     (if max_out \<le> 0 \<or> lo > hi then Some []
      else case find_leaf (bp_root t) lo of
             (a, _, _) \<Rightarrow> range_walk (bp_root t) lo hi (nat max_out) (Some a) [])"

section \<open>Ordering invariant\<close>

definition lo_ok :: "int option \<Rightarrow> int \<Rightarrow> bool" where
  "lo_ok lo k = (case lo of None \<Rightarrow> True | Some l \<Rightarrow> l \<le> k)"

definition hi_ok :: "int option \<Rightarrow> int \<Rightarrow> bool" where
  "hi_ok hi k = (case hi of None \<Rightarrow> True | Some h \<Rightarrow> k < h)"

text \<open>
  \<open>chain P lo hi ks cs\<close>: the child to the left of separator \<open>k\<close> and the one to its right
  satisfy \<open>P\<close> with \<open>k\<close> as their upper and lower bound.
\<close>

fun chain :: "(int option \<Rightarrow> int option \<Rightarrow> 'n \<Rightarrow> bool) \<Rightarrow> int option \<Rightarrow> int option \<Rightarrow>
    int list \<Rightarrow> 'n list \<Rightarrow> bool" where
  "chain P lo hi [] [c] = P lo hi c"
| "chain P lo hi (k # ks) (c # cs) = (P lo (Some k) c \<and> chain P (Some k) hi ks cs)"
| "chain P lo hi ks cs = False"

lemma chain_cong [fundef_cong]:
  assumes "lo = lo'" "hi = hi'" "ks = ks'" "cs = cs'"
    and "\<And>l h c. c \<in> set cs' \<Longrightarrow> P l h c = Q l h c"
  shows "chain P lo hi ks cs = chain Q lo' hi' ks' cs'"
proof -
  have "(\<And>l h c. c \<in> set cs \<Longrightarrow> P l h c = Q l h c) \<Longrightarrow> chain P lo hi ks cs = chain Q lo hi ks cs"
    by (induction P lo hi ks cs rule: chain.induct) auto
  with assms show ?thesis by simp
qed

fun wf_between :: "int option \<Rightarrow> int option \<Rightarrow> node \<Rightarrow> bool" where
  "wf_between lo hi (Leaf a es nx) \<longleftrightarrow>
     sorted_wrt (<) (map fst es) \<and> (\<forall>e \<in> set es. lo_ok lo (fst e) \<and> hi_ok hi (fst e))"
| "wf_between lo hi (Internal ks cs) \<longleftrightarrow>
     sorted_wrt (<) ks \<and> (\<forall>k \<in> set ks. lo_ok lo k \<and> hi_ok hi k) \<and> chain wf_between lo hi ks cs"

definition contents :: "node \<Rightarrow> entry list" where
  "contents n = concat (map (\<lambda>(a, es, nx). es) (leaves n))"

lemma contents_Leaf [simp]: "contents (Leaf a es nx) = es"
  by (simp add: contents_def)

lemma contents_Internal [simp]: "contents (Internal ks cs) = concat (map contents cs)"
  unfolding contents_def by (simp, induction cs) auto

subsection \<open>Splitting chains\<close>

lemma chain_length: "chain P lo hi ks cs \<Longrightarrow> length cs = Suc (length ks)"
  by (induction P lo hi ks cs rule: chain.induct) auto

lemma chain_split_key:
  "length cs1 = Suc (length ks1) \<Longrightarrow>
     chain P lo hi (ks1 @ k # ks2) (cs1 @ cs2) \<longleftrightarrow>
     chain P lo (Some k) ks1 cs1 \<and> chain P (Some k) hi ks2 cs2"
proof (induction ks1 arbitrary: lo cs1)
  case Nil
  then obtain c where "cs1 = [c]" by (cases cs1) auto
  then show ?case by simp
next
  case (Cons k1 ks1)
  then obtain c cs1' where cs1: "cs1 = c # cs1'" and "length cs1' = Suc (length ks1)"
    by (cases cs1) auto
  with Cons.IH [of cs1' "Some k1"] show ?case by simp
qed

definition last_b :: "int option \<Rightarrow> int list \<Rightarrow> int option" where
  "last_b lo ks = (if ks = [] then lo else Some (last ks))"

definition first_b :: "int list \<Rightarrow> int option \<Rightarrow> int option" where
  "first_b ks hi = (case ks of [] \<Rightarrow> hi | k # _ \<Rightarrow> Some k)"

lemma last_b_simps [simp]: "last_b lo [] = lo" "last_b lo (ks @ [k]) = Some k"
    "last_b lo (k # ks) = last_b (Some k) ks"
  by (simp_all add: last_b_def)

lemma first_b_simps [simp]: "first_b [] hi = hi" "first_b (k # ks) hi = Some k"
  by (simp_all add: first_b_def)

fun lefts :: "(int option \<Rightarrow> int option \<Rightarrow> 'n \<Rightarrow> bool) \<Rightarrow> int option \<Rightarrow> int list \<Rightarrow> 'n list \<Rightarrow> bool" where
  "lefts P lo [] [] = True"
| "lefts P lo (k # ks) (c # cs) = (P lo (Some k) c \<and> lefts P (Some k) ks cs)"
| "lefts P lo ks cs = False"

fun rights :: "(int option \<Rightarrow> int option \<Rightarrow> 'n \<Rightarrow> bool) \<Rightarrow> int option \<Rightarrow> int list \<Rightarrow> 'n list \<Rightarrow> bool" where
  "rights P hi [] [] = True"
| "rights P hi (k # ks) (c # cs) = (P (Some k) (first_b ks hi) c \<and> rights P hi ks cs)"
| "rights P hi ks cs = False"

lemma chain_Cons_child:
  "length cs2 = length ks2 \<Longrightarrow>
     chain P lo hi ks2 (c # cs2) \<longleftrightarrow> P lo (first_b ks2 hi) c \<and> rights P hi ks2 cs2"
proof (induction ks2 arbitrary: lo c cs2)
  case Nil
  then show ?case by simp
next
  case (Cons k ks2)
  then obtain d cs where "cs2 = d # cs" by (cases cs2) auto
  with Cons show ?case by simp
qed

lemma chain_child:
  "length cs1 = length ks1 \<Longrightarrow> length cs2 = length ks2 \<Longrightarrow>
     chain P lo hi (ks1 @ ks2) (cs1 @ c # cs2) \<longleftrightarrow>
     lefts P lo ks1 cs1 \<and> P (last_b lo ks1) (first_b ks2 hi) c \<and> rights P hi ks2 cs2"
proof (induction ks1 arbitrary: lo cs1)
  case Nil
  then show ?case by (simp add: chain_Cons_child)
next
  case (Cons k ks1)
  then obtain d cs where "cs1 = d # cs" by (cases cs1) auto
  with Cons show ?case by simp
qed

lemma chain_child2:
  assumes "length cs1 = length ks1" and "length cs2 = length ks2"
  shows "chain P lo hi (ks1 @ k # ks2) (cs1 @ c # d # cs2) \<longleftrightarrow>
     lefts P lo ks1 cs1 \<and> P (last_b lo ks1) (Some k) c \<and>
     P (Some k) (first_b ks2 hi) d \<and> rights P hi ks2 cs2"
  using chain_split_key [of "cs1 @ [c]" ks1 P lo hi k ks2 "d # cs2"]
    chain_child [of cs1 ks1 "[]" "[]" P lo "Some k" c] assms
  by (simp add: chain_Cons_child)

subsection \<open>The contents of a well-formed node\<close>

lemma lo_ok_trans: "lo_ok lo k \<Longrightarrow> lo_ok (Some k) j \<Longrightarrow> lo_ok lo j"
  by (auto simp: lo_ok_def split: option.splits)

lemma hi_ok_trans: "hi_ok hi k \<Longrightarrow> hi_ok (Some k) j \<Longrightarrow> hi_ok hi j"
  by (auto simp: hi_ok_def split: option.splits)

abbreviation keys_in :: "int option \<Rightarrow> int option \<Rightarrow> entry list \<Rightarrow> bool" where
  "keys_in lo hi es \<equiv> \<forall>e \<in> set es. lo_ok lo (fst e) \<and> hi_ok hi (fst e)"

lemma chain_contents:
  assumes "\<And>l h c. c \<in> set cs \<Longrightarrow> wf_between l h c \<Longrightarrow>
      sorted_wrt (<) (map fst (contents c)) \<and> keys_in l h (contents c)"
    and "chain wf_between lo hi ks cs" and "sorted_wrt (<) ks"
    and "\<forall>k \<in> set ks. lo_ok lo k \<and> hi_ok hi k"
  shows "sorted_wrt (<) (map fst (concat (map contents cs))) \<and>
    keys_in lo hi (concat (map contents cs))"
  using assms
proof (induction ks arbitrary: lo cs)
  case Nil
  then obtain c where "cs = [c]" by (cases cs; cases "tl cs") auto
  with Nil show ?case by simp
next
  case (Cons k ks)
  then obtain c cs' where cs: "cs = c # cs'" by (cases cs) auto
  have rest: "sorted_wrt (<) (map fst (concat (map contents cs'))) \<and>
      keys_in (Some k) hi (concat (map contents cs'))"
    using Cons.prems by (intro Cons.IH) (auto simp: cs lo_ok_def)
  have c: "sorted_wrt (<) (map fst (contents c)) \<and> keys_in lo (Some k) (contents c)"
    using Cons.prems by (auto simp: cs)
  have k: "lo_ok lo k" "hi_ok hi k" using Cons.prems by auto
  have "\<forall>x \<in> set (contents c). \<forall>y \<in> set (concat (map contents cs')). fst x < fst y"
    using rest c by (fastforce simp: lo_ok_def hi_ok_def)
  then show ?case
    using rest c k by (auto simp: cs sorted_wrt_append intro: lo_ok_trans hi_ok_trans)
qed

lemma wf_contents:
  "wf_between lo hi n \<Longrightarrow> sorted_wrt (<) (map fst (contents n)) \<and> keys_in lo hi (contents n)"
proof (induction n arbitrary: lo hi)
  case (Leaf a es nx)
  then show ?case by simp
next
  case (Internal ks cs)
  then show ?case
    using chain_contents [of cs lo hi ks] by auto
qed

lemma lefts_contents: "lefts wf_between lo ks cs \<Longrightarrow> \<forall>k \<in> set ks. k \<le> key \<Longrightarrow>
    e \<in> set (concat (map contents cs)) \<Longrightarrow> fst e < key"
proof (induction wf_between lo ks cs rule: lefts.induct)
  case (2 lo k ks c cs)
  then show ?case
    using wf_contents [of lo "Some k" c] by (fastforce simp: hi_ok_def)
qed auto

lemma rights_contents: "rights wf_between hi ks cs \<Longrightarrow> \<forall>k \<in> set ks. key < k \<Longrightarrow>
    e \<in> set (concat (map contents cs)) \<Longrightarrow> key < fst e"
proof (induction wf_between hi ks cs rule: rights.induct)
  case (2 hi k ks c cs)
  then show ?case
    using wf_contents [of "Some k" "first_b ks hi" c] by (fastforce simp: lo_ok_def)
qed auto

section \<open>Descent\<close>

lemma internal_child_idx_takeWhile: "internal_child_idx ks key = length (takeWhile (\<lambda>k. k \<le> key) ks)"
  by (induction ks) auto

lemma internal_child_idx_split:
  "\<forall>k \<in> set ks1. k \<le> key \<Longrightarrow> \<forall>k \<in> set ks2. key < k \<Longrightarrow> internal_child_idx (ks1 @ ks2) key = length ks1"
  by (induction ks1) (cases ks2, auto)

text \<open>
  The child an internal node descends into, with the separators and siblings on either side.
\<close>

lemma descend:
  assumes "length cs = Suc (length ks)" and "sorted_wrt (<) ks"
  obtains ks1 ks2 cs1 c cs2 where "ks = ks1 @ ks2" "cs = cs1 @ c # cs2"
    "length cs1 = length ks1" "length cs2 = length ks2"
    "\<forall>k \<in> set ks1. k \<le> key" "\<forall>k \<in> set ks2. key < k"
    "internal_child_idx ks key = length cs1"
proof -
  define ks1 where "ks1 = takeWhile (\<lambda>k. k \<le> key) ks"
  define ks2 where "ks2 = dropWhile (\<lambda>k. k \<le> key) ks"
  define i where "i = length ks1"
  have ks: "ks = ks1 @ ks2" by (simp add: ks1_def ks2_def)
  have "sorted_wrt (<) ks2" using assms(2) ks by (auto simp: sorted_wrt_append)
  moreover have "ks2 = [] \<or> key < hd ks2"
    unfolding ks2_def by (metis hd_dropWhile not_le)
  ultimately have k2: "\<forall>k \<in> set ks2. key < k" by (cases ks2) force+
  have k1: "\<forall>k \<in> set ks1. k \<le> key" by (auto simp: ks1_def dest: set_takeWhileD)
  have i: "i < length cs" using assms(1) ks by (simp add: i_def)
  then have cs: "cs = take i cs @ cs ! i # drop (Suc i) cs" by (rule id_take_nth_drop)
  show thesis
  proof (rule that [OF ks cs _ _ k1 k2])
    show "length (take i cs) = length ks1" using i by (simp add: i_def)
    show "length (drop (Suc i) cs) = length ks2" using assms(1) ks by (simp add: i_def)
    show "internal_child_idx ks key = length (take i cs)"
      using i by (simp add: internal_child_idx_takeWhile ks1_def i_def)
  qed
qed

lemma bounds_descend:
  assumes "lo_ok lo key" "hi_ok hi key" "\<forall>k \<in> set ks1. k \<le> key" "\<forall>k \<in> set ks2. key < k"
  shows "lo_ok (last_b lo ks1) key \<and> hi_ok (first_b ks2 hi) key"
  using assms by (auto simp: last_b_def first_b_def lo_ok_def hi_ok_def split: list.splits)

subsection \<open>Insertion into a sorted leaf\<close>

lemma leaf_insert_append:
  assumes "\<forall>e \<in> set xs. fst e < key" and "\<forall>e \<in> set ys. key < fst e"
  shows "leaf_insert_sorted (xs @ es @ ys) key r = xs @ leaf_insert_sorted es key r @ ys"
proof -
  have tw: "takeWhile (\<lambda>e. fst e < key) (es @ ys) = takeWhile (\<lambda>e. fst e < key) es"
  proof (cases "\<forall>e \<in> set es. fst e < key")
    case True
    then have "takeWhile (\<lambda>e. fst e < key) (es @ ys) = es @ takeWhile (\<lambda>e. fst e < key) ys"
      by (auto intro: takeWhile_append2)
    moreover have "takeWhile (\<lambda>e. fst e < key) ys = []"
      using assms(2) by (cases ys) auto
    moreover have "takeWhile (\<lambda>e. fst e < key) es = es" using True by (simp add: takeWhile_eq_all_conv)
    ultimately show ?thesis by (metis append_Nil2)
  qed (auto intro: takeWhile_append1)
  define i where "i = length (takeWhile (\<lambda>e. fst e < key) es)"
  have i: "i \<le> length es" by (simp add: i_def length_takeWhile_le)
  have len: "length (takeWhile (\<lambda>e. fst e < key) (xs @ es @ ys)) = length xs + i"
    using assms(1) tw by (simp add: i_def)
  show ?thesis
  proof (cases "i < length es")
    case True
    then show ?thesis
      using i by (simp add: leaf_insert_sorted_def len Let_def nth_append list_update_append
          flip: i_def)
  next
    case False
    then have "i = length es" using i by simp
    moreover have "\<not> (ys \<noteq> [] \<and> fst (ys ! 0) = key)" using assms(2) by (cases ys) auto
    ultimately show ?thesis
      by (auto simp: leaf_insert_sorted_def len Let_def nth_append simp flip: i_def)
  qed
qed

text \<open>A sorted leaf around a key: the entries before it, the entry for it if any, those after.\<close>

lemma leaf_cases:
  fixes key :: int
  assumes "sorted_wrt (<) (map fst es)"
  obtains (absent) xs ys where "es = xs @ ys" "\<forall>e \<in> set xs. fst e < key" "\<forall>e \<in> set ys. key < fst e"
  | (present) xs v ys where "es = xs @ (key, v) # ys" "\<forall>e \<in> set xs. fst e < key"
      "\<forall>e \<in> set ys. key < fst e"
proof -
  define xs where "xs = takeWhile (\<lambda>e. fst e < key) es"
  define ys where "ys = dropWhile (\<lambda>e. fst e < key) es"
  have es: "es = xs @ ys" by (simp add: xs_def ys_def)
  have xs: "\<forall>e \<in> set xs. fst e < key" by (auto simp: xs_def dest: set_takeWhileD)
  have srt: "sorted_wrt (<) (map fst ys)" using assms es by (simp add: sorted_wrt_append)
  have "\<not> fst (hd ys) < key" if "ys \<noteq> []"
    using hd_dropWhile [OF that [unfolded ys_def]] by (simp add: ys_def)
  then have hd: "ys = [] \<or> key \<le> fst (hd ys)" by (cases "ys = []") auto
  show thesis
  proof (cases ys)
    case Nil
    then show ?thesis using absent [of xs ys] es xs by simp
  next
    case (Cons e zs)
    have zs: "\<forall>x \<in> set zs. fst e < fst x" using srt Cons by simp
    show ?thesis
    proof (cases "fst e = key")
      case True
      then show ?thesis
        using present [of xs "snd e" zs] es xs zs Cons by (cases e) auto
    next
      case False
      then have "key < fst e" using hd Cons by simp
      then show ?thesis using absent [of xs ys] es xs zs Cons by force
    qed
  qed
qed

lemma leaf_insert_empty: "leaf_insert_sorted [] key r = [(key, r)]"
  by (simp add: leaf_insert_sorted_def)

lemma leaf_insert_single: "leaf_insert_sorted [(key, v)] key r = [(key, r)]"
  by (simp add: leaf_insert_sorted_def)

lemma leaf_insert_absent:
  "\<forall>e \<in> set xs. fst e < key \<Longrightarrow> \<forall>e \<in> set ys. key < fst e \<Longrightarrow>
     leaf_insert_sorted (xs @ ys) key r = xs @ (key, r) # ys"
  using leaf_insert_append [of xs key ys "[]"] by (simp add: leaf_insert_empty)

lemma leaf_insert_present:
  "\<forall>e \<in> set xs. fst e < key \<Longrightarrow> \<forall>e \<in> set ys. key < fst e \<Longrightarrow>
     leaf_insert_sorted (xs @ (key, v) # ys) key r = xs @ (key, r) # ys"
  using leaf_insert_append [of xs key ys "[(key, v)]"] by (simp add: leaf_insert_single)

lemma leaf_insert_sorted_wrt:
  assumes "sorted_wrt (<) (map fst es)"
  shows "sorted_wrt (<) (map fst (leaf_insert_sorted es key r))"
  by (rule leaf_cases [OF assms, of key])
    (use assms in \<open>force simp: leaf_insert_absent leaf_insert_present sorted_wrt_append\<close>)+

lemma leaf_insert_keys:
  assumes "sorted_wrt (<) (map fst es)"
  shows "fst ` set (leaf_insert_sorted es key r) = insert key (fst ` set es)"
  by (rule leaf_cases [OF assms, of key])
    (auto simp: leaf_insert_absent leaf_insert_present)

lemma leaf_insert_map_of:
  assumes "sorted_wrt (<) (map fst es)"
  shows "map_of (leaf_insert_sorted es key r) = (map_of es)(key \<mapsto> r)"
proof (rule leaf_cases [OF assms, of key])
  fix xs ys
  assume *: "es = xs @ ys" "\<forall>e \<in> set xs. fst e < key" "\<forall>e \<in> set ys. key < fst e"
  then have "map_of xs key = None" by (force simp: map_of_eq_None_iff)
  with * show ?thesis
    by (auto simp: leaf_insert_absent fun_eq_iff map_add_def split: option.splits)
next
  fix xs v ys
  assume *: "es = xs @ (key, v) # ys" "\<forall>e \<in> set xs. fst e < key" "\<forall>e \<in> set ys. key < fst e"
  then have "map_of xs key = None" by (force simp: map_of_eq_None_iff)
  with * show ?thesis
    by (auto simp: leaf_insert_present fun_eq_iff map_add_def split: option.splits)
qed

lemma leaf_insert_length:
  assumes "sorted_wrt (<) (map fst es)"
  shows "length es \<le> length (leaf_insert_sorted es key r) \<and>
    length (leaf_insert_sorted es key r) \<le> Suc (length es)"
  by (rule leaf_cases [OF assms, of key]) (auto simp: leaf_insert_absent leaf_insert_present)

section \<open>Insertion\<close>

text \<open>What insertion does to the leaf it reaches: the leaves that replace it.\<close>

definition leaf_result :: "nat \<Rightarrow> int \<Rightarrow> int \<Rightarrow> addr \<times> entry list \<times> addr option \<Rightarrow> addr \<Rightarrow>
    (addr \<times> entry list \<times> addr option) list \<times> addr" where
  "leaf_result order key r l fresh =
     (case l of (a, es, nx) \<Rightarrow>
        let es' = leaf_insert_sorted es key r
        in if length es' < order then ([(a, es', nx)], fresh)
           else ([(a, take (order div 2) es', Some fresh), (fresh, drop (order div 2) es', nx)],
                 Suc fresh))"

text \<open>What an internal node does with the sibling its child hands up.\<close>

definition finish :: "nat \<Rightarrow> int list \<Rightarrow> node list \<Rightarrow> addr \<Rightarrow> node \<times> (int \<times> node) option \<times> addr" where
  "finish order ks cs f =
     (if length ks < order then (Internal ks cs, None, f)
      else (case split_internal order ks cs of (l, k, r) \<Rightarrow> (l, Some (k, r), f)))"

lemma insert_rec_Internal:
  assumes "length cs1 = length ks1" and "internal_child_idx (ks1 @ ks2) key = length cs1"
    and "\<And>c' k r f'. insert_rec order key v c fresh = (c', Some (k, r), f') \<Longrightarrow>
        internal_child_idx (ks1 @ ks2) k = length ks1"
  shows "insert_rec order key v (Internal (ks1 @ ks2) (cs1 @ c # cs2)) fresh =
    (case insert_rec order key v c fresh of
       (c', None, f') \<Rightarrow> (Internal (ks1 @ ks2) (cs1 @ c' # cs2), None, f')
     | (c', Some (k, r), f') \<Rightarrow> finish order (ks1 @ k # ks2) (cs1 @ c' # r # cs2) f')"
proof -
  obtain c' s f' where res: "insert_rec order key v c fresh = (c', s, f')"
    by (cases "insert_rec order key v c fresh") auto
  show ?thesis
  proof (cases s)
    case None
    then show ?thesis using assms(1,2) res by (simp add: nth_append list_update_append)
  next
    case (Some kr)
    obtain k r where kr: "kr = (k, r)" by (cases kr)
    have "internal_child_idx (ks1 @ ks2) k = length ks1"
      using assms(3) res Some kr by blast
    then show ?thesis
      using assms(1,2) res Some kr
      by (simp add: nth_append list_update_append internal_insert_nonfull_def finish_def Let_def
          split: prod.splits)
  qed
qed

definition lo_lt :: "int option \<Rightarrow> int \<Rightarrow> bool" where
  "lo_lt lo k = (case lo of None \<Rightarrow> True | Some l \<Rightarrow> l < k)"

text \<open>The well-formedness of what insertion into a node between two bounds returns.\<close>

fun wf_result :: "int option \<Rightarrow> int option \<Rightarrow> node \<times> (int \<times> node) option \<times> addr \<Rightarrow> bool" where
  "wf_result lo hi (n, None, f) \<longleftrightarrow> wf_between lo hi n"
| "wf_result lo hi (n, Some (k, r), f) \<longleftrightarrow>
     lo_lt lo k \<and> hi_ok hi k \<and> wf_between lo (Some k) n \<and> wf_between (Some k) hi r"

fun result_leaves :: "node \<times> (int \<times> node) option \<times> addr \<Rightarrow> (addr \<times> entry list \<times> addr option) list" where
  "result_leaves (n, None, f) = leaves n"
| "result_leaves (n, Some (k, r), f) = leaves n @ leaves r"

fun result_fresh :: "node \<times> (int \<times> node) option \<times> addr \<Rightarrow> addr" where
  "result_fresh (n, s, f) = f"

lemma split_at_mid: "mid < length ks \<Longrightarrow> ks = take mid ks @ ks ! mid # drop (Suc mid) ks"
  by (rule id_take_nth_drop)

lemma finish_wf:
  assumes "sorted_wrt (<) ks" "\<forall>k \<in> set ks. lo_ok lo k \<and> hi_ok hi k"
    and "chain wf_between lo hi ks cs" and "2 \<le> order"
  shows "wf_result lo hi (finish order ks cs f)"
proof (cases "length ks < order")
  case True
  with assms show ?thesis by (simp add: finish_def)
next
  case False
  define mid where "mid = order div 2"
  have m: "mid < length ks" "0 < mid" using False assms(4) by (auto simp: mid_def)
  have len: "length cs = Suc (length ks)" using assms(3) by (rule chain_length)
  obtain ks1 p ks2 where ks: "ks = ks1 @ p # ks2" and k1: "ks1 = take mid ks"
    and p: "p = ks ! mid" and k2: "ks2 = drop (Suc mid) ks"
    using split_at_mid [OF m(1)] by blast
  define cs1 where "cs1 = take (Suc mid) cs"
  define cs2 where "cs2 = drop (Suc mid) cs"
  have cs: "cs = cs1 @ cs2" by (simp add: cs1_def cs2_def)
  have "length cs1 = Suc (length ks1)" using m len by (simp add: cs1_def k1)
  then have ch: "chain wf_between lo (Some p) ks1 cs1" "chain wf_between (Some p) hi ks2 cs2"
    using assms(3) chain_split_key [of cs1 ks1] unfolding ks cs by auto
  have srt: "sorted_wrt (<) ks1" "sorted_wrt (<) ks2" "\<forall>k \<in> set ks1. k < p" "\<forall>k \<in> set ks2. p < k"
    using assms(1) by (auto simp: ks sorted_wrt_append)
  have "ks1 \<noteq> []" using m by (auto simp: k1)
  then obtain k0 where "k0 \<in> set ks1" by (cases ks1) auto
  then have "lo_lt lo p" using srt(3) assms(2) by (force simp: ks lo_lt_def lo_ok_def split: option.splits)
  moreover have "finish order ks cs f = (Internal ks1 cs1, Some (p, Internal ks2 cs2), f)"
    using False by (simp add: finish_def split_internal_def Let_def k1 k2 p cs1_def cs2_def
        flip: mid_def)
  ultimately show ?thesis
    using srt ch assms(2) by (auto simp: ks lo_ok_def hi_ok_def)
qed

lemma leaf_split_wf:
  assumes "sorted_wrt (<) (map fst es)" "keys_in lo hi es" "2 \<le> order" "order \<le> length es"
  shows "wf_result lo hi (case split_leaf order a es nx f of (l, k, r) \<Rightarrow> (l, Some (k, r), f'))"
proof -
  define mid where "mid = order div 2"
  have m: "mid < length es" "0 < mid" using assms(3,4) by (auto simp: mid_def)
  obtain es1 e es2 where es: "es = es1 @ e # es2" and e1: "es1 = take mid es"
    and e2: "e # es2 = drop mid es"
    using split_at_mid [OF m(1)] Cons_nth_drop_Suc [OF m(1)] by metis
  have srt: "sorted_wrt (<) (map fst es1)" "sorted_wrt (<) (map fst (e # es2))"
    "\<forall>x \<in> set es1. fst x < fst e" "\<forall>x \<in> set es2. fst e < fst x"
    using assms(1) by (auto simp: es sorted_wrt_append)
  have "es1 \<noteq> []" using m by (auto simp: e1)
  then obtain x where "x \<in> set es1" by (cases es1) auto
  then have "lo_lt lo (fst e)"
    using srt(3) assms(2) by (force simp: es lo_lt_def lo_ok_def split: option.splits)
  moreover have "split_leaf order a es nx f = (Leaf a es1 (Some f), fst e, Leaf f (e # es2) nx)"
    by (simp add: split_leaf_def Let_def e1 flip: mid_def e2)
  ultimately show ?thesis
    using srt assms(2) by (force simp: es lo_ok_def hi_ok_def)
qed

text \<open>
  The local effect of an insertion: the result is well formed, the leaves of the node are
  those before it with the leaf that holds the key replaced by \<open>leaf_result\<close>, and the key
  lies between the contents of the leaves on either side of that leaf.
\<close>

definition leaf_context :: "node \<Rightarrow> int \<Rightarrow> (addr \<times> entry list \<times> addr option) list \<Rightarrow>
    (addr \<times> entry list \<times> addr option) list \<Rightarrow> bool" where
  "leaf_context n key L1 L2 \<longleftrightarrow>
     leaves n = L1 @ find_leaf n key # L2 \<and>
     (\<forall>(a, es, nx) \<in> set L1. \<forall>e \<in> set es. fst e < key) \<and>
     (\<forall>(a, es, nx) \<in> set L2. \<forall>e \<in> set es. key < fst e)"

lemma leaf_context_Internal:
  assumes "leaf_context c key L1 L2"
    and "internal_child_idx ks key = length cs1" and "cs = cs1 @ c # cs2"
    and "\<forall>e \<in> set (concat (map contents cs1)). fst e < key"
    and "\<forall>e \<in> set (concat (map contents cs2)). key < fst e"
  shows "leaf_context (Internal ks cs) key (concat (map leaves cs1) @ L1) (L2 @ concat (map leaves cs2))"
  using assms unfolding leaf_context_def contents_def
  by (fastforce simp: nth_append)

text \<open>One level of the descent, with everything the well-formedness gives about it.\<close>

lemma node_step:
  assumes "wf_between lo hi (Internal ks cs)" "lo_ok lo key" "hi_ok hi key"
  obtains ks1 ks2 cs1 c cs2 where "ks = ks1 @ ks2" "cs = cs1 @ c # cs2"
    "length cs1 = length ks1" "length cs2 = length ks2" "internal_child_idx ks key = length cs1"
    "lefts wf_between lo ks1 cs1" "wf_between (last_b lo ks1) (first_b ks2 hi) c"
    "rights wf_between hi ks2 cs2"
    "lo_ok (last_b lo ks1) key" "hi_ok (first_b ks2 hi) key"
    "\<forall>e \<in> set (concat (map contents cs1)). fst e < key"
    "\<forall>e \<in> set (concat (map contents cs2)). key < fst e"
proof -
  have chain: "chain wf_between lo hi ks cs" and srt: "sorted_wrt (<) ks"
    using assms(1) by auto
  obtain ks1 ks2 cs1 c cs2 where d: "ks = ks1 @ ks2" "cs = cs1 @ c # cs2"
      "length cs1 = length ks1" "length cs2 = length ks2"
      "\<forall>k \<in> set ks1. k \<le> key" "\<forall>k \<in> set ks2. key < k"
      "internal_child_idx ks key = length cs1"
    by (rule descend [OF chain_length [OF chain] srt])
  have parts: "lefts wf_between lo ks1 cs1" "wf_between (last_b lo ks1) (first_b ks2 hi) c"
      "rights wf_between hi ks2 cs2"
    using chain chain_child [OF d(3,4)] unfolding d(1,2) by auto
  have b: "lo_ok (last_b lo ks1) key" "hi_ok (first_b ks2 hi) key"
    using bounds_descend [OF assms(2,3) d(5,6)] by auto
  have side: "\<forall>e \<in> set (concat (map contents cs1)). fst e < key"
      "\<forall>e \<in> set (concat (map contents cs2)). key < fst e"
    using lefts_contents [OF parts(1) d(5)] rights_contents [OF parts(3) d(6)] by blast+
  show thesis
    by (rule that [OF d(1-4,7) parts b side])
qed

lemma insert_step:
  assumes wf: "wf_result (last_b lo ks1) (first_b ks2 hi) (insert_rec order key v c fresh)"
    and srt: "sorted_wrt (<) ks"
    and d: "ks = ks1 @ ks2" "cs = cs1 @ c # cs2" "length cs1 = length ks1"
      "internal_child_idx ks key = length cs1"
  shows "insert_rec order key v (Internal ks cs) fresh =
    (case insert_rec order key v c fresh of
       (c', None, f') \<Rightarrow> (Internal (ks1 @ ks2) (cs1 @ c' # cs2), None, f')
     | (c', Some (k, r), f') \<Rightarrow> finish order (ks1 @ k # ks2) (cs1 @ c' # r # cs2) f')"
proof -
  have idx: "internal_child_idx (ks1 @ ks2) k = length ks1"
    if "insert_rec order key v c fresh = (c', Some (k, r), f')" for c' k r f'
  proof (rule internal_child_idx_split)
    have kb: "lo_lt (last_b lo ks1) k" "hi_ok (first_b ks2 hi) k" using wf that by auto
    show "\<forall>j \<in> set ks1. j \<le> k"
      using kb(1) srt by (cases ks1 rule: rev_cases)
        (auto simp: d(1) lo_lt_def sorted_wrt_append)
    show "\<forall>j \<in> set ks2. k < j"
      using kb(2) srt by (cases ks2) (auto simp: d(1) hi_ok_def sorted_wrt_append)
  qed
  show ?thesis
    unfolding d(1,2) by (rule insert_rec_Internal [OF d(3) _ idx]) (use d(1,4) in auto)
qed

lemma result_leaves_finish [simp]: "result_leaves (finish order ks cs f) = concat (map leaves cs)"
proof -
  have "concat (map leaves (take n cs)) @ concat (map leaves (drop n cs)) = concat (map leaves cs)" for n
    by (metis append_take_drop_id concat_append map_append)
  then show ?thesis by (simp add: finish_def split_internal_def Let_def)
qed

lemma result_fresh_finish [simp]: "result_fresh (finish order ks cs f) = f"
  by (simp add: finish_def split_internal_def Let_def)

lemma insert_rec_correct:
  assumes "wf_between lo hi n" "lo_ok lo key" "hi_ok hi key" "2 \<le> order"
  shows "wf_result lo hi (insert_rec order key v n fresh) \<and>
    (\<exists>L1 L2. leaf_context n key L1 L2 \<and>
       result_leaves (insert_rec order key v n fresh)
         = L1 @ fst (leaf_result order key v (find_leaf n key) fresh) @ L2 \<and>
       result_fresh (insert_rec order key v n fresh)
         = snd (leaf_result order key v (find_leaf n key) fresh))"
  using assms(1-3)
proof (induction n arbitrary: lo hi)
  case (Leaf a es nx)
  define es' where "es' = leaf_insert_sorted es key v"
  have es: "sorted_wrt (<) (map fst es)" using Leaf.prems by simp
  have srt: "sorted_wrt (<) (map fst es')"
    unfolding es'_def by (rule leaf_insert_sorted_wrt [OF es])
  have "fst ` set es' = insert key (fst ` set es)"
    unfolding es'_def by (rule leaf_insert_keys [OF es])
  then have keys: "\<forall>k \<in> fst ` set es'. lo_ok lo k \<and> hi_ok hi k"
    using Leaf.prems by auto
  have wf: "wf_result lo hi (insert_rec order key v (Leaf a es nx) fresh)"
    using srt keys leaf_split_wf [where es = es' and lo = lo and hi = hi and
        order = order and a = a and nx = nx and f = fresh and f' = "Suc fresh"] assms(4)
    by (auto simp: Let_def split: prod.splits simp flip: es'_def)
  have "leaf_context (Leaf a es nx) key [] []"
    by (simp add: leaf_context_def)
  then show ?case
    using wf by (intro conjI exI [of _ "[]"])
      (auto simp: leaf_result_def split_leaf_def Let_def)
next
  case (Internal ks cs)
  have srt: "sorted_wrt (<) ks" and keys: "\<forall>k \<in> set ks. lo_ok lo k \<and> hi_ok hi k"
    using Internal.prems by auto
  obtain ks1 ks2 cs1 c cs2 where d: "ks = ks1 @ ks2" "cs = cs1 @ c # cs2"
      "length cs1 = length ks1" "length cs2 = length ks2"
      "internal_child_idx ks key = length cs1"
    and parts: "lefts wf_between lo ks1 cs1" "wf_between (last_b lo ks1) (first_b ks2 hi) c"
      "rights wf_between hi ks2 cs2"
    and b: "lo_ok (last_b lo ks1) key" "hi_ok (first_b ks2 hi) key"
    and side: "\<forall>e \<in> set (concat (map contents cs1)). fst e < key"
      "\<forall>e \<in> set (concat (map contents cs2)). key < fst e"
    by (rule node_step [OF Internal.prems])
  let ?l = "last_b lo ks1" and ?h = "first_b ks2 hi"
  let ?r = "insert_rec order key v c fresh"
  obtain L1 L2 where wf: "wf_result ?l ?h ?r" and ctx: "leaf_context c key L1 L2"
    and lv: "result_leaves ?r = L1 @ fst (leaf_result order key v (find_leaf c key) fresh) @ L2"
    and fr: "result_fresh ?r = snd (leaf_result order key v (find_leaf c key) fresh)"
    using Internal.IH [OF _ parts(2) b] d(2) by auto
  have ctx': "leaf_context (Internal ks cs) key (concat (map leaves cs1) @ L1) (L2 @ concat (map leaves cs2))"
    by (rule leaf_context_Internal [OF ctx d(5) d(2) side])
  have fl: "find_leaf (Internal ks cs) key = find_leaf c key"
    by (simp add: d(5)) (simp add: d(2) nth_append)
  note unfold = insert_step [OF wf srt d(1-3,5)]
  obtain c' s f' where r: "?r = (c', s, f')" by (cases ?r) auto
  have res: "wf_result lo hi (insert_rec order key v (Internal ks cs) fresh) \<and>
      result_leaves (insert_rec order key v (Internal ks cs) fresh)
        = concat (map leaves cs1) @ result_leaves ?r @ concat (map leaves cs2) \<and>
      result_fresh (insert_rec order key v (Internal ks cs) fresh) = result_fresh ?r"
  proof (cases s)
    case None
    then show ?thesis
      unfolding unfold using r wf parts keys srt chain_child [OF d(3,4), of wf_between lo hi c']
      by (simp add: d(1))
  next
    case (Some kr)
    obtain k rt where kr: "kr = (k, rt)" by (cases kr)
    have w: "lo_lt ?l k" "hi_ok ?h k" "wf_between ?l (Some k) c'" "wf_between (Some k) ?h rt"
      using wf by (simp_all add: r Some kr)
    have "sorted_wrt (<) (ks1 @ k # ks2)"
      using w(1,2) srt
      by (cases ks1 rule: rev_cases; cases ks2)
        (auto simp: d(1) lo_lt_def hi_ok_def sorted_wrt_append)
    moreover have "lo_ok lo k \<and> hi_ok hi k"
      using w(1,2) keys by (cases ks1 rule: rev_cases; cases ks2)
        (auto simp: d(1) lo_lt_def lo_ok_def hi_ok_def split: option.splits)
    moreover have "chain wf_between lo hi (ks1 @ k # ks2) (cs1 @ c' # rt # cs2)"
      using chain_child2 [OF d(3,4)] parts w by blast
    ultimately show ?thesis
      unfolding unfold using finish_wf [where order = order and lo = lo and hi = hi] keys assms(4)
      by (simp add: r Some kr d(1))
  qed
  show ?case
    by (rule conjI, use res in blast, rule exI, rule exI, rule conjI, rule ctx')
      (use res lv fr fl in simp)
qed

section \<open>Shape: equal depth and occupancy\<close>

text \<open>
  All leaves are at the same depth, no node holds more than \<open>order - 1\<close> keys, and every
  node but the root holds at least the number of keys a split leaves it.
\<close>

fun shape :: "nat \<Rightarrow> nat \<Rightarrow> nat \<Rightarrow> nat \<Rightarrow> node \<Rightarrow> bool" where
  "shape ml mi order h (Leaf a es nx) \<longleftrightarrow> h = 0 \<and> ml \<le> length es \<and> length es < order"
| "shape ml mi order h (Internal ks cs) \<longleftrightarrow> 0 < h \<and> mi \<le> length ks \<and> length ks < order \<and>
     (\<forall>c \<in> set cs. shape (order div 2) (order - order div 2 - 1) order (h - 1) c)"

abbreviation occupied :: "nat \<Rightarrow> nat \<Rightarrow> node \<Rightarrow> bool" where
  "occupied order h n \<equiv> shape (order div 2) (order - order div 2 - 1) order h n"

fun height :: "node \<Rightarrow> nat" where
  "height (Leaf a es nx) = 0"
| "height (Internal ks cs) = (case cs of [] \<Rightarrow> 0 | c # _ \<Rightarrow> Suc (height c))"

fun shape_result :: "nat \<Rightarrow> nat \<Rightarrow> nat \<Rightarrow> nat \<Rightarrow> node \<times> (int \<times> node) option \<times> addr \<Rightarrow> bool" where
  "shape_result ml mi order h (n, None, f) \<longleftrightarrow> shape ml mi order h n"
| "shape_result ml mi order h (n, Some (k, r), f) \<longleftrightarrow> occupied order h n \<and> occupied order h r"

lemma finish_shape:
  assumes "\<forall>c \<in> set cs. occupied order h c" "mi \<le> length ks" "length ks \<le> order" "3 \<le> order"
  shows "shape_result ml mi order (Suc h) (finish order ks cs f)"
  using assms
  by (auto simp: finish_def split_internal_def Let_def dest: in_set_takeD in_set_dropD)

lemma insert_rec_shape:
  assumes "wf_between lo hi n" "lo_ok lo key" "hi_ok hi key" "3 \<le> order" "shape ml mi order h n"
  shows "shape_result ml mi order h (insert_rec order key v n fresh)"
  using assms(1-3,5)
proof (induction n arbitrary: lo hi ml mi h)
  case (Leaf a es nx)
  then have "length es \<le> length (leaf_insert_sorted es key v) \<and>
      length (leaf_insert_sorted es key v) \<le> Suc (length es)"
    by (intro leaf_insert_length) simp
  then show ?case
    using Leaf.prems assms(4) by (auto simp: split_leaf_def Let_def)
next
  case (Internal ks cs)
  have srt: "sorted_wrt (<) ks" using Internal.prems by simp
  obtain ks1 ks2 cs1 c cs2 where d: "ks = ks1 @ ks2" "cs = cs1 @ c # cs2"
      "length cs1 = length ks1" "length cs2 = length ks2" "internal_child_idx ks key = length cs1"
    and c: "wf_between (last_b lo ks1) (first_b ks2 hi) c"
      "lo_ok (last_b lo ks1) key" "hi_ok (first_b ks2 hi) key"
    by (rule node_step [OF Internal.prems(1-3)])
  let ?r = "insert_rec order key v c fresh"
  obtain h' where h: "h = Suc h'" using Internal.prems(4) by (cases h) auto
  have sc: "\<forall>x \<in> set cs. occupied order h' x" and len: "mi \<le> length ks" "length ks < order"
    using Internal.prems(4) by (auto simp: h)
  have r: "shape_result (order div 2) (order - order div 2 - 1) order h' ?r"
    by (rule Internal.IH [OF _ c]) (use d(2) sc in auto)
  have wf: "wf_result (last_b lo ks1) (first_b ks2 hi) ?r"
    using insert_rec_correct [OF c, of order v fresh] assms(4) by simp
  note unfold = insert_step [OF wf srt d(1-3,5)]
  obtain c' s f' where e: "?r = (c', s, f')" by (cases ?r) auto
  show ?case
  proof (cases s)
    case None
    then show ?thesis
      unfolding unfold using r sc len by (auto simp: e d h)
  next
    case (Some kr)
    obtain k rt where kr: "kr = (k, rt)" by (cases kr)
    have "shape_result ml mi order (Suc h') (finish order (ks1 @ k # ks2) (cs1 @ c' # rt # cs2) f')"
      by (rule finish_shape) (use r sc len assms(4) in \<open>auto simp: e Some kr d\<close>)
    then show ?thesis
      unfolding unfold by (simp add: e Some kr h)
  qed
qed

lemma shape_height:
  "shape ml mi order h n \<Longrightarrow> wf_between lo hi n \<Longrightarrow> height n = h"
proof (induction n arbitrary: ml mi h lo hi)
  case (Internal ks cs)
  obtain c cs' where cs: "cs = c # cs'"
    using Internal.prems(2) by (cases cs) auto
  have "\<exists>l u. wf_between l u c"
    using Internal.prems(2) by (cases ks; cases cs') (auto simp: cs)
  then have "height c = h - 1"
    using Internal.IH [of c] Internal.prems(1) by (auto simp: cs)
  then show ?case
    using Internal.prems(1) by (simp add: cs)
qed simp

section \<open>The leaf chain\<close>

definition first_addr :: "(addr \<times> entry list \<times> addr option) list \<Rightarrow> addr option \<Rightarrow> addr option" where
  "first_addr ls e = (case ls of [] \<Rightarrow> e | (a, _, _) # _ \<Rightarrow> Some a)"

fun linked :: "(addr \<times> entry list \<times> addr option) list \<Rightarrow> addr option \<Rightarrow> bool" where
  "linked [] e \<longleftrightarrow> True"
| "linked ((a, es, nx) # ls) e \<longleftrightarrow> nx = first_addr ls e \<and> linked ls e"

lemma first_addr_append: "first_addr (xs @ ys) e = first_addr xs (first_addr ys e)"
  by (cases xs) (auto simp: first_addr_def)

lemma linked_append: "linked (xs @ ys) e \<longleftrightarrow> linked xs (first_addr ys e) \<and> linked ys e"
  by (induction xs e rule: linked.induct) (auto simp: first_addr_append)

lemma leaf_result_first_addr:
  "first_addr (fst (leaf_result order key v l fresh) @ L2) e = first_addr (l # L2) e"
  by (auto simp: leaf_result_def first_addr_def Let_def split: prod.splits)

lemma leaf_result_linked:
  "linked (l # L2) e \<Longrightarrow> linked (fst (leaf_result order key v l fresh) @ L2) e"
  by (auto simp: leaf_result_def first_addr_def Let_def split: prod.splits)

section \<open>The invariant of a tree\<close>

definition bp_contents :: "bptree \<Rightarrow> entry list" where
  "bp_contents t = contents (bp_root t)"

definition bp_inv :: "bptree \<Rightarrow> bool" where
  "bp_inv t \<longleftrightarrow> 3 \<le> bp_order t \<and> wf_between None None (bp_root t) \<and>
     shape 0 1 (bp_order t) (height (bp_root t)) (bp_root t) \<and>
     linked (leaves (bp_root t)) None \<and> distinct (map fst (leaves (bp_root t))) \<and>
     (\<forall>l \<in> set (leaves (bp_root t)). fst l < bp_fresh t)"

lemma bp_inv_create: "bptree_create order = Some t \<Longrightarrow> bp_inv t \<and> bp_contents t = []"
  by (auto simp: bptree_create_def bp_inv_def bp_contents_def leaf_new_def first_addr_def
      split: if_splits)

text \<open>What insertion does to the root, its leaves and the allocation counter.\<close>

lemma insert_root:
  obtains n f where "bptree_insert t key v = t\<lparr>bp_root := n, bp_fresh := f\<rparr>"
    "leaves n = result_leaves (insert_rec (bp_order t) key v (bp_root t) (bp_fresh t))"
    "f = result_fresh (insert_rec (bp_order t) key v (bp_root t) (bp_fresh t))"
    "wf_result None None (insert_rec (bp_order t) key v (bp_root t) (bp_fresh t)) \<longrightarrow>
       wf_between None None n"
    "shape_result 0 1 (bp_order t) h (insert_rec (bp_order t) key v (bp_root t) (bp_fresh t)) \<longrightarrow>
       3 \<le> bp_order t \<longrightarrow> (\<exists>h'. shape 0 1 (bp_order t) h' n)"
proof -
  obtain n s f where r: "insert_rec (bp_order t) key v (bp_root t) (bp_fresh t) = (n, s, f)"
    by (cases "insert_rec (bp_order t) key v (bp_root t) (bp_fresh t)") auto
  show thesis
  proof (cases s)
    case None
    then show ?thesis
      by (intro that [where n = n and f = f]) (auto simp: bptree_insert_def r)
  next
    case (Some kr)
    obtain k rt where kr: "kr = (k, rt)" by (cases kr)
    show ?thesis
    proof (rule that [where n = "Internal [k] [n, rt]" and f = f])
      show "shape_result 0 1 (bp_order t) h (insert_rec (bp_order t) key v (bp_root t) (bp_fresh t)) \<longrightarrow>
          3 \<le> bp_order t \<longrightarrow> (\<exists>h'. shape 0 1 (bp_order t) h' (Internal [k] [n, rt]))"
        by (intro impI exI [of _ "Suc h"]) (simp add: r Some kr)
    qed (auto simp: bptree_insert_def r Some kr lo_ok_def hi_ok_def)
  qed
qed

lemma leaf_result_contents:
  "concat (map (\<lambda>(a, es, nx). es) (fst (leaf_result order key v (a, es, nx) fresh)))
     = leaf_insert_sorted es key v"
  by (auto simp: leaf_result_def Let_def)

lemma leaf_result_addrs:
  assumes "distinct (map fst (L1 @ l # L2))" "\<forall>x \<in> set (L1 @ l # L2). fst x < fresh"
  shows "distinct (map fst (L1 @ fst (leaf_result order key v l fresh) @ L2)) \<and>
    (\<forall>x \<in> set (L1 @ fst (leaf_result order key v l fresh) @ L2).
       fst x < snd (leaf_result order key v l fresh))"
proof -
  obtain a es nx where l: "l = (a, es, nx)" by (cases l) auto
  have lt: "\<forall>x \<in> set L1. fst x < fresh" "\<forall>x \<in> set L2. fst x < fresh" "a < fresh"
    using assms(2) by (auto simp: l)
  then have "fresh \<notin> fst ` set L1" "fresh \<notin> fst ` set L2" "a \<noteq> fresh" by blast+
  moreover have "distinct (map fst L1)" "distinct (map fst L2)" "a \<notin> fst ` set L1" "a \<notin> fst ` set L2"
    "fst ` set L1 \<inter> fst ` set L2 = {}"
    using assms(1) by (auto simp: l)
  ultimately show ?thesis
    using lt by (simp add: l leaf_result_def Let_def less_SucI Int_commute ball_Un)
qed

lemma bptree_insert_correct:
  assumes "bp_inv t"
  shows "bp_inv (bptree_insert t key v) \<and>
    bp_contents (bptree_insert t key v) = leaf_insert_sorted (bp_contents t) key v"
proof -
  let ?n = "bp_root t" and ?o = "bp_order t" and ?f = "bp_fresh t"
  let ?r = "insert_rec ?o key v ?n ?f"
  have wf: "wf_between None None ?n" and o: "3 \<le> ?o" "2 \<le> ?o"
    and sh: "shape 0 1 ?o (height ?n) ?n"
    and lk: "linked (leaves ?n) None" "distinct (map fst (leaves ?n))" "\<forall>l \<in> set (leaves ?n). fst l < ?f"
    using assms by (auto simp: bp_inv_def)
  have any: "lo_ok None key" "hi_ok None key" by (simp_all add: lo_ok_def hi_ok_def)
  obtain L1 L2 where wr: "wf_result None None ?r" and ctx: "leaf_context ?n key L1 L2"
    and lv: "result_leaves ?r = L1 @ fst (leaf_result ?o key v (find_leaf ?n key) ?f) @ L2"
    and fr: "result_fresh ?r = snd (leaf_result ?o key v (find_leaf ?n key) ?f)"
    using insert_rec_correct [OF wf any o(2)] by blast
  have sr: "shape_result 0 1 ?o (height ?n) ?r"
    by (rule insert_rec_shape [OF wf any o(1) sh])
  obtain n f where ins: "bptree_insert t key v = t\<lparr>bp_root := n, bp_fresh := f\<rparr>"
    and raw: "leaves n = result_leaves ?r" "f = result_fresh ?r"
      "wf_result None None ?r \<longrightarrow> wf_between None None n"
      "shape_result 0 1 ?o (height ?n) ?r \<longrightarrow> 3 \<le> ?o \<longrightarrow> (\<exists>h. shape 0 1 ?o h n)"
    by (rule insert_root [of t key v "height ?n"])
  note nl = raw(1) [unfolded lv] and nf = raw(2) [unfolded fr]
    and nwf = raw(3) [rule_format, OF wr] and nsh = raw(4) [rule_format, OF sr o(1)]
  have old: "leaves ?n = L1 @ find_leaf ?n key # L2"
    and l1: "\<forall>(a, es, nx) \<in> set L1. \<forall>e \<in> set es. fst e < key"
    and l2: "\<forall>(a, es, nx) \<in> set L2. \<forall>e \<in> set es. key < fst e"
    using ctx by (auto simp: leaf_context_def)
  have "linked (leaves n) None"
    using lk(1) leaf_result_linked unfolding nl old linked_append leaf_result_first_addr
    by (metis linked_append)
  moreover have "distinct (map fst (leaves n)) \<and> (\<forall>l \<in> set (leaves n). fst l < f)"
    unfolding nl nf by (rule leaf_result_addrs) (use lk old in simp_all)
  moreover have "shape 0 1 ?o (height n) n"
    using nsh shape_height [OF _ nwf] by metis
  ultimately have inv: "bp_inv (bptree_insert t key v)"
    using ins nwf o by (simp add: bp_inv_def)
  obtain a es nx where fl: "find_leaf ?n key = (a, es, nx)" by (cases "find_leaf ?n key") auto
  let ?c = "\<lambda>L. concat (map (\<lambda>(a :: addr, es :: entry list, nx :: addr option). es) L)"
  have "leaf_insert_sorted (?c L1 @ es @ ?c L2) key v = ?c L1 @ leaf_insert_sorted es key v @ ?c L2"
    by (rule leaf_insert_append) (use l1 l2 in fastforce)+
  then have "contents n = leaf_insert_sorted (contents ?n) key v"
    by (simp add: contents_def nl old fl leaf_result_contents)
  then show ?thesis
    using inv by (simp add: bp_contents_def ins)
qed

section \<open>Search\<close>

lemma leaf_scan_map_of: "leaf_scan es key = (case map_of es key of None \<Rightarrow> -1 | Some v \<Rightarrow> v)"
  by (induction es key rule: leaf_scan.induct) auto

lemma bptree_search_contents:
  assumes "bp_inv t"
  shows "bptree_search t key = (case map_of (bp_contents t) key of None \<Rightarrow> -1 | Some v \<Rightarrow> v)"
proof -
  let ?n = "bp_root t"
  have "wf_between None None ?n" using assms by (simp add: bp_inv_def)
  then obtain L1 L2 where ctx: "leaf_context ?n key L1 L2"
    using insert_rec_correct [of None None ?n key 2 0 0] by (auto simp: lo_ok_def hi_ok_def)
  obtain a es nx where fl: "find_leaf ?n key = (a, es, nx)" by (cases "find_leaf ?n key") auto
  let ?c = "\<lambda>L. concat (map (\<lambda>(a :: addr, es :: entry list, nx :: addr option). es) L)"
  have cont: "contents ?n = ?c L1 @ es @ ?c L2"
    using ctx by (simp add: leaf_context_def contents_def fl)
  have "map_of (?c L1) key = None" "map_of (?c L2) key = None"
    using ctx by (fastforce simp: leaf_context_def map_of_eq_None_iff)+
  then have "map_of (contents ?n) key = map_of es key"
    by (simp add: cont map_add_def split: option.splits)
  then show ?thesis
    by (simp add: bptree_search_def fl leaf_scan_map_of bp_contents_def)
qed

lemma bp_contents_sorted: "bp_inv t \<Longrightarrow> sorted_wrt (<) (map fst (bp_contents t))"
  using wf_contents by (auto simp: bp_inv_def bp_contents_def)

lemma bptree_insert_map:
  "bp_inv t \<Longrightarrow> map_of (bp_contents (bptree_insert t key v)) = (map_of (bp_contents t))(key \<mapsto> v)"
  using bptree_insert_correct [of t key v] leaf_insert_map_of [OF bp_contents_sorted]
  by simp

section \<open>Range\<close>

definition rng :: "int \<Rightarrow> int \<Rightarrow> entry list \<Rightarrow> int list" where
  "rng lo hi es = map snd (filter (\<lambda>e. lo \<le> fst e \<and> fst e \<le> hi) es)"

lemma rng_simps [simp]:
  "rng lo hi [] = []"
  "rng lo hi (e # es) = (if lo \<le> fst e \<and> fst e \<le> hi then snd e # rng lo hi es else rng lo hi es)"
  "rng lo hi (xs @ ys) = rng lo hi xs @ rng lo hi ys"
  by (simp_all add: rng_def)

lemma rng_above: "\<forall>e \<in> set es. hi < fst e \<Longrightarrow> rng lo hi es = []"
  by (induction es) auto

lemma rng_below: "\<forall>e \<in> set es. fst e < lo \<Longrightarrow> rng lo hi es = []"
  by (induction es) auto

lemma range_leaf_rng:
  "sorted_wrt (<) (map fst es) \<Longrightarrow> length out \<le> m \<Longrightarrow>
     fst (range_leaf lo hi m es out) = take m (out @ rng lo hi es) \<and>
     (snd (range_leaf lo hi m es out) \<longrightarrow> (\<exists>e \<in> set es. hi < fst e))"
proof (induction lo hi m es out rule: range_leaf.induct)
  case (2 lo hi m k v es out)
  have "k > hi \<Longrightarrow> rng lo hi es = []"
    using "2.prems"(1) by (intro rng_above) auto
  then show ?case
    using 2 by (auto simp: not_less not_le)
qed simp

abbreviation leaf_conts :: "(addr \<times> entry list \<times> addr option) list \<Rightarrow> entry list" where
  "leaf_conts L \<equiv> concat (map (\<lambda>(a, es, nx). es) L)"

lemma range_walk_chain:
  assumes "leaves n = L1 @ L2" "linked (leaves n) None" "distinct (map fst (leaves n))"
    and "sorted_wrt (<) (map fst (leaf_conts L2))" "length out \<le> m"
  shows "range_walk n lo hi m (first_addr L2 None) out = Some (take m (out @ rng lo hi (leaf_conts L2)))"
  using assms
proof (induction L2 arbitrary: L1 out)
  case Nil
  then show ?case by (simp add: first_addr_def range_walk.simps)
next
  case (Cons l L2)
  obtain a es nx where l: "l = (a, es, nx)" by (cases l) auto
  have at: "leaf_at n a = Some (es, nx)"
    unfolding leaf_at_def by (rule map_of_is_SomeI [OF Cons.prems(3)]) (simp add: Cons.prems(1) l)
  have nx: "nx = first_addr L2 None"
    using Cons.prems(2) by (simp add: Cons.prems(1) l linked_append)
  have fst: "first_addr (l # L2) None = Some a" by (simp add: first_addr_def l)
  have srt: "sorted_wrt (<) (map fst es)" "sorted_wrt (<) (map fst (leaf_conts L2))"
    "\<forall>x \<in> set es. \<forall>y \<in> set (leaf_conts L2). fst x < fst y"
    using Cons.prems(4) by (auto simp: l sorted_wrt_append)
  show ?case
  proof (cases "m \<le> length out")
    case True
    then show ?thesis
      using Cons.prems(5) by (simp add: fst range_walk.simps)
  next
    case False
    obtain out' stop where r: "range_leaf lo hi m es out = (out', stop)"
      by (cases "range_leaf lo hi m es out") auto
    have out': "out' = take m (out @ rng lo hi es)"
      and stop: "stop \<Longrightarrow> \<exists>e \<in> set es. hi < fst e"
      using range_leaf_rng [OF srt(1) Cons.prems(5), of lo hi] by (simp_all add: r)
    show ?thesis
    proof (cases stop)
      case True
      then obtain e where e: "e \<in> set es" "hi < fst e" using stop by blast
      then have "rng lo hi (leaf_conts L2) = []"
        using srt(3) by (intro rng_above) fastforce
      moreover have "range_walk n lo hi m (Some a) out = Some out'"
        by (subst range_walk.simps) (simp add: False True at r)
      ultimately show ?thesis
        unfolding fst by (simp add: out' l)
    next
      case stop: False
      have "length out' \<le> m" by (simp add: out')
      then have "range_walk n lo hi m (first_addr L2 None) out'
          = Some (take m (out' @ rng lo hi (leaf_conts L2)))"
        using Cons.IH [of "L1 @ [l]" out'] Cons.prems srt(2) by simp
      then have "range_walk n lo hi m (first_addr (l # L2) None) out
          = Some (take m (out' @ rng lo hi (leaf_conts L2)))"
        unfolding fst by (subst range_walk.simps) (simp add: False stop at r nx)
      then show ?thesis
        by (simp add: out' l take_append min_def not_le)
    qed
  qed
qed

lemma bptree_range_contents:
  assumes "bp_inv t"
  shows "bptree_range t lo hi max_out =
    Some (if lo > hi then [] else take (nat max_out) (rng lo hi (bp_contents t)))"
proof (cases "max_out \<le> 0 \<or> lo > hi")
  case True
  then show ?thesis by (auto simp: bptree_range_def)
next
  case False
  let ?n = "bp_root t"
  have wf: "wf_between None None ?n" and lk: "linked (leaves ?n) None" "distinct (map fst (leaves ?n))"
    using assms by (simp_all add: bp_inv_def)
  then obtain L1 L2 where ctx: "leaf_context ?n lo L1 L2"
    using insert_rec_correct [of None None ?n lo 2 0 0] by (auto simp: lo_ok_def hi_ok_def)
  obtain a es nx where fl: "find_leaf ?n lo = (a, es, nx)" by (cases "find_leaf ?n lo") auto
  have lv: "leaves ?n = L1 @ (a, es, nx) # L2"
    using ctx by (simp add: leaf_context_def fl)
  have srt: "sorted_wrt (<) (map fst (leaf_conts ((a, es, nx) # L2)))"
    using bp_contents_sorted [OF assms]
    by (simp add: bp_contents_def contents_def lv sorted_wrt_append)
  have "range_walk ?n lo hi (nat max_out) (first_addr ((a, es, nx) # L2) None) []
      = Some (take (nat max_out) ([] @ rng lo hi (leaf_conts ((a, es, nx) # L2))))"
    by (rule range_walk_chain [OF lv lk srt]) simp
  moreover have "rng lo hi (leaf_conts L1) = []"
    using ctx by (intro rng_below) (fastforce simp: leaf_context_def)
  ultimately show ?thesis
    using False by (simp add: bptree_range_def fl first_addr_def bp_contents_def contents_def lv)
qed

section \<open>The index interfaces\<close>

text \<open>
  What the storage and engine layers rely on in an index: a lookup returns the last value
  written under a key. \<open>ok\<close> says which writes the provider accepts.
\<close>

locale kv_index =
  fixes inv :: "'t \<Rightarrow> bool"
    and empty :: "'t"
    and insert :: "'t \<Rightarrow> 'k \<Rightarrow> 'v \<Rightarrow> 't"
    and lookup :: "'t \<Rightarrow> 'k \<Rightarrow> 'v option"
    and ok :: "'k \<Rightarrow> 'v \<Rightarrow> bool"
  assumes inv_empty: "inv empty"
    and lookup_empty: "lookup empty k = None"
    and inv_insert: "inv t \<Longrightarrow> ok k v \<Longrightarrow> inv (insert t k v)"
    and lookup_insert: "inv t \<Longrightarrow> ok k v \<Longrightarrow>
      lookup (insert t k v) k' = (if k' = k then Some v else lookup t k')"
begin

definition load :: "('k \<times> 'v) list \<Rightarrow> 't" where
  "load kvs = foldl (\<lambda>t kv. insert t (fst kv) (snd kv)) empty kvs"

lemma load_correct:
  "\<forall>(k, v) \<in> set kvs. ok k v \<Longrightarrow> inv (load kvs) \<and> lookup (load kvs) = last_write kvs"
proof (induction kvs rule: rev_induct)
  case Nil
  then show ?case by (simp add: load_def inv_empty lookup_empty fun_eq_iff)
next
  case (snoc kv kvs)
  obtain k v where kv: "kv = (k, v)" by (cases kv)
  have "load (kvs @ [kv]) = insert (load kvs) k v" by (simp add: load_def kv)
  then show ?case
    using snoc by (auto simp: kv inv_insert lookup_insert fun_eq_iff)
qed

lemma insert_twice:
  "inv t \<Longrightarrow> ok k v \<Longrightarrow> ok k w \<Longrightarrow> lookup (insert (insert t k v) k w) = lookup (insert t k w)"
  by (simp add: fun_eq_iff lookup_insert inv_insert)

end

text \<open>
  An index with a bounded range query, and the caller that doubles its buffer until the
  answer no longer fills it (\<^verbatim>\<open>executor_try_range_select\<close> and \<^verbatim>\<open>execute_select\<close>).
\<close>

locale range_index = kv_index inv empty insert lookup ok
  for inv :: "'t \<Rightarrow> bool" and empty :: "'t" and insert :: "'t \<Rightarrow> 'k::linorder \<Rightarrow> 'v \<Rightarrow> 't"
    and lookup :: "'t \<Rightarrow> 'k \<Rightarrow> 'v option" and ok :: "'k \<Rightarrow> 'v \<Rightarrow> bool" +
  fixes items :: "'t \<Rightarrow> ('k \<times> 'v) list"
    and range :: "'t \<Rightarrow> 'k \<Rightarrow> 'k \<Rightarrow> int \<Rightarrow> 'v list option"
  assumes items_sorted: "inv t \<Longrightarrow> sorted_wrt (<) (map fst (items t))"
    and items_lookup: "inv t \<Longrightarrow> map_of (items t) k = lookup t k"
    and range_items: "inv t \<Longrightarrow> lo \<le> hi \<Longrightarrow> range t lo hi n =
      Some (take (nat n) (map snd (filter (\<lambda>e. lo \<le> fst e \<and> fst e \<le> hi) (items t))))"
begin

lemma range_all:
  assumes "inv t" "lo \<le> hi" "range t lo hi n = Some vs" "int (length vs) < n"
  shows "vs = map snd (filter (\<lambda>e. lo \<le> fst e \<and> fst e \<le> hi) (items t))"
  using assms by (auto simp: range_items min_def split: if_splits)

lemma range_set:
  assumes "inv t" "lo \<le> hi" "range t lo hi n = Some vs" "int (length vs) < n"
  shows "set vs = {v. \<exists>k. lo \<le> k \<and> k \<le> hi \<and> lookup t k = Some v}"
proof -
  have "distinct (map fst (items t))"
    using items_sorted [OF assms(1)] by (simp add: strict_sorted_iff)
  then have "lookup t k = Some v \<longleftrightarrow> (k, v) \<in> set (items t)" for k v
    by (simp add: map_of_eq_Some_iff flip: items_lookup [OF assms(1)])
  then show ?thesis
    unfolding range_all [OF assms] by (auto intro: rev_image_eqI)
qed

end

text \<open>The tree provides both. Row numbers are not negative, so that \<open>-1\<close> means absent.\<close>

definition bp_lookup :: "bptree \<Rightarrow> int \<Rightarrow> int option" where
  "bp_lookup t key = (let r = bptree_search t key in if r = -1 then None else Some r)"

definition bp_rows_ok :: "bptree \<Rightarrow> bool" where
  "bp_rows_ok t \<longleftrightarrow> bp_inv t \<and> (\<forall>e \<in> set (bp_contents t). 0 \<le> snd e)"

definition bp_empty :: "nat \<Rightarrow> bptree" where
  "bp_empty order = \<lparr>bp_order = max 3 order, bp_root = leaf_new 0, bp_fresh = 1\<rparr>"

lemma bp_empty_create: "3 \<le> order \<Longrightarrow> bptree_create (int order) = Some (bp_empty order)"
  by (simp add: bptree_create_def bp_empty_def)

lemma bp_rows_ok_empty: "bp_rows_ok (bp_empty order)" and bp_contents_empty: "bp_contents (bp_empty order) = []"
  by (auto simp: bp_rows_ok_def bp_empty_def bp_inv_def bp_contents_def leaf_new_def first_addr_def)

lemma bp_lookup_contents: "bp_rows_ok t \<Longrightarrow> bp_lookup t key = map_of (bp_contents t) key"
  by (auto simp: bp_lookup_def bp_rows_ok_def bptree_search_contents Let_def
      split: option.splits dest!: map_of_SomeD)

lemma leaf_insert_set: "set (leaf_insert_sorted es key v) \<subseteq> insert (key, v) (set es)"
  by (auto simp: leaf_insert_sorted_def Let_def dest: in_set_takeD in_set_dropD
      dest!: subsetD [OF set_update_subset_insert] split: if_splits)

lemma bp_rows_ok_insert: "bp_rows_ok t \<Longrightarrow> 0 \<le> v \<Longrightarrow> bp_rows_ok (bptree_insert t key v)"
  using bptree_insert_correct [of t key v] leaf_insert_set [of "bp_contents t" key v]
  by (fastforce simp: bp_rows_ok_def)

interpretation bp: range_index bp_rows_ok "bp_empty 128" bptree_insert bp_lookup
  "\<lambda>key v. 0 \<le> v" bp_contents bptree_range
proof
  show "bp_rows_ok (bp_empty 128)" by (rule bp_rows_ok_empty)
  show "bp_lookup (bp_empty 128) k = None" for k
    by (simp add: bp_lookup_contents bp_rows_ok_empty bp_contents_empty)
  show "bp_rows_ok (bptree_insert t k v)" if "bp_rows_ok t" "0 \<le> v" for t k v
    using that by (rule bp_rows_ok_insert)
  show "bp_lookup (bptree_insert t k v) k' = (if k' = k then Some v else bp_lookup t k')"
    if "bp_rows_ok t" "0 \<le> v" for t k v k'
  proof -
    have "map_of (bp_contents (bptree_insert t k v)) = (map_of (bp_contents t))(k \<mapsto> v)"
      using that by (intro bptree_insert_map) (simp add: bp_rows_ok_def)
    then show ?thesis
      using that by (simp add: bp_lookup_contents bp_rows_ok_insert)
  qed
  show "sorted_wrt (<) (map fst (bp_contents t))" if "bp_rows_ok t" for t
    using that by (simp add: bp_rows_ok_def bp_contents_sorted)
  show "map_of (bp_contents t) k = bp_lookup t k" if "bp_rows_ok t" for t k
    using that by (simp add: bp_lookup_contents)
  show "bptree_range t lo hi n =
      Some (take (nat n) (map snd (filter (\<lambda>e. lo \<le> fst e \<and> fst e \<le> hi) (bp_contents t))))"
    if "bp_rows_ok t" "lo \<le> hi" for t lo hi n
    using that by (simp add: bptree_range_contents bp_rows_ok_def rng_def)
qed

section \<open>Properties\<close>

lemma foldl_insert_correct:
  assumes "bp_inv t"
  shows "bp_inv (foldl (\<lambda>t kv. bptree_insert t (fst kv) (snd kv)) t kvs) \<and>
    map_of (bp_contents (foldl (\<lambda>t kv. bptree_insert t (fst kv) (snd kv)) t kvs))
      = map_of (bp_contents t) ++ last_write kvs"
proof (induction kvs rule: rev_induct)
  case Nil
  then show ?case using assms by simp
next
  case (snoc kv kvs)
  obtain k v where kv: "kv = (k, v)" by (cases kv)
  let ?t = "foldl (\<lambda>t kv. bptree_insert t (fst kv) (snd kv)) t kvs"
  have "map_of (bp_contents (bptree_insert ?t k v)) = (map_of (bp_contents ?t))(k \<mapsto> v)"
    using snoc by (intro bptree_insert_map) simp
  then show ?case
    using snoc bptree_insert_correct [of ?t k v]
    by (simp add: kv map_add_def fun_eq_iff)
qed

text \<open>C13: after any sequence of insertions into a freshly created tree of any legal order,
  \<^verbatim>\<open>bptree_search\<close> returns the row number written last under the key, and \<open>-1\<close> for a key
  that was never inserted.\<close>

theorem bptree_search_last_insert:
  assumes "bptree_create order = Some t"
  shows "bptree_search (foldl (\<lambda>t kv. bptree_insert t (fst kv) (snd kv)) t kvs) key
    = (case last_write kvs key of None \<Rightarrow> -1 | Some row \<Rightarrow> row)"
proof -
  have "bp_inv t" "bp_contents t = []" using bp_inv_create [OF assms] by auto
  with foldl_insert_correct [of t kvs] show ?thesis
    by (simp add: bptree_search_contents)
qed

theorem bptree_search_last_insert_witness:
  "bptree_search (foldl (\<lambda>t kv. bptree_insert t (fst kv) (snd kv)) (bp_empty 3)
     [(5, 0), (2, 1), (9, 2), (7, 3), (2, 4)]) 2 = 4"
  using bptree_search_last_insert [OF bp_empty_create, of 3 "[(5, 0), (2, 1), (9, 2), (7, 3), (2, 4)]" 2]
  by (simp add: last_write_def)

text \<open>C12: insertion keeps the invariant of the tree: keys ordered and separated, all leaves at
  one depth, no node over-full or under-full, and the leaf chain linking exactly the leaves
  from left to right.\<close>

theorem bptree_insert_invariant:
  assumes "bp_inv t"
  shows "bp_inv (bptree_insert t key row_index) \<and>
    map fst (bp_contents (bptree_insert t key row_index))
      = sorted_list_of_set (insert key (set (map fst (bp_contents t))))"
proof -
  let ?c = "bp_contents (bptree_insert t key row_index)"
  have c: "bp_inv (bptree_insert t key row_index)"
    "?c = leaf_insert_sorted (bp_contents t) key row_index"
    using bptree_insert_correct [OF assms] by auto
  have "set (map fst ?c) = insert key (set (map fst (bp_contents t)))"
    using leaf_insert_keys [OF bp_contents_sorted [OF assms]] by (simp add: c(2))
  then show ?thesis
    using bp_contents_sorted [OF c(1)] c(1)
    by (metis List.finite_set sorted_list_of_set.idem_if_sorted_distinct strict_sorted_iff)
qed

theorem bptree_insert_invariant_witness:
  "bp_inv (bptree_insert (bp_empty 3) 7 0) \<and>
    map fst (bp_contents (bptree_insert (bp_empty 3) 7 0)) = [7]"
  using bptree_insert_invariant [of "bp_empty 3" 7 0] bp_rows_ok_empty [of 3]
  by (simp add: bp_rows_ok_def bp_contents_empty)

text \<open>C14: \<^verbatim>\<open>bptree_range\<close> terminates, follows no dangling pointer, and fills the buffer with the
  row numbers of the keys in the interval, in key order, up to the buffer's size.\<close>

theorem bptree_range_complete:
  assumes "bp_inv t" and "lo \<le> hi"
  shows "bptree_range t lo hi max_out =
    Some (take (nat max_out)
      (map snd (filter (\<lambda>e. lo \<le> fst e \<and> fst e \<le> hi) (bp_contents t))))"
  using assms by (simp add: bptree_range_contents rng_def)

theorem bptree_range_complete_witness:
  "bptree_range (bptree_insert (bp_empty 3) 7 4) 1 9 16 = Some [4]"
proof -
  have "bp_inv (bp_empty 3)" using bp_rows_ok_empty [of 3] by (simp add: bp_rows_ok_def)
  then have i: "bp_inv (bptree_insert (bp_empty 3) 7 4) \<and>
      bp_contents (bptree_insert (bp_empty 3) 7 4) = [(7, 4)]"
    using bptree_insert_correct [of "bp_empty 3" 7 4]
    by (simp add: bp_contents_empty leaf_insert_empty)
  show ?thesis
    using bptree_range_complete [of "bptree_insert (bp_empty 3) 7 4" 1 9 16] i by simp
qed

lemma chain_child_wf: "chain P lo hi ks cs \<Longrightarrow> c \<in> set cs \<Longrightarrow> \<exists>l h. P l h c"
  by (induction P lo hi ks cs rule: chain.induct) auto

lemma occupied_size:
  "shape (order div 2) mi order h n \<Longrightarrow> wf_between lo hi n \<Longrightarrow>
     (\<forall>ks cs. n = Internal ks cs \<longrightarrow> order - order div 2 - 1 \<le> mi) \<Longrightarrow> 2 \<le> order \<Longrightarrow>
     (order div 2) * (order - order div 2) ^ h \<le> length (contents n)"
proof (induction n arbitrary: mi h lo hi)
  case (Internal ks cs)
  obtain h' where h: "h = Suc h'" using Internal.prems(1) by (cases h) auto
  let ?b = "(order div 2) * (order - order div 2) ^ h'"
  have ch: "chain wf_between lo hi ks cs" using Internal.prems(2) by simp
  have each: "?b \<le> length (contents c)" if c: "c \<in> set cs" for c
  proof -
    obtain l u where wf: "wf_between l u c" using chain_child_wf [OF ch c] by blast
    show ?thesis
      by (rule Internal.IH [OF c _ wf _ Internal.prems(4)])
        (use Internal.prems(1) c h in auto)
  qed
  have "length cs * ?b \<le> length (concat (map contents cs))"
    using each by (induction cs) (auto intro: add_mono)
  moreover have "order - order div 2 \<le> length cs"
    using Internal.prems(1,3) chain_length [OF ch] by auto
  ultimately have "(order - order div 2) * ?b \<le> length (concat (map contents cs))"
    by (meson le_trans mult_le_mono1)
  then show ?case
    by (simp add: h mult.left_commute)
qed simp

lemma height_entries:
  assumes "bp_inv t" and "height (bp_root t) = Suc h"
  shows "2 * ((bp_order t div 2) * (bp_order t - bp_order t div 2) ^ h) \<le> length (bp_contents t)"
proof -
  obtain ks cs where n: "bp_root t = Internal ks cs"
    using assms(2) by (cases "bp_root t") auto
  let ?o = "bp_order t"
  let ?b = "(?o div 2) * (?o - ?o div 2) ^ h"
  have ch: "chain wf_between None None ks cs" and o: "3 \<le> ?o" and ks: "1 \<le> length ks"
    and sub: "\<forall>c \<in> set cs. occupied ?o h c"
    using assms by (auto simp: bp_inv_def n)
  have each: "?b \<le> length (contents c)" if "c \<in> set cs" for c
    using occupied_size [of ?o "?o - ?o div 2 - 1" h c] sub chain_child_wf [OF ch that] o that by auto
  have "length cs * ?b \<le> length (concat (map contents cs))"
    using each by (induction cs) (auto intro: add_mono)
  moreover have "2 \<le> length cs" using ks chain_length [OF ch] by simp
  ultimately show ?thesis
    by (simp add: bp_contents_def n) (meson le_trans mult_le_mono1)
qed

lemma search_path_height:
  "wf_between lo hi n \<Longrightarrow> lo_ok lo key \<Longrightarrow> hi_ok hi key \<Longrightarrow> shape ml mi order h n \<Longrightarrow>
     length (search_path n key) = Suc h \<and>
     last (search_path n key) = (case find_leaf n key of (a, es, nx) \<Rightarrow> Leaf a es nx)"
proof (induction n arbitrary: lo hi ml mi h)
  case (Internal ks cs)
  obtain ks1 ks2 cs1 c cs2 where d: "ks = ks1 @ ks2" "cs = cs1 @ c # cs2"
      "length cs1 = length ks1" "length cs2 = length ks2" "internal_child_idx ks key = length cs1"
    and c: "wf_between (last_b lo ks1) (first_b ks2 hi) c"
      "lo_ok (last_b lo ks1) key" "hi_ok (first_b ks2 hi) key"
    by (rule node_step [OF Internal.prems(1-3)])
  obtain h' where h: "h = Suc h'" using Internal.prems(4) by (cases h) auto
  have "occupied order h' c" using Internal.prems(4) by (simp add: h d(2))
  then have "length (search_path c key) = Suc h' \<and>
      last (search_path c key) = (case find_leaf c key of (a, es, nx) \<Rightarrow> Leaf a es nx)"
    using Internal.IH [OF _ c] by (simp add: d(2))
  moreover from this have "search_path c key \<noteq> []" by auto
  ultimately show ?case using d(5) by (simp add: d(2) h Let_def)
qed simp

lemma bptree_insert_order: "bp_order (bptree_insert t key v) = bp_order t"
  by (simp add: bptree_insert_def split: prod.split option.split)

lemma foldl_insert_order: "bp_order (foldl (\<lambda>t kv. bptree_insert t (fst kv) (snd kv)) t kvs) = bp_order t"
  by (induction kvs arbitrary: t) (simp_all add: bptree_insert_order)

lemma dom_last_write: "dom (last_write kvs) = fst ` set kvs"
  by (simp add: last_write_def dom_map_of_conv_image_fst)

lemma contents_card: "bp_inv t \<Longrightarrow> length (bp_contents t) = card (dom (map_of (bp_contents t)))"
  using bp_contents_sorted [of t]
  by (simp add: dom_map_of_conv_image_fst strict_sorted_iff) (metis card_distinct distinct_card length_map list.set_map)

text \<open>C40: the tree stays shallow. After any sequence of insertions into a fresh tree a search visits
  the root and then one node a level, down to the leaf it scans, and when these are \<open>h + 2\<close> nodes
  at least \<open>2 * (order / 2) * (order - order / 2) ^ h\<close> different keys were inserted: the number of
  nodes visited is logarithmic in the number of keys, for every key and every order of the
  insertions.\<close>

theorem bptree_height_bound:
  assumes "bptree_create order = Some t0"
  shows "let t = foldl (\<lambda>t kv. bptree_insert t (fst kv) (snd kv)) t0 kvs;
             path = search_path (bp_root t) key; half = nat order div 2
         in last path = (case find_leaf (bp_root t) key of (a, es, nx) \<Rightarrow> Leaf a es nx) \<and>
            (case length path - 1 of
               0 \<Rightarrow> True
             | Suc h \<Rightarrow> 2 * (half * (nat order - half) ^ h) \<le> card (fst ` set kvs))"
proof -
  let ?t = "foldl (\<lambda>t kv. bptree_insert t (fst kv) (snd kv)) t0 kvs"
  have t0: "bp_inv t0" "bp_contents t0 = []" "bp_order t0 = nat order"
    using bp_inv_create [OF assms] assms by (auto simp: bptree_create_def split: if_splits)
  then have inv: "bp_inv ?t" and "map_of (bp_contents ?t) = last_write kvs" and o: "bp_order ?t = nat order"
    using foldl_insert_correct [OF t0(1), of kvs] by (simp_all add: foldl_insert_order)
  then have card: "length (bp_contents ?t) = card (fst ` set kvs)"
    using contents_card [OF inv] by (simp add: dom_last_write)
  have wf: "wf_between None None (bp_root ?t)"
    and sh: "shape 0 1 (bp_order ?t) (height (bp_root ?t)) (bp_root ?t)"
    using inv by (simp_all add: bp_inv_def)
  have p: "length (search_path (bp_root ?t) key) = Suc (height (bp_root ?t)) \<and>
      last (search_path (bp_root ?t) key) = (case find_leaf (bp_root ?t) key of (a, es, nx) \<Rightarrow> Leaf a es nx)"
    by (rule search_path_height [OF wf _ _ sh]) (simp_all add: lo_ok_def hi_ok_def)
  then show ?thesis
    using height_entries [OF inv] by (simp add: Let_def card o split: nat.split)
qed

theorem bptree_height_bound_witness:
  "length (search_path (bp_root (foldl (\<lambda>t kv. bptree_insert t (fst kv) (snd kv)) (bp_empty 3)
     [(5, 0), (2, 1), (9, 2), (7, 3), (2, 4)])) 7) = 2 \<and>
   2 * ((3 div 2) * (3 - 3 div 2) ^ 0) \<le> card (fst ` set [(5 :: int, 0 :: int), (2, 1), (9, 2), (7, 3), (2, 4)])"
proof -
  have "length (search_path (bp_root (foldl (\<lambda>t kv. bptree_insert t (fst kv) (snd kv)) (bp_empty 3)
     [(5, 0), (2, 1), (9, 2), (7, 3), (2, 4)])) 7) = 2" by code_simp
  then show ?thesis
    using bptree_height_bound [OF bp_empty_create, of 3 "[(5, 0), (2, 1), (9, 2), (7, 3), (2, 4)]" 7]
    by (simp only: Let_def) (simp del: foldl_Cons)
qed

end
