(* ===== verification/Index_Registry.thy ===== *)
theory Index_Registry
  imports BPTree
begin

text \<open>
  The table-name registry of B+ trees of \<^verbatim>\<open>src/index_registry.c\<close>. The entry array is a list
  and \<^verbatim>\<open>g_entry_count\<close> its length; a \<^verbatim>\<open>BPTree *\<close> handed out by the registry is the slot it
  points into, so that an insertion through the pointer updates the registry, as in the code.
\<close>

section \<open>The code\<close>

type_synonym registry = "(string \<times> bptree) list"

definition registry_max_tables :: nat where "registry_max_tables = 64"
definition registry_name_max :: nat where "registry_name_max = 64"

definition find_index :: "registry \<Rightarrow> string \<Rightarrow> nat option" where
  "find_index reg table = find_idx (\<lambda>e. fst e = table) reg"

definition index_registry_get :: "registry \<Rightarrow> string \<Rightarrow> nat option" where
  "index_registry_get reg table = find_index reg table"

definition index_registry_get_or_create :: "registry \<Rightarrow> string \<Rightarrow> int \<Rightarrow> nat option \<times> registry" where
  "index_registry_get_or_create reg table order =
     (case find_index reg table of
        Some i \<Rightarrow> (Some i, reg)
      | None \<Rightarrow>
          if registry_max_tables \<le> length reg then (None, reg)
          else if registry_name_max < length table + 1 then (None, reg)
          else (case bptree_create order of
                  None \<Rightarrow> (None, reg)
                | Some tree \<Rightarrow> (Some (length reg), reg @ [(table, tree)])))"

definition index_registry_destroy_all :: "registry \<Rightarrow> registry" where
  "index_registry_destroy_all reg = []"

text \<open>Dereferencing a tree pointer, and inserting through it.\<close>

definition tree_at :: "registry \<Rightarrow> nat \<Rightarrow> bptree" where
  "tree_at reg p = snd (reg ! p)"

definition tree_insert :: "registry \<Rightarrow> nat \<Rightarrow> int \<Rightarrow> int \<Rightarrow> registry" where
  "tree_insert reg p key row = reg[p := (fst (reg ! p), bptree_insert (tree_at reg p) key row)]"

section \<open>Lemmas\<close>

definition registry_inv :: "registry \<Rightarrow> bool" where
  "registry_inv reg \<longleftrightarrow> distinct (map fst reg) \<and> length reg \<le> registry_max_tables \<and>
     (\<forall>e \<in> set reg. length (fst e) < registry_name_max \<and> bp_rows_ok (snd e))"

text \<open>The row a table's index gives for an id.\<close>

definition registry_lookup :: "registry \<Rightarrow> string \<Rightarrow> int \<Rightarrow> int option" where
  "registry_lookup reg table key =
     (case index_registry_get reg table of None \<Rightarrow> None | Some p \<Rightarrow> bp_lookup (tree_at reg p) key)"

lemma find_index_Some: "find_index reg table = Some p \<Longrightarrow> p < length reg \<and> fst (reg ! p) = table"
  unfolding find_index_def by (drule find_idx_Some) simp

lemma find_index_None: "find_index reg table = None \<longleftrightarrow> table \<notin> fst ` set reg"
  by (auto simp: find_index_def find_idx_None)

lemma find_index_map: "find_index reg table = find_idx (\<lambda>n. n = table) (map fst reg)"
  by (simp add: find_index_def, induction reg) auto

lemma find_index_update [simp]: "find_index (reg[p := (fst (reg ! p), t)]) table = find_index reg table"
proof (cases "p < length reg")
  case True
  then have "map fst (reg[p := (fst (reg ! p), t)]) = map fst reg"
    by (simp add: map_update list_update_same_conv)
  then show ?thesis by (simp add: find_index_map)
qed (simp add: list_update_beyond)

lemma registry_inv_empty [simp]: "registry_inv []"
  by (simp add: registry_inv_def)

lemma registry_inv_create:
  assumes "registry_inv reg"
  shows "registry_inv (snd (index_registry_get_or_create reg table 128))"
proof -
  have "bptree_create 128 = Some (bp_empty 128)"
    using bp_empty_create [of 128] by simp
  then show ?thesis
    using assms by (auto simp: index_registry_get_or_create_def registry_inv_def
        registry_max_tables_def registry_name_max_def find_index_None bp_rows_ok_empty
        split: option.splits)
qed

lemma get_or_create_slot:
  assumes "index_registry_get_or_create reg table 128 = (Some p, reg')"
  shows "index_registry_get reg' table = Some p \<and> p < length reg' \<and>
    registry_lookup reg' = registry_lookup reg \<and>
    (index_registry_get reg table = None \<longrightarrow> tree_at reg' p = bp_empty 128)"
proof (cases "find_index reg table")
  case (Some i)
  then show ?thesis
    using assms find_index_Some [OF Some]
    by (auto simp: index_registry_get_or_create_def index_registry_get_def)
next
  case None
  have create: "bptree_create 128 = Some (bp_empty 128)"
    using bp_empty_create [of 128] by simp
  have reg': "reg' = reg @ [(table, bp_empty 128)]" "p = length reg"
    using assms None create by (auto simp: index_registry_get_or_create_def split: if_splits)
  have f: "find_index reg' t = (if t = table then Some p else find_index reg t)" for t
    using None by (auto simp: reg' find_index_def find_idx_append split: option.splits)
  have "registry_lookup reg' t k = registry_lookup reg t k" for t k
    using None by (cases "t = table")
      (auto simp: registry_lookup_def index_registry_get_def f [unfolded reg'] tree_at_def reg' nth_append
        bp_lookup_contents bp_rows_ok_empty bp_contents_empty
        split: option.splits dest: find_index_Some)
  then show ?thesis
    by (auto simp: index_registry_get_def f [unfolded reg'] reg' tree_at_def fun_eq_iff)
qed

lemma registry_inv_tree_insert:
  assumes "registry_inv reg" "p < length reg" "0 \<le> row"
  shows "registry_inv (tree_insert reg p key row)"
proof -
  have "map fst (tree_insert reg p key row) = map fst reg"
    using assms(2) by (simp add: tree_insert_def map_update list_update_same_conv)
  moreover have "bp_rows_ok (snd (reg ! p))" "length (fst (reg ! p)) < registry_name_max"
    using assms(1,2) by (auto simp: registry_inv_def)
  ultimately show ?thesis
    using assms by (auto simp: registry_inv_def tree_insert_def tree_at_def bp_rows_ok_insert
        dest!: subsetD [OF set_update_subset_insert])
qed

lemma tree_insert_lookup:
  assumes "registry_inv reg" "index_registry_get reg table = Some p" "0 \<le> row"
  shows "registry_lookup (tree_insert reg p key row) t k
    = (if t = table \<and> k = key then Some row else registry_lookup reg t k)"
proof -
  have p: "p < length reg" "fst (reg ! p) = table"
    using assms(2) find_index_Some by (auto simp: index_registry_get_def)
  have ok: "bp_rows_ok (tree_at reg p)"
    using assms(1) p by (auto simp: registry_inv_def tree_at_def)
  have other: "q \<noteq> p" if "find_index reg t = Some q" "t \<noteq> table" for q
    using that p find_index_Some by auto
  show ?thesis
    using assms p other
    by (cases "t = table")
      (auto simp: registry_lookup_def index_registry_get_def tree_insert_def tree_at_def
        bp.lookup_insert [OF ok [unfolded tree_at_def]] split: option.splits)
qed

section \<open>Properties\<close>

text \<open>Getting or creating a table's tree keeps the registry's invariant, and inserting
  through the pointer makes the id visible under that table and changes no other lookup.\<close>

theorem registry_insert_correct:
  assumes "registry_inv reg" and "0 \<le> row"
    and "index_registry_get_or_create reg table 128 = (Some p, reg')"
  shows "registry_inv (tree_insert reg' p key row) \<and>
    registry_lookup (tree_insert reg' p key row) t k
      = (if t = table \<and> k = key then Some row else registry_lookup reg t k)"
proof -
  have inv: "registry_inv reg'"
    using registry_inv_create [OF assms(1), of table] assms(3) by simp
  have slot: "index_registry_get reg' table = Some p" "p < length reg'"
    "registry_lookup reg' = registry_lookup reg"
    using get_or_create_slot [OF assms(3)] by auto
  show ?thesis
    using registry_inv_tree_insert [OF inv slot(2) assms(2)]
      tree_insert_lookup [OF inv slot(1) assms(2)] slot(3) by simp
qed

theorem registry_insert_correct_witness:
  "registry_lookup (tree_insert [(''t'', bp_empty 128)] 0 7 3) ''t'' 7 = Some 3"
  using registry_insert_correct [of "[]" 3 "''t''" 0 "[(''t'', bp_empty 128)]" 7 "''t''" 7]
    bp_empty_create [of 128]
  by (simp add: index_registry_get_or_create_def find_index_def registry_max_tables_def
      registry_name_max_def)

end
