(* ===== verification/Trie_Index.thy ===== *)
theory Trie_Index
  imports BPTree
begin

text \<open>
  The prefix index of \<^verbatim>\<open>src/trie.c\<close>: a node has 26 child slots and a row number, \<open>-1\<close> when
  no word ends there. The functions that walk and modify the nodes in place return the
  updated trie. After the definitions: lookup after insertion (the \<open>kv_index\<close> interface) and
  the functional correctness of the bounded prefix search.
\<close>

section \<open>The code\<close>

datatype trie_node = TNode "trie_node option list" int

definition trie_node_create :: trie_node where
  "trie_node_create = TNode (replicate 26 None) (-1)"

definition trie_create :: trie_node where
  "trie_create = trie_node_create"

definition char_index :: "char \<Rightarrow> nat" where
  "char_index c = code_of c - 97"

definition word_is_valid :: "string \<Rightarrow> bool" where
  "word_is_valid word \<longleftrightarrow> word \<noteq> [] \<and> (\<forall>c \<in> set word. is_lower c)"

fun trie_insert_at :: "trie_node \<Rightarrow> string \<Rightarrow> int \<Rightarrow> trie_node" where
  "trie_insert_at (TNode ch r) [] row = TNode ch row"
| "trie_insert_at (TNode ch r) (c # cs) row =
     (let idx = char_index c;
          child = (case ch ! idx of None \<Rightarrow> trie_node_create | Some t \<Rightarrow> t)
      in TNode (ch[idx := Some (trie_insert_at child cs row)]) r)"

definition trie_insert :: "trie_node \<Rightarrow> string \<Rightarrow> int \<Rightarrow> int \<times> trie_node" where
  "trie_insert t word row =
     (if row < 0 \<or> \<not> word_is_valid word then (-1, t) else (0, trie_insert_at t word row))"

text \<open>The walk that exact and prefix search share: the node a word leads to.\<close>

fun trie_walk :: "trie_node \<Rightarrow> string \<Rightarrow> trie_node option" where
  "trie_walk t [] = Some t"
| "trie_walk (TNode ch r) (c # cs) =
     (case ch ! char_index c of None \<Rightarrow> None | Some t \<Rightarrow> trie_walk t cs)"

definition trie_search_exact :: "trie_node \<Rightarrow> string \<Rightarrow> int" where
  "trie_search_exact t word =
     (if \<not> word_is_valid word then -1
      else case trie_walk t word of None \<Rightarrow> -1 | Some (TNode ch r) \<Rightarrow> r)"

text \<open>
  \<^verbatim>\<open>collect_prefix_rows\<close>: the rows written so far and whether the buffer of \<open>m\<close> rows is full.
\<close>

fun collect_prefix_rows :: "nat \<Rightarrow> trie_node \<Rightarrow> int list \<Rightarrow> int list \<times> bool"
  and collect_children :: "nat \<Rightarrow> trie_node option list \<Rightarrow> int list \<Rightarrow> int list \<times> bool" where
  "collect_prefix_rows m (TNode ch r) out =
     (if m \<le> length out then (out, True)
      else if 0 \<le> r then
        (let out' = out @ [r]
         in if m \<le> length out' then (out', True) else collect_children m ch out')
      else collect_children m ch out)"
| "collect_children m [] out = (out, False)"
| "collect_children m (None # ch) out = collect_children m ch out"
| "collect_children m (Some t # ch) out =
     (case collect_prefix_rows m t out of
        (out', full) \<Rightarrow> if full then (out', True) else collect_children m ch out')"

definition trie_search_prefix :: "trie_node \<Rightarrow> string \<Rightarrow> int \<Rightarrow> int list" where
  "trie_search_prefix t prefix max_out =
     (if max_out \<le> 0 \<or> \<not> word_is_valid prefix then []
      else case trie_walk t prefix of
             None \<Rightarrow> []
           | Some n \<Rightarrow> fst (collect_prefix_rows (nat max_out) n []))"

section \<open>Lookup\<close>

fun trie_wf :: "trie_node \<Rightarrow> bool" where
  "trie_wf (TNode ch r) \<longleftrightarrow> length ch = 26 \<and> -1 \<le> r \<and> (\<forall>t \<in> set ch. case t of None \<Rightarrow> True | Some n \<Rightarrow> trie_wf n)"

text \<open>The row at the node a word leads to, if it is set.\<close>

fun trie_row :: "trie_node \<Rightarrow> string \<Rightarrow> int option" where
  "trie_row (TNode ch r) [] = (if 0 \<le> r then Some r else None)"
| "trie_row (TNode ch r) (c # cs) =
     (case ch ! char_index c of None \<Rightarrow> None | Some t \<Rightarrow> trie_row t cs)"

lemma trie_row_walk: "trie_row t w = (case trie_walk t w of None \<Rightarrow> None
    | Some (TNode ch r) \<Rightarrow> if 0 \<le> r then Some r else None)"
  by (induction t w rule: trie_row.induct) (auto split: option.splits trie_node.splits)

lemma trie_row_append: "trie_row t (p @ w) = (case trie_walk t p of None \<Rightarrow> None | Some n \<Rightarrow> trie_row n w)"
  by (induction t p rule: trie_walk.induct) (auto split: option.splits)

lemma trie_node_create_wf [simp]: "trie_wf trie_node_create"
  by (simp add: trie_node_create_def)

lemma char_index_less: "is_lower c \<Longrightarrow> char_index c < 26"
  by (auto simp: is_lower_def char_index_def)

lemma lower_code: "is_lower c \<Longrightarrow> char_of (97 + char_index c) = c"
  by (simp add: is_lower_def char_index_def)

lemma char_index_inject: "is_lower c \<Longrightarrow> is_lower d \<Longrightarrow> char_index c = char_index d \<longleftrightarrow> c = d"
  using lower_code by metis

lemma trie_node_create_row [simp]: "\<forall>c \<in> set w. is_lower c \<Longrightarrow> trie_row trie_node_create w = None"
  by (cases w) (auto simp: trie_node_create_def char_index_less split: option.splits)

lemma trie_insert_at_wf:
  "trie_wf t \<Longrightarrow> \<forall>c \<in> set w. is_lower c \<Longrightarrow> 0 \<le> row \<Longrightarrow> trie_wf (trie_insert_at t w row)"
proof (induction t w row rule: trie_insert_at.induct)
  case (2 ch r c cs row)
  let ?child = "case ch ! char_index c of None \<Rightarrow> trie_node_create | Some t \<Rightarrow> t"
  have i: "char_index c < length ch" using "2.prems" char_index_less by simp
  have "trie_wf ?child"
    using "2.prems"(1) nth_mem [OF i] by (auto split: option.splits)
  then have "trie_wf (trie_insert_at ?child cs row)"
    using "2.IH" "2.prems" by simp
  then show ?case
    using "2.prems"(1) by (auto simp: Let_def split: option.splits dest!: subsetD [OF set_update_subset_insert])
qed simp

lemma trie_insert_at_row:
  "trie_wf t \<Longrightarrow> \<forall>c \<in> set w. is_lower c \<Longrightarrow> \<forall>c \<in> set w'. is_lower c \<Longrightarrow> 0 \<le> row \<Longrightarrow>
     trie_row (trie_insert_at t w row) w' = (if w' = w then Some row else trie_row t w')"
proof (induction t w row arbitrary: w' rule: trie_insert_at.induct)
  case (1 ch r row)
  then show ?case by (cases w') auto
next
  case (2 ch r c cs row)
  let ?child = "case ch ! char_index c of None \<Rightarrow> trie_node_create | Some t \<Rightarrow> t"
  have i: "char_index c < length ch" using "2.prems" char_index_less by simp
  have wf: "trie_wf ?child"
    using "2.prems"(1) nth_mem [OF i] by (auto split: option.splits)
  show ?case
  proof (cases w')
    case Nil
    then show ?thesis by (simp add: Let_def)
  next
    case (Cons d ds)
    show ?thesis
    proof (cases "d = c")
      case True
      have "trie_row (trie_insert_at ?child cs row) ds
          = (if ds = cs then Some row else trie_row ?child ds)"
        using "2.IH" wf "2.prems" Cons by simp
      then show ?thesis
        using "2.prems" i by (auto simp: Cons True Let_def split: option.splits)
    next
      case False
      then have "char_index d \<noteq> char_index c"
        using "2.prems" Cons char_index_inject by simp
      then show ?thesis by (simp add: Cons False Let_def)
    qed
  qed
qed

definition trie_lookup :: "trie_node \<Rightarrow> string \<Rightarrow> int option" where
  "trie_lookup t w = (let r = trie_search_exact t w in if r < 0 then None else Some r)"

lemma trie_lookup_row: "trie_lookup t w = (if word_is_valid w then trie_row t w else None)"
  by (auto simp: trie_lookup_def trie_search_exact_def trie_row_walk split: option.splits trie_node.splits)

interpretation tr: kv_index trie_wf trie_create "\<lambda>t w r. snd (trie_insert t w r)" trie_lookup
  "\<lambda>w r. word_is_valid w \<and> 0 \<le> r"
proof
  show "trie_wf trie_create" by (simp add: trie_create_def)
  show "trie_lookup trie_create k = None" for k
    by (simp add: trie_lookup_row trie_create_def word_is_valid_def)
  show "trie_wf (snd (trie_insert t k v))" if "trie_wf t" "word_is_valid k \<and> 0 \<le> v" for t k v
    using that by (simp add: trie_insert_def trie_insert_at_wf word_is_valid_def)
  show "trie_lookup (snd (trie_insert t k v)) k' = (if k' = k then Some v else trie_lookup t k')"
    if "trie_wf t" "word_is_valid k \<and> 0 \<le> v" for t k v k'
    using that by (auto simp: trie_insert_def trie_lookup_row trie_insert_at_row word_is_valid_def)
qed

section \<open>Prefix search\<close>

text \<open>All words of a trie with their rows, in the order the collection visits them.\<close>

fun trie_items :: "trie_node \<Rightarrow> (string \<times> int) list"
  and children_items :: "nat \<Rightarrow> trie_node option list \<Rightarrow> (string \<times> int) list" where
  "trie_items (TNode ch r) = (if 0 \<le> r then [([], r)] else []) @ children_items 0 ch"
| "children_items i [] = []"
| "children_items i (None # ch) = children_items (Suc i) ch"
| "children_items i (Some t # ch) =
     map (\<lambda>(w, r). (char_of (97 + i) # w, r)) (trie_items t) @ children_items (Suc i) ch"

fun trie_rows :: "trie_node \<Rightarrow> int list"
  and children_rows :: "trie_node option list \<Rightarrow> int list" where
  "trie_rows (TNode ch r) = (if 0 \<le> r then [r] else []) @ children_rows ch"
| "children_rows [] = []"
| "children_rows (None # ch) = children_rows ch"
| "children_rows (Some t # ch) = trie_rows t @ children_rows ch"

lemma map_snd_Cons: "map snd (map (\<lambda>(w, r). (c # w, r)) xs) = map snd xs"
  by (induction xs) auto

lemma trie_rows_items:
  "trie_rows t = map snd (trie_items t)"
  "children_rows ch = map snd (children_items i ch)"
  by (induction t and i ch rule: trie_items_children_items.induct) (auto simp: map_snd_Cons simp del: map_map)

lemma collect_correct:
  "collect_prefix_rows m t out
     = (if m \<le> length out then (out, True)
        else (take m (out @ trie_rows t), m \<le> length (out @ trie_rows t)))"
  "length out < m \<Longrightarrow> collect_children m ch out
     = (take m (out @ children_rows ch), m \<le> length (out @ children_rows ch))"
proof (induction m t out and m ch out rule: collect_prefix_rows_collect_children.induct)
  case (1 m ch r out)
  show ?case
  proof (cases "0 \<le> r \<and> m = Suc (length out)")
    case True
    then show ?thesis by simp
  next
    case False
    then show ?thesis using 1 by (auto simp: Let_def take_Cons')
  qed
next
  case (4 m t ch out)
  then show ?case by (auto simp: not_le)
qed simp_all

lemma prefix_search_items:
  assumes "word_is_valid p" "0 < max_out"
  shows "trie_search_prefix t p max_out
    = take (nat max_out) (case trie_walk t p of None \<Rightarrow> [] | Some n \<Rightarrow> map snd (trie_items n))"
  using assms by (auto simp: trie_search_prefix_def collect_correct trie_rows_items split: option.splits)

text \<open>The items of a trie are its words, each once, in lexicographic order.\<close>

definition lex_less :: "string \<Rightarrow> string \<Rightarrow> bool" where
  "lex_less v w \<longleftrightarrow> (v, w) \<in> lexord {(a, b). code_of a < code_of b}"

lemma lex_less_simps [simp]:
  "lex_less [] (b # w)" "\<not> lex_less w []"
  "lex_less (a # v) (b # w) \<longleftrightarrow> code_of a < code_of b \<or> a = b \<and> lex_less v w"
  by (auto simp: lex_less_def)

lemma char_of_lower: "i < 26 \<Longrightarrow> is_lower (char_of (97 + i :: nat)) \<and> code_of (char_of (97 + i) :: char) = 97 + i"
  by (simp add: is_lower_def of_char_of)

lemma children_items_heads:
  "(w, r) \<in> set (children_items i ch) \<Longrightarrow> i + length ch \<le> 26 \<Longrightarrow>
     \<exists>c v. w = c # v \<and> 97 + i \<le> code_of c \<and> is_lower c"
proof (induction i ch rule: trie_items_children_items.induct(2) [where P = "\<lambda>_. True", rotated -1])
qed (auto simp: char_of_lower intro: Suc_leD)

definition child_item :: "nat \<Rightarrow> trie_node option list \<Rightarrow> string \<Rightarrow> int \<Rightarrow> bool" where
  "child_item i ch w r \<longleftrightarrow> (\<exists>c v t. w = c # v \<and> is_lower c \<and> (\<forall>d \<in> set v. is_lower d) \<and>
     i \<le> char_index c \<and> char_index c < i + length ch \<and> ch ! (char_index c - i) = Some t \<and>
     trie_row t v = Some r)"

lemma char_index_of: "j < 26 \<Longrightarrow> char_index (char_of (97 + j)) = j"
  by (simp add: char_index_def char_of_lower)

lemma child_item_Cons:
  assumes "i < 26"
  shows "child_item i (x # ch) w r \<longleftrightarrow>
    (\<exists>t v. x = Some t \<and> w = char_of (97 + i) # v \<and> (\<forall>d \<in> set v. is_lower d) \<and> trie_row t v = Some r)
    \<or> child_item (Suc i) ch w r"
proof
  assume "child_item i (x # ch) w r"
  then obtain c v t where w: "w = c # v" "is_lower c" "\<forall>d \<in> set v. is_lower d"
    and i: "i \<le> char_index c" "char_index c < i + length (x # ch)"
    and t: "(x # ch) ! (char_index c - i) = Some t" "trie_row t v = Some r"
    by (auto simp: child_item_def)
  show "(\<exists>t v. x = Some t \<and> w = char_of (97 + i) # v \<and> (\<forall>d \<in> set v. is_lower d) \<and> trie_row t v = Some r)
    \<or> child_item (Suc i) ch w r"
  proof (cases "char_index c = i")
    case True
    then show ?thesis using w t lower_code [OF w(2)] by auto
  next
    case False
    then have "char_index c - i = Suc (char_index c - Suc i)" using i by simp
    then show ?thesis using w i t False unfolding child_item_def by auto
  qed
next
  assume "(\<exists>t v. x = Some t \<and> w = char_of (97 + i) # v \<and> (\<forall>d \<in> set v. is_lower d) \<and> trie_row t v = Some r)
    \<or> child_item (Suc i) ch w r"
  then show "child_item i (x # ch) w r"
  proof
    assume "\<exists>t v. x = Some t \<and> w = char_of (97 + i) # v \<and> (\<forall>d \<in> set v. is_lower d) \<and> trie_row t v = Some r"
    then show ?thesis
      using assms char_of_lower [OF assms] char_index_of [OF assms] unfolding child_item_def by auto
  next
    assume "child_item (Suc i) ch w r"
    then obtain c v t where w: "w = c # v" "is_lower c" "\<forall>d \<in> set v. is_lower d"
      and i: "Suc i \<le> char_index c" "char_index c < Suc i + length ch"
      and t: "ch ! (char_index c - Suc i) = Some t" "trie_row t v = Some r"
      by (auto simp: child_item_def)
    then have "char_index c - i = Suc (char_index c - Suc i)" by simp
    then have "(x # ch) ! (char_index c - i) = Some t" using t by simp
    then show ?thesis
      using w i t(2) unfolding child_item_def by (intro exI [of _ c] exI [of _ v] exI [of _ t]) simp
  qed
qed

lemma child_item_head: "child_item i ch w r \<Longrightarrow> \<exists>c v. w = c # v \<and> 97 + i \<le> code_of c"
  by (auto simp: child_item_def char_index_def is_lower_def)

lemma items_correct:
  "trie_wf t \<Longrightarrow> sorted_wrt lex_less (map fst (trie_items t)) \<and>
     (\<forall>w r. (w, r) \<in> set (trie_items t) \<longleftrightarrow> (\<forall>c \<in> set w. is_lower c) \<and> trie_row t w = Some r)"
  "i + length ch \<le> 26 \<Longrightarrow> \<forall>t \<in> set ch. case t of None \<Rightarrow> True | Some n \<Rightarrow> trie_wf n \<Longrightarrow>
     sorted_wrt lex_less (map fst (children_items i ch)) \<and>
     (\<forall>w r. (w, r) \<in> set (children_items i ch) \<longleftrightarrow> child_item i ch w r)"
proof (induction t and i ch rule: trie_items_children_items.induct)
  case (1 ch r)
  then have IH: "sorted_wrt lex_less (map fst (children_items 0 ch))"
    "(w, q) \<in> set (children_items 0 ch) \<longleftrightarrow> child_item 0 ch w q" for w q by auto
  have len: "length ch = 26" using "1.prems" by simp
  have "\<exists>c v. w = c # v" if "(w, q) \<in> set (children_items 0 ch)" for w q
    using child_item_head that IH(2) by blast
  then have "sorted_wrt lex_less (map fst (trie_items (TNode ch r)))"
    using IH(1) by fastforce
  moreover have "(w, q) \<in> set (trie_items (TNode ch r)) \<longleftrightarrow>
      (\<forall>c \<in> set w. is_lower c) \<and> trie_row (TNode ch r) w = Some q" for w q
    using IH(2) [of w q] len char_index_less
    by (cases w) (auto simp: child_item_def split: option.splits)
  ultimately show ?case by blast
next
  case (2 i)
  then show ?case by (auto simp: child_item_def)
next
  case (3 i ch)
  then show ?case by (auto simp: child_item_Cons)
next
  case (4 i t ch)
  let ?f = "\<lambda>(w, r). (char_of (97 + i) # w, r)"
  have i: "i < 26" using "4.prems" by simp
  have IHt: "sorted_wrt lex_less (map fst (trie_items t))"
    "(w, q) \<in> set (trie_items t) \<longleftrightarrow> (\<forall>c \<in> set w. is_lower c) \<and> trie_row t w = Some q" for w q
    using 4 by auto
  have IHc: "sorted_wrt lex_less (map fst (children_items (Suc i) ch))"
    "(w, q) \<in> set (children_items (Suc i) ch) \<longleftrightarrow> child_item (Suc i) ch w q" for w q
    using 4 by auto
  have map1: "map fst (map ?f xs) = map (\<lambda>w. char_of (97 + i) # w) (map fst xs)" for xs :: "(string \<times> int) list"
    by (induction xs) auto
  have "sorted_wrt lex_less (map fst (map ?f (trie_items t)))"
    using IHt(1) unfolding map1 sorted_wrt_map by simp
  moreover have "lex_less v w" if "v \<in> fst ` set (map ?f (trie_items t))"
      "w \<in> fst ` set (children_items (Suc i) ch)" for v w
    using that IHc(2) child_item_head char_of_lower [OF i] by fastforce
  ultimately have "sorted_wrt lex_less (map fst (children_items i (Some t # ch)))"
    using IHc(1) by (simp add: sorted_wrt_append)
  moreover have "(w, q) \<in> set (children_items i (Some t # ch)) \<longleftrightarrow> child_item i (Some t # ch) w q" for w q
    using IHt(2) IHc(2) unfolding child_item_Cons [OF i] by auto
  ultimately show ?case by blast
qed

lemma trie_walk_wf: "trie_wf t \<Longrightarrow> \<forall>c \<in> set p. is_lower c \<Longrightarrow> trie_walk t p = Some n \<Longrightarrow> trie_wf n"
proof (induction t p rule: trie_walk.induct)
  case (2 ch r c cs)
  have "char_index c < length ch" using 2 char_index_less by simp
  then have "ch ! char_index c \<in> set ch" by (rule nth_mem)
  then show ?case using 2 by (fastforce split: option.splits)
qed simp

section \<open>Properties\<close>

lemma prefix_search_rows:
  assumes "trie_wf t" and "word_is_valid p" and "0 < max_out"
  shows "\<exists>ws. sorted_wrt lex_less ws \<and>
    set ws = {w. (\<exists>v. w = p @ v) \<and> trie_lookup t w \<noteq> None} \<and>
    trie_search_prefix t p max_out = take (nat max_out) (map (\<lambda>w. the (trie_lookup t w)) ws)"
proof (cases "trie_walk t p")
  case None
  have "{w. (\<exists>v. w = p @ v) \<and> trie_lookup t w \<noteq> None} = {}"
    by (auto simp: trie_lookup_row trie_row_append None)
  moreover have "trie_search_prefix t p max_out = []"
    using assms(2,3) by (simp add: prefix_search_items None)
  ultimately show ?thesis by (intro exI [of _ "[]"]) simp
next
  case (Some n)
  have wf: "trie_wf n"
    using trie_walk_wf [OF assms(1) _ Some] assms(2) by (simp add: word_is_valid_def)
  let ?ws = "map (\<lambda>e. p @ fst e) (trie_items n)"
  have items: "(v, r) \<in> set (trie_items n) \<longleftrightarrow> (\<forall>c \<in> set v. is_lower c) \<and> trie_row n v = Some r" for v r
    using items_correct(1) [OF wf] by blast
  have look: "trie_lookup t (p @ v) = (if \<forall>c \<in> set v. is_lower c then trie_row n v else None)" for v
    using assms(2) by (auto simp: trie_lookup_row trie_row_append Some word_is_valid_def)
  have "lex_less (p @ v) (p @ w) \<longleftrightarrow> lex_less v w" for v w
    by (induction p) auto
  then have "sorted_wrt lex_less ?ws"
    using items_correct(1) [OF wf] by (simp add: sorted_wrt_map)
  moreover have "w \<in> set ?ws \<longleftrightarrow> (\<exists>v. w = p @ v) \<and> trie_lookup t w \<noteq> None" for w
  proof
    assume "w \<in> set ?ws"
    then obtain v r where "(v, r) \<in> set (trie_items n)" and w: "w = p @ v" by auto
    then have "trie_lookup t (p @ v) = Some r" unfolding items look by simp
    then show "(\<exists>v. w = p @ v) \<and> trie_lookup t w \<noteq> None" unfolding w by simp
  next
    assume "(\<exists>v. w = p @ v) \<and> trie_lookup t w \<noteq> None"
    then obtain v r where w: "w = p @ v" and "trie_lookup t (p @ v) = Some r" by blast
    then have "(v, r) \<in> set (trie_items n)" unfolding items look by (simp split: if_splits)
    then show "w \<in> set ?ws" unfolding w by force
  qed
  moreover have "the (trie_lookup t (p @ fst e)) = snd e" if "e \<in> set (trie_items n)" for e
    using that items [of "fst e" "snd e"] unfolding look by simp
  then have eq: "map (\<lambda>w. the (trie_lookup t w)) ?ws = map snd (trie_items n)" by simp
  have "trie_search_prefix t p max_out = take (nat max_out) (map snd (trie_items n))"
    using assms(2,3) by (simp add: prefix_search_items Some)
  ultimately show ?thesis
    unfolding eq [symmetric] by (intro exI [of _ ?ws]) blast
qed

text \<open>\<^verbatim>\<open>trie_search_prefix\<close> writes the row numbers of exactly the words of the trie that
  extend the prefix, one per word, in lexicographic order of the words, and stops at the
  buffer's size.\<close>

theorem trie_search_prefix_correct:
  assumes "trie_wf t" and "word_is_valid p" and "0 < max_out"
  shows "\<exists>ws. sorted_wrt lex_less ws \<and>
    set ws = {w. (\<exists>v. w = p @ v) \<and> trie_lookup t w \<noteq> None} \<and>
    trie_search_prefix t p max_out = take (nat max_out) (map (\<lambda>w. the (trie_lookup t w)) ws)"
  by (rule prefix_search_rows [OF assms])

theorem trie_search_prefix_correct_witness:
  "trie_search_prefix (snd (trie_insert (snd (trie_insert trie_create ''ab'' 4)) ''ac'' 2)) ''a'' 9 = [4, 2] \<and>
   (\<exists>ws. set ws = {w. (\<exists>v. w = ''a'' @ v) \<and>
      trie_lookup (snd (trie_insert (snd (trie_insert trie_create ''ab'' 4)) ''ac'' 2)) w \<noteq> None})"
proof -
  let ?t = "snd (trie_insert (snd (trie_insert trie_create ''ab'' 4)) ''ac'' 2)"
  have v: "word_is_valid ''ab''" "word_is_valid ''ac''" "word_is_valid ''a''"
    by (simp_all add: word_is_valid_def is_lower_def)
  have "trie_wf ?t"
    using v by (intro tr.inv_insert) (simp_all add: trie_create_def)
  then have "\<exists>ws. set ws = {w. (\<exists>v. w = ''a'' @ v) \<and> trie_lookup ?t w \<noteq> None}"
    using trie_search_prefix_correct [of ?t "''a''" 9] v by (metis zero_less_numeral)
  moreover have "trie_search_prefix ?t ''a'' 9 = [4, 2]"
    by code_simp
  ultimately show ?thesis by blast
qed

text \<open>After any sequence of insertions of valid words and row numbers, exact search
  returns the row number inserted last under the word and \<open>-1\<close> for any other word; invalid
  words and negative row numbers are refused without changing the trie.\<close>

theorem trie_search_last_insert:
  "trie_search_exact (foldl (\<lambda>t kv. snd (trie_insert t (fst kv) (snd kv))) trie_create kvs) w
     = (case last_write (filter (\<lambda>(w, r). word_is_valid w \<and> 0 \<le> r) kvs) w of None \<Rightarrow> -1 | Some r \<Rightarrow> r)"
proof -
  let ?ok = "\<lambda>(w, r). word_is_valid w \<and> (0::int) \<le> r"
  have skip: "foldl (\<lambda>t kv. snd (trie_insert t (fst kv) (snd kv))) trie_create kvs = tr.load (filter ?ok kvs)"
    unfolding tr.load_def
    by (induction kvs rule: rev_induct) (auto simp: trie_insert_def)
  have wf: "trie_wf (tr.load (filter ?ok kvs))"
    and look: "trie_lookup (tr.load (filter ?ok kvs)) w = last_write (filter ?ok kvs) w"
    using tr.load_correct [of "filter ?ok kvs"] by auto
  have neg: "trie_search_exact t w < 0 \<longleftrightarrow> trie_search_exact t w = -1" if wf: "trie_wf t" for t
  proof (cases "word_is_valid w")
    case True
    show ?thesis
    proof (cases "trie_walk t w")
      case (Some n)
      have "trie_wf n" using trie_walk_wf [OF wf _ Some] True by (simp add: word_is_valid_def)
      then show ?thesis by (cases n) (auto simp: trie_search_exact_def Some)
    qed (simp add: trie_search_exact_def)
  qed (simp add: trie_search_exact_def)
  show ?thesis
    unfolding skip look [symmetric] using neg [OF wf] by (auto simp: trie_lookup_def Let_def)
qed

end
