(* ===== verification/Dict_Cache.thy ===== *)
theory Dict_Cache
  imports Prelude
begin

text \<open>
  The router's response cache of \<^verbatim>\<open>src/dict_cache.c\<close>: a fixed array of slots, the LRU clock
  and the hit and miss counters, all 64-bit. A slot with no key is free. Each operation
  is one critical section of the cache's lock, so it is one function on the cache state.
  Strings are copied in and out; running out of memory is not modelled.
\<close>

section \<open>The code\<close>

record dict_entry =
  dc_key :: "string option"
  dc_json :: string
  dc_last_used :: "64 word"

record dict_cache =
  dc_entries :: "dict_entry list"
  dc_clock :: "64 word"
  dc_hits :: "64 word"
  dc_misses :: "64 word"

definition dict_cache_entry_free :: dict_entry where
  "dict_cache_entry_free = \<lparr>dc_key = None, dc_json = [], dc_last_used = 0\<rparr>"

definition dict_cache_find :: "dict_cache \<Rightarrow> string \<Rightarrow> nat option" where
  "dict_cache_find c key = find_idx (\<lambda>e. dc_key e = Some key) (dc_entries c)"

fun slot_loop :: "nat \<Rightarrow> nat \<Rightarrow> 64 word \<Rightarrow> dict_entry list \<Rightarrow> nat" where
  "slot_loop i oldest oldest_used [] = oldest"
| "slot_loop i oldest oldest_used (e # es) =
     (if dc_key e = None then i
      else if dc_last_used e < oldest_used then slot_loop (Suc i) i (dc_last_used e) es
      else slot_loop (Suc i) oldest oldest_used es)"

definition dict_cache_slot_for_put :: "dict_cache \<Rightarrow> nat" where
  "dict_cache_slot_for_put c = slot_loop 0 0 (dc_last_used (dc_entries c ! 0)) (dc_entries c)"

definition dict_cache_create :: "int \<Rightarrow> dict_cache" where
  "dict_cache_create capacity =
     (let n = (if capacity \<le> 0 then 128 else nat capacity)
      in \<lparr>dc_entries = replicate n dict_cache_entry_free, dc_clock = 0, dc_hits = 0, dc_misses = 0\<rparr>)"

definition dict_cache_get :: "dict_cache \<Rightarrow> string \<Rightarrow> string option \<times> dict_cache" where
  "dict_cache_get c key =
     (if key = [] then (None, c)
      else case dict_cache_find c key of
             None \<Rightarrow> (None, c\<lparr>dc_misses := dc_misses c + 1\<rparr>)
           | Some i \<Rightarrow>
               (let e = dc_entries c ! i; now = dc_clock c + 1
                in (Some (dc_json e),
                    c\<lparr>dc_entries := (dc_entries c)[i := e\<lparr>dc_last_used := now\<rparr>],
                      dc_clock := now, dc_hits := dc_hits c + 1\<rparr>)))"

definition dict_cache_put :: "dict_cache \<Rightarrow> string \<Rightarrow> string \<Rightarrow> int \<times> dict_cache" where
  "dict_cache_put c key json =
     (if key = [] then (-1, c)
      else let i = (case dict_cache_find c key of Some i \<Rightarrow> i | None \<Rightarrow> dict_cache_slot_for_put c);
               now = dc_clock c + 1
           in (0, c\<lparr>dc_entries := (dc_entries c)[i :=
                      \<lparr>dc_key = Some key, dc_json = json, dc_last_used = now\<rparr>],
                    dc_clock := now\<rparr>))"

definition dict_cache_invalidate :: "dict_cache \<Rightarrow> string \<Rightarrow> dict_cache" where
  "dict_cache_invalidate c key =
     (if key = [] then c
      else case dict_cache_find c key of
             None \<Rightarrow> c
           | Some i \<Rightarrow> c\<lparr>dc_entries := (dc_entries c)[i := dict_cache_entry_free]\<rparr>)"

definition dict_cache_invalidate_all :: "dict_cache \<Rightarrow> dict_cache" where
  "dict_cache_invalidate_all c =
     c\<lparr>dc_entries := map (\<lambda>_. dict_cache_entry_free) (dc_entries c), dc_clock := 0\<rparr>"

section \<open>Contents and invariants\<close>

definition dc_lookup :: "dict_cache \<Rightarrow> string \<Rightarrow> string option" where
  "dc_lookup c key = map_option (\<lambda>i. dc_json (dc_entries c ! i)) (dict_cache_find c key)"

definition unique_keys :: "dict_entry list \<Rightarrow> bool" where
  "unique_keys es \<longleftrightarrow> (\<forall>i < length es. \<forall>j < length es.
     dc_key (es ! i) \<noteq> None \<longrightarrow> dc_key (es ! i) = dc_key (es ! j) \<longrightarrow> i = j)"

definition dc_inv :: "dict_cache \<Rightarrow> bool" where
  "dc_inv c \<longleftrightarrow> dc_entries c \<noteq> [] \<and> unique_keys (dc_entries c) \<and>
     (\<forall>e \<in> set (dc_entries c). dc_key e \<noteq> Some [])"

definition dc_full :: "dict_cache \<Rightarrow> bool" where
  "dc_full c \<longleftrightarrow> (\<forall>e \<in> set (dc_entries c). dc_key e \<noteq> None)"

text \<open>The occupied slots carry distinct time stamps that the clock has reached.\<close>

definition dc_stamped :: "dict_cache \<Rightarrow> bool" where
  "dc_stamped c \<longleftrightarrow> (\<forall>i < length (dc_entries c). dc_key (dc_entries c ! i) \<noteq> None \<longrightarrow>
       dc_last_used (dc_entries c ! i) \<le> dc_clock c \<and>
       (\<forall>j < length (dc_entries c). dc_key (dc_entries c ! j) \<noteq> None \<longrightarrow>
          dc_last_used (dc_entries c ! i) = dc_last_used (dc_entries c ! j) \<longrightarrow> i = j))"

lemma find_none: "dict_cache_find c key = None \<longleftrightarrow> (\<forall>e \<in> set (dc_entries c). dc_key e \<noteq> Some key)"
  by (simp add: dict_cache_find_def find_idx_None)

lemma find_key:
  assumes "unique_keys (dc_entries c)"
  shows "dict_cache_find c key = Some i \<longleftrightarrow>
    i < length (dc_entries c) \<and> dc_key (dc_entries c ! i) = Some key"
proof
  assume "dict_cache_find c key = Some i"
  then show "i < length (dc_entries c) \<and> dc_key (dc_entries c ! i) = Some key"
    unfolding dict_cache_find_def by (auto dest: find_idx_Some)
next
  assume i: "i < length (dc_entries c) \<and> dc_key (dc_entries c ! i) = Some key"
  then obtain j where j: "dict_cache_find c key = Some j"
    using find_none [of c key] nth_mem [of i "dc_entries c"] by blast
  then have "j < length (dc_entries c)" "dc_key (dc_entries c ! j) = Some key"
    unfolding dict_cache_find_def by (auto dest: find_idx_Some)
  then show "dict_cache_find c key = Some i"
    using assms i j unfolding unique_keys_def by force
qed

lemma lookup_Some:
  assumes "unique_keys (dc_entries c)"
  shows "dc_lookup c key = Some v \<longleftrightarrow> (\<exists>i < length (dc_entries c).
    dc_key (dc_entries c ! i) = Some key \<and> dc_json (dc_entries c ! i) = v)"
  by (auto simp: dc_lookup_def find_key [OF assms])

lemma option_ext: "(\<And>v. a = Some v \<longleftrightarrow> b = Some v) \<Longrightarrow> a = b"
  by (metis option.exhaust)


lemma slot_loop_spec:
  assumes "oldest < length es" "j \<le> length es"
    and "u = dc_last_used (es ! oldest)" "\<forall>k < j. dc_key (es ! k) \<noteq> None \<and> u \<le> dc_last_used (es ! k)"
  shows "slot_loop j oldest u (drop j es) < length es \<and>
    (dc_key (es ! slot_loop j oldest u (drop j es)) = None \<or>
     ((\<forall>e \<in> set es. dc_key e \<noteq> None) \<and>
      (\<forall>k < length es. dc_last_used (es ! slot_loop j oldest u (drop j es)) \<le> dc_last_used (es ! k))))"
  using assms
proof (induction "length es - j" arbitrary: j oldest u)
  case 0
  then show ?case by (auto simp: in_set_conv_nth)
next
  case (Suc n)
  then have j: "j < length es" by simp
  then have d: "drop j es = es ! j # drop (Suc j) es" by (simp add: Cons_nth_drop_Suc)
  let ?e = "es ! j"
  show ?case
  proof (cases "dc_key ?e = None")
    case True
    then show ?thesis using j by (simp add: d)
  next
    case False
    have n: "n = length es - Suc j" using Suc.hyps(2) by simp
    show ?thesis
    proof (cases "dc_last_used ?e < u")
      case True
      have "\<forall>k < Suc j. dc_key (es ! k) \<noteq> None \<and> dc_last_used ?e \<le> dc_last_used (es ! k)"
        using Suc.prems(4) True False by (auto simp: less_Suc_eq)
      then show ?thesis
        using Suc.hyps(1) [OF n, of j "dc_last_used ?e"] j True False by (simp add: d)
    next
      case False2: False
      have "\<forall>k < Suc j. dc_key (es ! k) \<noteq> None \<and> u \<le> dc_last_used (es ! k)"
        using Suc.prems(4) False2 False by (auto simp: less_Suc_eq)
      then show ?thesis
        using Suc.hyps(1) [OF n, of oldest u] Suc.prems(1,3) j False False2 by (simp add: d)
    qed
  qed
qed

lemma slot_for_put:
  assumes "dc_entries c \<noteq> []"
  defines "i \<equiv> dict_cache_slot_for_put c"
  shows "i < length (dc_entries c)"
    and "dc_key (dc_entries c ! i) = None \<or> (dc_full c \<and>
      (\<forall>k < length (dc_entries c). dc_last_used (dc_entries c ! i) \<le> dc_last_used (dc_entries c ! k)))"
  using slot_loop_spec [of 0 "dc_entries c" 0 "dc_last_used (dc_entries c ! 0)"] assms
  by (auto simp: dict_cache_slot_for_put_def dc_full_def)

text \<open>The slot a put writes.\<close>

definition put_slot :: "dict_cache \<Rightarrow> string \<Rightarrow> nat" where
  "put_slot c key = (case dict_cache_find c key of Some i \<Rightarrow> i | None \<Rightarrow> dict_cache_slot_for_put c)"

lemma put_slot_less: "dc_inv c \<Longrightarrow> put_slot c key < length (dc_entries c)"
  by (auto simp: put_slot_def dc_inv_def find_key slot_for_put split: option.splits)

lemma put_slot_key:
  assumes "dc_inv c" "j < length (dc_entries c)" "dc_key (dc_entries c ! j) = Some key"
  shows "put_slot c key = j"
  using assms by (simp add: put_slot_def dc_inv_def find_key [THEN iffD2])

lemma put_eq:
  "key \<noteq> [] \<Longrightarrow> snd (dict_cache_put c key json) =
     c\<lparr>dc_entries := (dc_entries c)[put_slot c key :=
         \<lparr>dc_key = Some key, dc_json = json, dc_last_used = dc_clock c + 1\<rparr>], dc_clock := dc_clock c + 1\<rparr>"
  by (simp add: dict_cache_put_def put_slot_def Let_def)

lemma unique_keys_update:
  assumes "unique_keys es" and "i < length es"
    and "\<And>j. j < length es \<Longrightarrow> j \<noteq> i \<Longrightarrow> dc_key e \<noteq> None \<Longrightarrow> dc_key (es ! j) \<noteq> dc_key e"
  shows "unique_keys (es[i := e])"
  unfolding unique_keys_def
proof (intro allI impI)
  fix j k
  assume "j < length (es[i := e])" "k < length (es[i := e])" "dc_key (es[i := e] ! j) \<noteq> None"
    "dc_key (es[i := e] ! j) = dc_key (es[i := e] ! k)"
  then have jk: "j < length es" "k < length es"
    "dc_key (if i = j then e else es ! j) \<noteq> None"
    "dc_key (if i = j then e else es ! j) = dc_key (if i = k then e else es ! k)"
    using assms(2) by (simp_all add: nth_list_update)
  show "j = k"
  proof (cases "i = j \<or> i = k")
    case True
    then show ?thesis using jk assms(3) [of j] assms(3) [of k] by (auto split: if_splits)
  next
    case False
    then show ?thesis using jk assms(1) unfolding unique_keys_def by simp
  qed
qed

lemma put_inv:
  assumes "dc_inv c"
  shows "dc_inv (snd (dict_cache_put c key json))"
proof (cases "key = []")
  case False
  let ?e = "\<lparr>dc_key = Some key, dc_json = json, dc_last_used = dc_clock c + 1\<rparr>"
  have "dc_key (dc_entries c ! j) \<noteq> Some key" if "j < length (dc_entries c)" "j \<noteq> put_slot c key" for j
    using put_slot_key [OF assms that(1)] that(2) by blast
  then have "unique_keys ((dc_entries c)[put_slot c key := ?e])"
    using assms put_slot_less [OF assms] by (intro unique_keys_update) (auto simp: dc_inv_def)
  moreover have "\<forall>e \<in> set ((dc_entries c)[put_slot c key := ?e]). dc_key e \<noteq> Some []"
    using assms False by (auto simp: dc_inv_def dest!: subsetD [OF set_update_subset_insert])
  ultimately show ?thesis
    using assms unfolding put_eq [OF False] dc_inv_def by simp
qed (use assms in \<open>simp add: dict_cache_put_def\<close>)

lemma put_lookup:
  assumes inv: "dc_inv c" and "key \<noteq> []"
  shows "dc_lookup (snd (dict_cache_put c key json)) k =
    (if k = key then Some json
     else if dc_key (dc_entries c ! put_slot c key) = Some k then None else dc_lookup c k)"
proof (rule option_ext)
  fix v
  let ?c = "snd (dict_cache_put c key json)"
  have u: "unique_keys (dc_entries c)" "unique_keys (dc_entries ?c)"
    using inv put_inv [OF inv] by (auto simp: dc_inv_def)
  have s: "put_slot c key < length (dc_entries c)" by (rule put_slot_less [OF inv])
  have other: "j = put_slot c key"
    if "j < length (dc_entries c)" "dc_key (dc_entries c ! j) = dc_key (dc_entries c ! put_slot c key)"
      "dc_key (dc_entries c ! j) \<noteq> None" for j
    using u(1) s that unfolding unique_keys_def by blast
  have e: "dc_entries ?c = (dc_entries c)[put_slot c key :=
      \<lparr>dc_key = Some key, dc_json = json, dc_last_used = dc_clock c + 1\<rparr>]"
    by (simp add: put_eq [OF assms(2)])
  show "(dc_lookup ?c k = Some v) \<longleftrightarrow> ((if k = key then Some json
     else if dc_key (dc_entries c ! put_slot c key) = Some k then None else dc_lookup c k) = Some v)"
  proof (cases "k = key")
    case True
    have "dc_lookup ?c k = Some json"
      unfolding lookup_Some [OF u(2)] e using s True by (intro exI [of _ "put_slot c key"]) simp
    then show ?thesis using True by simp
  next
    case False
    have "(dc_lookup ?c k = Some v) \<longleftrightarrow> (\<exists>j < length (dc_entries c). j \<noteq> put_slot c key \<and>
        dc_key (dc_entries c ! j) = Some k \<and> dc_json (dc_entries c ! j) = v)"
      unfolding lookup_Some [OF u(2)] e using False s
      by (intro ex_cong1) (auto simp: nth_list_update)
    then show ?thesis
      using False other unfolding if_not_P [OF False] by (auto simp: lookup_Some [OF u(1)])
  qed
qed

lemma put_slot_cases:
  assumes "dc_inv c"
  obtains (hit) "dc_key (dc_entries c ! put_slot c key) = Some key"
  | (free) "\<forall>e \<in> set (dc_entries c). dc_key e \<noteq> Some key" "dc_key (dc_entries c ! put_slot c key) = None"
  | (evict) "\<forall>e \<in> set (dc_entries c). dc_key e \<noteq> Some key" "dc_full c"
      "\<forall>k < length (dc_entries c). dc_last_used (dc_entries c ! put_slot c key) \<le> dc_last_used (dc_entries c ! k)"
proof (cases "dict_cache_find c key")
  case None
  then have "put_slot c key = dict_cache_slot_for_put c" "\<forall>e \<in> set (dc_entries c). dc_key e \<noteq> Some key"
    by (simp_all add: put_slot_def find_none [symmetric])
  then show ?thesis
    using that(2,3) slot_for_put(2) [of c] assms unfolding dc_inv_def by metis
next
  case (Some i)
  then show ?thesis
    using that(1) assms by (simp add: put_slot_def dc_inv_def find_key)
qed

lemma free_key [simp]: "dc_key dict_cache_entry_free = None"
  by (simp add: dict_cache_entry_free_def)

lemma unique_keys_free: "unique_keys es \<Longrightarrow> unique_keys (es[i := dict_cache_entry_free])"
  by (cases "i < length es")
    (auto intro!: unique_keys_update simp: list_update_beyond)

lemma unique_keys_keep:
  assumes "unique_keys es" "dc_key e = dc_key (es ! i)"
  shows "unique_keys (es[i := e])"
proof (cases "i < length es")
  case True
  then show ?thesis
    using assms by (intro unique_keys_update) (force simp: unique_keys_def)+
qed (use assms in \<open>simp add: list_update_beyond\<close>)

lemma get_hit:
  "key \<noteq> [] \<Longrightarrow> dict_cache_find c key = Some i \<Longrightarrow> dict_cache_get c key = (Some (dc_json (dc_entries c ! i)),
     c\<lparr>dc_entries := (dc_entries c)[i := (dc_entries c ! i)\<lparr>dc_last_used := dc_clock c + 1\<rparr>],
       dc_clock := dc_clock c + 1, dc_hits := dc_hits c + 1\<rparr>)"
  by (simp add: dict_cache_get_def Let_def)

lemma get_value: "key \<noteq> [] \<Longrightarrow> fst (dict_cache_get c key) = dc_lookup c key"
  by (auto simp: dict_cache_get_def dc_lookup_def Let_def split: option.splits)

lemma get_inv:
  assumes "dc_inv c"
  shows "dc_inv (snd (dict_cache_get c key))"
proof (cases "key = [] \<or> dict_cache_find c key = None")
  case True
  then show ?thesis using assms by (auto simp: dict_cache_get_def dc_inv_def)
next
  case False
  then obtain i where i: "key \<noteq> []" "dict_cache_find c key = Some i" by auto
  then have "dc_key (dc_entries c ! i) = Some key" using assms by (simp add: dc_inv_def find_key)
  then show ?thesis
    using assms i unfolding get_hit [OF i] dc_inv_def
    by (auto intro!: unique_keys_keep dest!: subsetD [OF set_update_subset_insert])
qed

lemma get_lookup:
  assumes "dc_inv c"
  shows "dc_lookup (snd (dict_cache_get c key)) = dc_lookup c"
proof (cases "key = [] \<or> dict_cache_find c key = None")
  case True
  then show ?thesis by (auto simp: dict_cache_get_def dc_lookup_def dict_cache_find_def fun_eq_iff)
next
  case False
  then obtain i where i: "key \<noteq> []" "dict_cache_find c key = Some i" by auto
  then have l: "i < length (dc_entries c)" using assms by (simp add: dc_inv_def find_key)
  let ?c = "snd (dict_cache_get c key)"
  have u: "unique_keys (dc_entries c)" "unique_keys (dc_entries ?c)"
    using assms get_inv [OF assms] by (auto simp: dc_inv_def)
  have e: "dc_entries ?c = (dc_entries c)[i := (dc_entries c ! i)\<lparr>dc_last_used := dc_clock c + 1\<rparr>]"
    by (simp add: get_hit [OF i])
  show ?thesis
  proof (rule ext, rule option_ext)
    fix k v
    show "dc_lookup ?c k = Some v \<longleftrightarrow> dc_lookup c k = Some v"
      unfolding lookup_Some [OF u(1)] lookup_Some [OF u(2)] e
      using l by (intro ex_cong1) (auto simp: nth_list_update)
  qed
qed

lemma invalidate_inv: "dc_inv c \<Longrightarrow> dc_inv (dict_cache_invalidate c key)"
  unfolding dict_cache_invalidate_def dc_inv_def
  by (auto intro: unique_keys_free dest!: subsetD [OF set_update_subset_insert]
      split: option.splits)

lemma invalidate_lookup:
  assumes "dc_inv c" "key \<noteq> []"
  shows "dc_lookup (dict_cache_invalidate c key) = (dc_lookup c)(key := None)"
proof (cases "dict_cache_find c key")
  case None
  then show ?thesis
    using assms(2) by (auto simp: dict_cache_invalidate_def dc_lookup_def fun_eq_iff)
next
  case (Some i)
  then have l: "i < length (dc_entries c)" "dc_key (dc_entries c ! i) = Some key"
    using assms by (auto simp: dc_inv_def find_key)
  let ?c = "dict_cache_invalidate c key"
  have u: "unique_keys (dc_entries c)" "unique_keys (dc_entries ?c)"
    using assms invalidate_inv [OF assms(1)] by (auto simp: dc_inv_def)
  have other: "j = i" if "j < length (dc_entries c)" "dc_key (dc_entries c ! j) = Some key" for j
    using u(1) l that unfolding unique_keys_def by force
  have e: "dc_entries ?c = (dc_entries c)[i := dict_cache_entry_free]"
    using assms(2) Some by (simp add: dict_cache_invalidate_def)
  show ?thesis
  proof (rule ext, rule option_ext)
    fix k v
    have "dc_lookup ?c k = Some v \<longleftrightarrow> (\<exists>j < length (dc_entries c). k \<noteq> key \<and>
        dc_key (dc_entries c ! j) = Some k \<and> dc_json (dc_entries c ! j) = v)"
      unfolding lookup_Some [OF u(2)] e
    proof (rule ex_cong1)
      fix j
      show "(j < length ((dc_entries c)[i := dict_cache_entry_free]) \<and>
          dc_key ((dc_entries c)[i := dict_cache_entry_free] ! j) = Some k \<and>
          dc_json ((dc_entries c)[i := dict_cache_entry_free] ! j) = v) =
        (j < length (dc_entries c) \<and> k \<noteq> key \<and> dc_key (dc_entries c ! j) = Some k \<and>
          dc_json (dc_entries c ! j) = v)"
      proof (cases "j = i")
        case True
        then show ?thesis using l by simp
      next
        case False
        then show ?thesis using other [of j] by auto
      qed
    qed
    then show "dc_lookup ?c k = Some v \<longleftrightarrow> ((dc_lookup c)(key := None)) k = Some v"
      by (auto simp: lookup_Some [OF u(1)])
  qed
qed

lemma invalidate_all_inv: "dc_inv c \<Longrightarrow> dc_inv (dict_cache_invalidate_all c)"
  by (auto simp: dict_cache_invalidate_all_def dc_inv_def unique_keys_def dict_cache_entry_free_def)

lemma invalidate_all_lookup: "dc_lookup (dict_cache_invalidate_all c) = Map.empty"
  unfolding fun_eq_iff dc_lookup_def dict_cache_invalidate_all_def dict_cache_find_def
  by (auto simp: find_idx_None)

lemma create_inv: "dc_inv (dict_cache_create n)"
  by (auto simp: dict_cache_create_def Let_def dc_inv_def unique_keys_def dict_cache_entry_free_def)

lemma create_lookup: "dc_lookup (dict_cache_create n) = Map.empty"
  unfolding fun_eq_iff dc_lookup_def dict_cache_create_def dict_cache_find_def Let_def
  by (auto simp: find_idx_None)

section \<open>The interface the router relies on\<close>

text \<open>
  A cache may forget, but never invents: what the handlers of the router need from it.
  The client computes an answer on a miss and stores it (\<open>read_through\<close>); the answers are
  right as long as every cached answer is the one the source would give now.
\<close>

locale response_cache =
  fixes inv :: "'c \<Rightarrow> bool" and contents :: "'c \<Rightarrow> 'k \<Rightarrow> 'v option" and ok :: "'k \<Rightarrow> bool"
    and get :: "'c \<Rightarrow> 'k \<Rightarrow> 'v option \<times> 'c" and put :: "'c \<Rightarrow> 'k \<Rightarrow> 'v \<Rightarrow> 'c"
    and drop_key :: "'c \<Rightarrow> 'k \<Rightarrow> 'c" and clear :: "'c \<Rightarrow> 'c"
  assumes get_val: "ok k \<Longrightarrow> fst (get c k) = contents c k"
    and get_keeps: "inv c \<Longrightarrow> inv (snd (get c k)) \<and> contents (snd (get c k)) = contents c"
    and put_keeps: "inv c \<Longrightarrow> inv (put c k v)"
    and put_hit: "inv c \<Longrightarrow> ok k \<Longrightarrow> contents (put c k v) k = Some v"
    and put_other: "inv c \<Longrightarrow> ok k \<Longrightarrow> k' \<noteq> k \<Longrightarrow> contents (put c k v) k' \<in> {contents c k', None}"
    and drop_keeps: "inv c \<Longrightarrow> inv (drop_key c k)"
    and drop_contents: "inv c \<Longrightarrow> ok k \<Longrightarrow> contents (drop_key c k) = (contents c)(k := None)"
    and clear_keeps: "inv c \<Longrightarrow> inv (clear c)"
    and clear_contents: "contents (clear c) = Map.empty"
begin

definition coherent :: "('k \<Rightarrow> 'v option) \<Rightarrow> 'c \<Rightarrow> bool" where
  "coherent db c \<longleftrightarrow> inv c \<and> (\<forall>k v. contents c k = Some v \<longrightarrow> db k = Some v)"

definition read_through :: "('k \<Rightarrow> 'v option) \<Rightarrow> 'c \<Rightarrow> 'k \<Rightarrow> 'v option \<times> 'c" where
  "read_through db c k = (case get c k of
       (Some v, c') \<Rightarrow> (Some v, c')
     | (None, c') \<Rightarrow> (case db k of None \<Rightarrow> (None, c') | Some v \<Rightarrow> (Some v, put c' k v)))"

lemma coherent_get: "coherent db c \<Longrightarrow> coherent db (snd (get c k))"
  by (auto simp: coherent_def get_keeps)

lemma coherent_put:
  assumes "coherent db c" "ok k" "db k = Some v"
  shows "coherent db (put c k v)"
proof -
  have inv: "inv c" using assms(1) by (simp add: coherent_def)
  have "db j = Some w" if "contents (put c k v) j = Some w" for j w
  proof (cases "j = k")
    case True
    then show ?thesis using that assms(3) put_hit [OF inv assms(2)] by simp
  next
    case False
    then have "contents c j = Some w"
      using that put_other [OF inv assms(2) False, of v] by auto
    then show ?thesis using assms(1) by (simp add: coherent_def)
  qed
  then show ?thesis using put_keeps [OF inv] by (simp add: coherent_def)
qed

lemma read_through_correct:
  assumes "coherent db c" "ok k"
  shows "fst (read_through db c k) = db k \<and> coherent db (snd (read_through db c k))"
proof (cases "get c k")
  case (Pair r c')
  have c': "coherent db c'" using coherent_get [OF assms(1), of k] by (simp add: Pair)
  have r: "contents c k = r" using get_val [OF assms(2), of c] by (simp add: Pair)
  show ?thesis
  proof (cases r)
    case None
    then show ?thesis
      using coherent_put [OF c' assms(2)] c' by (auto simp: read_through_def Pair split: option.splits)
  next
    case (Some v)
    then show ?thesis
      using c' r assms(1) by (auto simp: read_through_def Pair coherent_def)
  qed
qed

lemma coherent_drop:
  "coherent db c \<Longrightarrow> ok k \<Longrightarrow> \<forall>j. j \<noteq> k \<longrightarrow> db' j = db j \<Longrightarrow> coherent db' (drop_key c k)"
  by (auto simp: coherent_def drop_keeps drop_contents)

lemma coherent_clear: "inv c \<Longrightarrow> coherent db (clear c)"
  by (simp add: coherent_def clear_keeps clear_contents)

end

interpretation dc: response_cache dc_inv dc_lookup "\<lambda>k. k \<noteq> []" dict_cache_get
  "\<lambda>c k v. snd (dict_cache_put c k v)" dict_cache_invalidate dict_cache_invalidate_all
  by unfold_locales
    (auto simp: get_value get_inv get_lookup put_inv put_lookup invalidate_inv invalidate_lookup
      invalidate_all_inv invalidate_all_lookup)

section \<open>Refinement of a least-recently-used list\<close>

text \<open>
  What the array of slots stands for: the cached pairs, most recently used first. The
  abstract operations move a pair to the front and forget the last pair when there is no
  room.
\<close>

definition lru_put :: "nat \<Rightarrow> string \<Rightarrow> string \<Rightarrow> (string \<times> string) list \<Rightarrow> (string \<times> string) list" where
  "lru_put cap k v xs = (k, v) #
     (if k \<in> fst ` set xs then filter (\<lambda>p. fst p \<noteq> k) xs
      else if length xs < cap then xs else butlast xs)"

definition lru_get :: "string \<Rightarrow> (string \<times> string) list \<Rightarrow> (string \<times> string) list" where
  "lru_get k xs = (case map_of xs k of None \<Rightarrow> xs | Some v \<Rightarrow> (k, v) # filter (\<lambda>p. fst p \<noteq> k) xs)"

definition by_recency :: "dict_entry list \<Rightarrow> dict_entry list" where
  "by_recency es = rev (sort_key dc_last_used (filter (\<lambda>e. dc_key e \<noteq> None) es))"

definition lru_pair :: "dict_entry \<Rightarrow> string \<times> string" where
  "lru_pair e = (the (dc_key e), dc_json e)"

definition lru_view :: "dict_cache \<Rightarrow> (string \<times> string) list" where
  "lru_view c = map lru_pair (by_recency (dc_entries c))"

abbreviation newer :: "dict_entry \<Rightarrow> dict_entry \<Rightarrow> bool" where
  "newer a b \<equiv> dc_last_used b < dc_last_used a"

definition stamps_distinct :: "dict_entry list \<Rightarrow> bool" where
  "stamps_distinct es \<longleftrightarrow> distinct (map dc_last_used (filter (\<lambda>e. dc_key e \<noteq> None) es))"

lemma distinct_filter_map:
  "(\<forall>i < length es. P (es ! i) \<longrightarrow> (\<forall>j < length es. P (es ! j) \<longrightarrow> f (es ! i) = f (es ! j) \<longrightarrow> i = j))
     \<Longrightarrow> distinct (map f (filter P es))"
proof (induction es)
  case (Cons e es)
  have "\<forall>i < length es. P (es ! i) \<longrightarrow> (\<forall>j < length es. P (es ! j) \<longrightarrow> f (es ! i) = f (es ! j) \<longrightarrow> i = j)"
    using Cons.prems by (metis Suc_inject length_Cons not_less_eq nth_Cons_Suc)
  moreover have "f e \<noteq> f x" if h: "P e" "x \<in> set es" "P x" for x
  proof -
    obtain j where "j < length es" "es ! j = x" using h(2) by (auto simp: in_set_conv_nth)
    then show ?thesis using Cons.prems [rule_format, of 0 "Suc j"] h by auto
  qed
  ultimately show ?case using Cons.IH by auto
qed simp

lemma set_by_recency: "set (by_recency es) = {e \<in> set es. dc_key e \<noteq> None}"
  by (auto simp: by_recency_def)

lemma by_recency_sorted:
  assumes "stamps_distinct es"
  shows "sorted_wrt newer (by_recency es)"
proof -
  let ?s = "sort_key dc_last_used (filter (\<lambda>e. dc_key e \<noteq> None) es)"
  have "distinct (map dc_last_used ?s)"
    using assms unfolding stamps_distinct_def
    by (metis mset_map mset_sort mset_eq_imp_distinct_iff)
  then have "sorted_wrt (<) (map dc_last_used ?s)"
    by (simp add: strict_sorted_iff)
  then show ?thesis
    by (simp add: by_recency_def sorted_wrt_rev sorted_wrt_map)
qed

lemma newer_unique:
  "sorted_wrt newer xs \<Longrightarrow> sorted_wrt newer ys \<Longrightarrow> set xs = set ys \<Longrightarrow> xs = ys"
proof (induction xs arbitrary: ys)
  case (Cons x xs)
  then obtain y zs where ys: "ys = y # zs" by (cases ys) auto
  have "x = y"
  proof (rule ccontr)
    assume "x \<noteq> y"
    then have "x \<in> set zs" "y \<in> set xs" using Cons.prems(3) ys by auto
    then show False using Cons.prems(1,2) ys by (auto dest: less_asym)
  qed
  moreover have "x \<notin> set xs" "y \<notin> set zs" using Cons.prems(1,2) ys by auto
  ultimately have "set xs = set zs" using Cons.prems(3) ys by auto
  then show ?case using Cons ys \<open>x = y\<close> by simp
qed simp

lemma newer_distinct: "sorted_wrt newer xs \<Longrightarrow> distinct xs"
  by (induction xs) auto

lemma zero_less_max_word: "(0::64 word) < - 1"
  by code_simp

lemma dc_stamped_distinct: "dc_stamped c \<Longrightarrow> stamps_distinct (dc_entries c)"
  unfolding stamps_distinct_def dc_stamped_def by (rule distinct_filter_map) blast

lemma clock_newer: "(x :: 64 word) \<le> t \<Longrightarrow> t < - 1 \<Longrightarrow> x < t + 1"
  by unat_arith

text \<open>Overwriting a slot with a freshly stamped entry puts the entry in front.\<close>

lemma by_recency_update:
  assumes st: "dc_stamped c" and t: "dc_clock c < - 1" and u: "unique_keys (dc_entries c)"
    and i: "i < length (dc_entries c)"
    and e: "dc_key e \<noteq> None" "dc_last_used e = dc_clock c + 1"
  shows "by_recency ((dc_entries c)[i := e]) = e # filter (\<lambda>x. x \<noteq> dc_entries c ! i) (by_recency (dc_entries c))"
    and "dc_stamped (c\<lparr>dc_entries := (dc_entries c)[i := e], dc_clock := dc_clock c + 1\<rparr>)"
proof -
  let ?es = "dc_entries c"
  have old: "dc_last_used (?es ! j) < dc_clock c + 1" if "j < length ?es" "dc_key (?es ! j) \<noteq> None" for j
    using st that clock_newer [OF _ t] by (simp add: dc_stamped_def)
  have same: "j = i" if "j < length ?es" "dc_key (?es ! j) \<noteq> None" "?es ! j = ?es ! i" for j
    using u that i unfolding unique_keys_def by metis
  have st': "dc_stamped (c\<lparr>dc_entries := ?es[i := e], dc_clock := dc_clock c + 1\<rparr>)"
    unfolding dc_stamped_def
  proof (simp, intro allI impI conjI)
    fix j assume j: "j < length ?es" "\<exists>y. dc_key (?es[i := e] ! j) = Some y"
    show "dc_last_used (?es[i := e] ! j) \<le> dc_clock c + 1"
      using j e i old [of j] by (cases "j = i") auto
    fix k assume k: "k < length ?es" "\<exists>y. dc_key (?es[i := e] ! k) = Some y"
      "dc_last_used (?es[i := e] ! j) = dc_last_used (?es[i := e] ! k)"
    show "j = k"
    proof (cases "j = i \<or> k = i")
      case True
      then show ?thesis using j k e i old [of j] old [of k] by (cases "j = i"; cases "k = i") auto
    next
      case False
      then show ?thesis using j k st unfolding dc_stamped_def by auto
    qed
  qed
  then show "dc_stamped (c\<lparr>dc_entries := ?es[i := e], dc_clock := dc_clock c + 1\<rparr>)" .
  have st2: "stamps_distinct (?es[i := e])" using dc_stamped_distinct [OF st'] by simp
  show "by_recency (?es[i := e]) = e # filter (\<lambda>x. x \<noteq> ?es ! i) (by_recency ?es)"
  proof (rule newer_unique)
    show "sorted_wrt newer (by_recency (?es[i := e]))" by (rule by_recency_sorted [OF st2])
    have "newer e x" if "x \<in> set (by_recency ?es)" for x
      using that old e by (auto simp: set_by_recency in_set_conv_nth)
    then show "sorted_wrt newer (e # filter (\<lambda>x. x \<noteq> ?es ! i) (by_recency ?es))"
      using by_recency_sorted [OF dc_stamped_distinct [OF st]] by (simp add: sorted_wrt_filter)
    show "set (by_recency (?es[i := e])) = set (e # filter (\<lambda>x. x \<noteq> ?es ! i) (by_recency ?es))"
      (is "?A = ?B")
    proof (rule set_eqI)
      fix x
      have "x \<in> set (?es[i := e]) \<longleftrightarrow> x = e \<or> (\<exists>j < length ?es. j \<noteq> i \<and> ?es ! j = x)"
        using i by (auto simp: in_set_conv_nth nth_list_update split: if_splits)
      moreover have "(\<exists>j < length ?es. j \<noteq> i \<and> ?es ! j = x) \<longleftrightarrow> x \<in> set ?es \<and> x \<noteq> ?es ! i"
        if "dc_key x \<noteq> None"
        using that same by (auto simp: in_set_conv_nth)
      ultimately show "x \<in> ?A \<longleftrightarrow> x \<in> ?B" using e(1) by (auto simp: set_by_recency)
    qed
  qed
qed

lemma filter_oldest:
  assumes "sorted_wrt newer xs" "x \<in> set xs" "\<forall>y \<in> set xs. dc_last_used x \<le> dc_last_used y"
  shows "filter (\<lambda>y. y \<noteq> x) xs = butlast xs"
proof (cases xs rule: rev_cases)
  case (snoc ws z)
  have "x = z"
  proof (rule ccontr)
    assume "x \<noteq> z"
    then have "newer x z" using assms(1,2) by (auto simp: snoc sorted_wrt_append)
    then show False using assms(3) by (simp add: snoc leD)
  qed
  moreover have "x \<notin> set ws" using assms(1) \<open>x = z\<close> by (auto simp: snoc sorted_wrt_append)
  ultimately show ?thesis by (auto simp: snoc filter_id_conv)
qed (use assms in simp)

lemma length_by_recency: "length (by_recency es) = length (filter (\<lambda>e. dc_key e \<noteq> None) es)"
  by (simp add: by_recency_def)

lemma length_by_recency_less:
  "e \<in> set es \<Longrightarrow> dc_key e = None \<Longrightarrow> length (by_recency es) < length es"
  unfolding length_by_recency by (rule length_filter_less) auto

lemma view_keys: "key \<in> fst ` set (lru_view c) \<longleftrightarrow> (\<exists>e \<in> set (dc_entries c). dc_key e = Some key)"
  by (force simp: lru_view_def lru_pair_def set_by_recency image_iff)

lemma filter_view:
  assumes "unique_keys (dc_entries c)" "i < length (dc_entries c)" "dc_key (dc_entries c ! i) = Some key"
  shows "map lru_pair (filter (\<lambda>x. x \<noteq> dc_entries c ! i) (by_recency (dc_entries c)))
    = filter (\<lambda>p. fst p \<noteq> key) (lru_view c)"
proof -
  have "x \<noteq> dc_entries c ! i \<longleftrightarrow> the (dc_key x) \<noteq> key" if "x \<in> set (by_recency (dc_entries c))" for x
    using that assms unfolding set_by_recency unique_keys_def by (auto simp: in_set_conv_nth)
  then show ?thesis
    by (auto simp: lru_view_def filter_map lru_pair_def comp_def intro!: arg_cong [of _ _ "map lru_pair"] filter_cong)
qed

lemma view_lookup:
  assumes inv: "dc_inv c" and st: "dc_stamped c"
  shows "map_of (lru_view c) key = dc_lookup c key"
proof -
  have u: "unique_keys (dc_entries c)" using inv by (simp add: dc_inv_def)
  have inj: "x = y" if h: "x \<in> set (by_recency (dc_entries c))" "y \<in> set (by_recency (dc_entries c))"
      "dc_key x = dc_key y" for x y
  proof -
    obtain i j where ij: "i < length (dc_entries c)" "dc_entries c ! i = x"
      "j < length (dc_entries c)" "dc_entries c ! j = y"
      using h by (auto simp: set_by_recency in_set_conv_nth)
    moreover have "dc_key x \<noteq> None" using h(1) by (simp add: set_by_recency)
    ultimately have "i = j" using u h(3) unfolding unique_keys_def by blast
    then show "x = y" using ij by simp
  qed
  have "distinct (by_recency (dc_entries c))"
    using by_recency_sorted [OF dc_stamped_distinct [OF st]] by (rule newer_distinct)
  moreover have "inj_on (\<lambda>e. the (dc_key e)) (set (by_recency (dc_entries c)))"
    using inj by (intro inj_onI) (auto simp: set_by_recency)
  ultimately have d: "distinct (map fst (lru_view c))"
    by (simp add: lru_view_def lru_pair_def comp_def distinct_map)
  show ?thesis
  proof (rule option_ext)
    fix v
    show "map_of (lru_view c) key = Some v \<longleftrightarrow> dc_lookup c key = Some v"
      unfolding map_of_eq_Some_iff [OF d] lookup_Some [OF u]
      by (force simp: lru_view_def lru_pair_def set_by_recency in_set_conv_nth image_iff)
  qed
qed

section \<open>Properties\<close>

text \<open>C23: \<^verbatim>\<open>dict_cache_put\<close> refines the abstract LRU list: the pair goes to the front, an older
  value of the key disappears, and only a full cache forgets a pair, the least recently
  used one. The time stamps stay distinct as long as the 64-bit clock does not wrap.\<close>

theorem dict_cache_put_refines:
  assumes inv: "dc_inv c" and st: "dc_stamped c" and t: "dc_clock c < - 1" and key: "key \<noteq> []"
  shows "lru_view (snd (dict_cache_put c key json))
      = lru_put (length (dc_entries c)) key json (lru_view c) \<and>
    dc_inv (snd (dict_cache_put c key json)) \<and> dc_stamped (snd (dict_cache_put c key json))"
proof -
  let ?i = "put_slot c key" and ?es = "dc_entries c" and ?V = "by_recency (dc_entries c)"
  let ?e = "\<lparr>dc_key = Some key, dc_json = json, dc_last_used = dc_clock c + 1\<rparr>"
  have u: "unique_keys ?es" using inv by (simp add: dc_inv_def)
  have i: "?i < length ?es" by (rule put_slot_less [OF inv])
  note upd = by_recency_update [OF st t u i, of ?e]
  have view: "lru_view (snd (dict_cache_put c key json))
      = (key, json) # map lru_pair (filter (\<lambda>x. x \<noteq> ?es ! ?i) ?V)"
    using upd(1) by (simp add: put_eq [OF key] lru_view_def lru_pair_def)
  have "map lru_pair (filter (\<lambda>x. x \<noteq> ?es ! ?i) ?V) =
     (if key \<in> fst ` set (lru_view c) then filter (\<lambda>p. fst p \<noteq> key) (lru_view c)
      else if length (lru_view c) < length ?es then lru_view c else butlast (lru_view c))"
    using inv
  proof (cases rule: put_slot_cases [where key = key])
    case hit
    then show ?thesis
      using filter_view [OF u i hit] i nth_mem [OF i] by (auto simp: view_keys)
  next
    case free
    then have "length ?V < length ?es"
      using length_by_recency_less nth_mem [OF i] by blast
    moreover have "filter (\<lambda>x. x \<noteq> ?es ! ?i) ?V = ?V"
      using free(2) by (auto simp: filter_id_conv set_by_recency)
    moreover have "key \<notin> fst ` set (lru_view c)" unfolding view_keys using free(1) by blast
    ultimately show ?thesis by (simp only: if_False) (simp add: lru_view_def)
  next
    case evict
    have "?es ! ?i \<in> set ?V" using evict(2) nth_mem [OF i] by (simp add: set_by_recency dc_full_def)
    moreover have "\<forall>y \<in> set ?V. dc_last_used (?es ! ?i) \<le> dc_last_used y"
      using evict(3) by (auto simp: set_by_recency in_set_conv_nth)
    ultimately have "filter (\<lambda>x. x \<noteq> ?es ! ?i) ?V = butlast ?V"
      using by_recency_sorted [OF dc_stamped_distinct [OF st]] by (intro filter_oldest)
    moreover have "length ?V = length ?es"
      using evict(2) by (simp add: length_by_recency dc_full_def)
    moreover have "key \<notin> fst ` set (lru_view c)" unfolding view_keys using evict(1) by blast
    ultimately show ?thesis by (simp only: if_False) (simp add: lru_view_def map_butlast)
  qed
  then have "lru_view (snd (dict_cache_put c key json)) = lru_put (length ?es) key json (lru_view c)"
    unfolding view lru_put_def by simp
  then show ?thesis
    using put_inv [OF inv, of key json] upd(2) by (simp add: put_eq [OF key])
qed

theorem dict_cache_put_refines_witness:
  "lru_view (snd (dict_cache_put (dict_cache_create 1) ''k'' ''v'')) = [(''k'', ''v'')]"
proof -
  have "dc_stamped (dict_cache_create 1)" "dc_clock (dict_cache_create 1) < - 1"
    by (auto simp: dict_cache_create_def dc_stamped_def dict_cache_entry_free_def zero_less_max_word)
  then show ?thesis
    using dict_cache_put_refines [of "dict_cache_create 1" "''k''" "''v''"] create_inv [of 1]
    by (simp add: lru_put_def lru_view_def by_recency_def dict_cache_create_def
        dict_cache_entry_free_def lru_pair_def)
qed

text \<open>\<^verbatim>\<open>dict_cache_get\<close> refines the abstract LRU list: it returns the value of the key and
  moves the pair to the front; a miss changes nothing but the counter of misses.\<close>

theorem dict_cache_get_refines:
  assumes inv: "dc_inv c" and st: "dc_stamped c" and t: "dc_clock c < - 1" and key: "key \<noteq> []"
  shows "fst (dict_cache_get c key) = map_of (lru_view c) key \<and>
    lru_view (snd (dict_cache_get c key)) = lru_get key (lru_view c) \<and>
    dc_inv (snd (dict_cache_get c key)) \<and> dc_stamped (snd (dict_cache_get c key)) \<and>
    dc_hits (snd (dict_cache_get c key)) = dc_hits c + (if key \<in> dom (map_of (lru_view c)) then 1 else 0) \<and>
    dc_misses (snd (dict_cache_get c key)) = dc_misses c + (if key \<in> dom (map_of (lru_view c)) then 0 else 1)"
proof -
  have val: "map_of (lru_view c) key = dc_lookup c key" by (rule view_lookup [OF inv st])
  have gi: "dc_inv (snd (dict_cache_get c key))" by (rule get_inv [OF inv])
  show ?thesis
  proof (cases "dict_cache_find c key")
    case None
    then have "dc_lookup c key = None" by (simp add: dc_lookup_def)
    then show ?thesis
      using None key gi st val
      by (auto simp: dict_cache_get_def lru_get_def lru_view_def dc_stamped_def)
  next
    case (Some i)
    have u: "unique_keys (dc_entries c)" using inv by (simp add: dc_inv_def)
    have i: "i < length (dc_entries c)" "dc_key (dc_entries c ! i) = Some key"
      using Some find_key [OF u] by auto
    let ?e = "(dc_entries c ! i)\<lparr>dc_last_used := dc_clock c + 1\<rparr>"
    have look: "dc_lookup c key = Some (dc_json (dc_entries c ! i))"
      by (simp add: dc_lookup_def Some)
    note upd = by_recency_update [OF st t u i(1), of ?e]
    have "lru_view (snd (dict_cache_get c key))
        = (key, dc_json (dc_entries c ! i)) # filter (\<lambda>p. fst p \<noteq> key) (lru_view c)"
      using upd(1) i filter_view [OF u i] by (simp add: get_hit [OF key Some] lru_view_def lru_pair_def)
    then have "lru_view (snd (dict_cache_get c key)) = lru_get key (lru_view c)"
      unfolding lru_get_def val look by simp
    moreover have "dc_stamped (snd (dict_cache_get c key))"
      using upd(2) i(2) unfolding get_hit [OF key Some] by (simp add: dc_stamped_def)
    ultimately show ?thesis
      using gi val look by (simp add: get_hit [OF key Some] dom_def)
  qed
qed

theorem dict_cache_get_refines_witness:
  "fst (dict_cache_get (dict_cache_create 2) ''k'') = None \<and>
   dc_misses (snd (dict_cache_get (dict_cache_create 2) ''k'')) = 1"
proof -
  have "dc_stamped (dict_cache_create 2)" "dc_clock (dict_cache_create 2) < - 1"
    by (auto simp: dict_cache_create_def dc_stamped_def dict_cache_entry_free_def zero_less_max_word)
  then show ?thesis
    using dict_cache_get_refines [of "dict_cache_create 2" "''k''"] create_inv [of 2]
    by (simp add: lru_view_def by_recency_def dict_cache_create_def
        dict_cache_entry_free_def numeral_2_eq_2)
qed

end
