(* ===== verification/Thread_Pool.thy ===== *)
theory Thread_Pool
  imports Prelude
begin

text \<open>
  The worker pool of \<^verbatim>\<open>src/threadpool.c\<close>. The parallel arrays \<^verbatim>\<open>worker_alive\<close>,
  \<^verbatim>\<open>worker_retiring\<close> and \<^verbatim>\<open>workers\<close> are one list of 64 slots; the linked list of jobs is a
  list. Every critical section of the pool's mutex is a function, and a worker thread's
  position between two of them is the program point of its slot. Condition variables are
  not modelled: a waiting worker may run whenever the guard of its wait loop is false,
  which covers every wake-up, spurious ones included. Whether \<^verbatim>\<open>pthread_create\<close> succeeds for
  a slot is the parameter \<open>spawn\<close>.
\<close>

section \<open>The code\<close>

datatype 'j worker = Absent | Waiting | Running 'j | Exited

record 'j worker_slot =
  worker_alive :: bool
  worker_retiring :: bool
  worker_pc :: "'j worker"

record 'j threadpool =
  tp_slots :: "'j worker_slot list"
  tp_n_workers :: int
  tp_floor_workers :: int
  tp_jobs :: "'j list"
  tp_queue_depth :: int
  tp_queue_max :: int
  tp_rejected_total :: "64 word"
  tp_active_workers :: int
  tp_shutdown :: bool
  tp_submit_closed :: bool
  tp_monitor_should_exit :: bool
  tp_high_consecutive :: int
  tp_low_consecutive :: int
  tp_skip_samples :: int

definition tp_abs_max :: nat where "tp_abs_max = 64"
definition tp_soft_max :: int where "tp_soft_max = 16"
definition tp_step :: int where "tp_step = 4"
definition tp_high_water_pct :: int where "tp_high_water_pct = 80"
definition tp_low_water_pct :: int where "tp_low_water_pct = 30"
definition tp_high_samples :: int where "tp_high_samples = 3"
definition tp_low_samples :: int where "tp_low_samples = 30"
definition tp_hysteresis_samples :: int where "tp_hysteresis_samples = 2"
definition tp_queue_max_default :: int where "tp_queue_max_default = 256"

definition set_slot :: "'j threadpool \<Rightarrow> nat \<Rightarrow> 'j worker_slot \<Rightarrow> 'j threadpool" where
  "set_slot tp s w = tp\<lparr>tp_slots := (tp_slots tp)[s := w]\<rparr>"

fun expand_loop :: "(nat \<Rightarrow> bool) \<Rightarrow> int \<Rightarrow> nat list \<Rightarrow> int \<Rightarrow> 'j threadpool \<Rightarrow> int \<times> 'j threadpool" where
  "expand_loop spawn new_n [] added tp = (added, tp)"
| "expand_loop spawn new_n (s # ss) added tp =
     (if \<not> tp_n_workers tp + added < new_n then (added, tp)
      else let w = tp_slots tp ! s in
        if worker_alive w then expand_loop spawn new_n ss added tp
        else if \<not> spawn s then (added, set_slot tp s (w\<lparr>worker_retiring := False\<rparr>))
        else expand_loop spawn new_n ss (added + 1)
               (set_slot tp s \<lparr>worker_alive = True, worker_retiring = False, worker_pc = Waiting\<rparr>))"

definition threadpool_expand_locked :: "(nat \<Rightarrow> bool) \<Rightarrow> 'j threadpool \<Rightarrow> int \<Rightarrow> int \<times> 'j threadpool" where
  "threadpool_expand_locked spawn tp new_n0 =
     (let new_n = min new_n0 (int tp_abs_max) in
      if new_n \<le> tp_n_workers tp then (0, tp)
      else let (added, tp1) = expand_loop spawn new_n [0..<tp_abs_max] 0 tp
           in (added, tp1\<lparr>tp_n_workers := tp_n_workers tp1 + added\<rparr>))"

fun retire_loop :: "int \<Rightarrow> int \<Rightarrow> nat list \<Rightarrow> nat list \<Rightarrow> 'j threadpool \<Rightarrow> nat list \<times> 'j threadpool" where
  "retire_loop n_retire out_cap [] marked tp = (marked, tp)"
| "retire_loop n_retire out_cap (s # ss) marked tp =
     (if \<not> (int (length marked) < n_retire \<and> int (length marked) < out_cap) then (marked, tp)
      else let w = tp_slots tp ! s in
        if worker_alive w \<and> \<not> worker_retiring w
        then retire_loop n_retire out_cap ss (marked @ [s]) (set_slot tp s (w\<lparr>worker_retiring := True\<rparr>))
        else retire_loop n_retire out_cap ss marked tp)"

definition threadpool_mark_retire_locked :: "'j threadpool \<Rightarrow> int \<Rightarrow> int \<Rightarrow> nat list \<times> 'j threadpool" where
  "threadpool_mark_retire_locked tp new_n0 out_cap =
     (let new_n = max new_n0 (tp_floor_workers tp) in
      if tp_n_workers tp \<le> new_n then ([], tp)
      else let (slots, tp1) = retire_loop (tp_n_workers tp - new_n) out_cap (rev [0..<tp_abs_max]) [] tp
           in (slots, tp1\<lparr>tp_n_workers := tp_n_workers tp1 - int (length slots)\<rparr>))"

text \<open>One round of \<^verbatim>\<open>threadpool_join_retired\<close>, after \<^verbatim>\<open>pthread_join\<close> on the slot has returned.\<close>

definition join_retired :: "'j threadpool \<Rightarrow> nat \<Rightarrow> 'j threadpool" where
  "join_retired tp s = set_slot tp s \<lparr>worker_alive = False, worker_retiring = False, worker_pc = Absent\<rparr>"

text \<open>One sample of \<^verbatim>\<open>threadpool_monitor_main\<close>: the slots to join and the new state.\<close>

definition utilization_pct :: "'j threadpool \<Rightarrow> int" where
  "utilization_pct tp =
     (if 0 < tp_n_workers tp then tp_active_workers tp * 100 div tp_n_workers tp else 0)"

definition monitor_sample :: "(nat \<Rightarrow> bool) \<Rightarrow> 'j threadpool \<Rightarrow> nat list \<times> 'j threadpool" where
  "monitor_sample spawn tp =
     (if tp_monitor_should_exit tp \<or> tp_shutdown tp then ([], tp)
      else if 0 < tp_skip_samples tp then ([], tp\<lparr>tp_skip_samples := tp_skip_samples tp - 1\<rparr>)
      else let cur_n = tp_n_workers tp; util = utilization_pct tp in
        if tp_high_water_pct \<le> util then
          (let tp1 = tp\<lparr>tp_high_consecutive := tp_high_consecutive tp + 1, tp_low_consecutive := 0\<rparr>
           in if tp_high_samples \<le> tp_high_consecutive tp1 \<and> cur_n < tp_soft_max then
                ([], (snd (threadpool_expand_locked spawn tp1 (min (cur_n + tp_step) tp_soft_max)))
                   \<lparr>tp_skip_samples := tp_hysteresis_samples, tp_high_consecutive := 0\<rparr>)
              else ([], tp1))
        else if util \<le> tp_low_water_pct then
          (let tp1 = tp\<lparr>tp_low_consecutive := tp_low_consecutive tp + 1, tp_high_consecutive := 0\<rparr>
           in if tp_low_samples \<le> tp_low_consecutive tp1 \<and> tp_floor_workers tp < cur_n then
                (let (slots, tp2) = threadpool_mark_retire_locked tp1
                        (max (cur_n - tp_step) (tp_floor_workers tp)) tp_step
                 in (slots, tp2\<lparr>tp_skip_samples := tp_hysteresis_samples, tp_low_consecutive := 0\<rparr>))
              else ([], tp1))
        else ([], tp\<lparr>tp_high_consecutive := 0, tp_low_consecutive := 0\<rparr>))"

definition threadpool_create :: "(nat \<Rightarrow> bool) \<Rightarrow> int \<Rightarrow> 'j threadpool option" where
  "threadpool_create spawn n =
     (if n \<le> 0 \<or> int tp_abs_max < n then None
      else let tp = \<lparr>tp_slots = replicate tp_abs_max
                       \<lparr>worker_alive = False, worker_retiring = False, worker_pc = Absent\<rparr>,
                     tp_n_workers = 0, tp_floor_workers = n, tp_jobs = [], tp_queue_depth = 0,
                     tp_queue_max = tp_queue_max_default, tp_rejected_total = 0, tp_active_workers = 0,
                     tp_shutdown = False, tp_submit_closed = False, tp_monitor_should_exit = False,
                     tp_high_consecutive = 0, tp_low_consecutive = 0, tp_skip_samples = 0\<rparr>;
               (added, tp1) = threadpool_expand_locked spawn tp n
           in if added \<noteq> n then None else Some tp1)"

definition threadpool_submit :: "'j threadpool \<Rightarrow> 'j \<Rightarrow> int \<times> 'j threadpool" where
  "threadpool_submit tp job =
     (if tp_shutdown tp \<or> tp_submit_closed tp then (-1, tp)
      else if 0 < tp_queue_max tp \<and> tp_queue_max tp \<le> tp_queue_depth tp
      then (-1, tp\<lparr>tp_rejected_total := tp_rejected_total tp + 1\<rparr>)
      else (0, tp\<lparr>tp_jobs := tp_jobs tp @ [job], tp_queue_depth := tp_queue_depth tp + 1\<rparr>))"

definition threadpool_resize :: "(nat \<Rightarrow> bool) \<Rightarrow> 'j threadpool \<Rightarrow> int \<Rightarrow> int \<times> nat list \<times> 'j threadpool" where
  "threadpool_resize spawn tp n0 =
     (if n0 \<le> 0 then (-1, [], tp)
      else if tp_shutdown tp \<or> tp_submit_closed tp then (-1, [], tp)
      else let n = max (min n0 tp_soft_max) (tp_floor_workers tp) in
        if tp_n_workers tp < n then (0, [], snd (threadpool_expand_locked spawn tp n))
        else if n < tp_n_workers tp then (0, threadpool_mark_retire_locked tp n (int tp_abs_max))
        else (0, [], tp))"

definition threadpool_set_queue_max :: "'j threadpool \<Rightarrow> int \<Rightarrow> int \<times> 'j threadpool" where
  "threadpool_set_queue_max tp m =
     (if m < 0 then (-1, tp) else (tp_queue_max tp, tp\<lparr>tp_queue_max := m\<rparr>))"

text \<open>The critical sections of a worker: taking a job, reporting it done, leaving.\<close>

definition worker_take :: "'j threadpool \<Rightarrow> nat \<Rightarrow> 'j threadpool" where
  "worker_take tp s =
     (set_slot tp s ((tp_slots tp ! s)\<lparr>worker_pc := Running (hd (tp_jobs tp))\<rparr>))
       \<lparr>tp_jobs := tl (tp_jobs tp), tp_queue_depth := tp_queue_depth tp - 1,
        tp_active_workers := tp_active_workers tp + 1\<rparr>"

definition worker_done :: "'j threadpool \<Rightarrow> nat \<Rightarrow> 'j threadpool" where
  "worker_done tp s =
     (set_slot tp s ((tp_slots tp ! s)\<lparr>worker_pc := Waiting\<rparr>))
       \<lparr>tp_active_workers := tp_active_workers tp - 1\<rparr>"

definition worker_exit :: "'j threadpool \<Rightarrow> nat \<Rightarrow> 'j threadpool" where
  "worker_exit tp s = set_slot tp s ((tp_slots tp ! s)\<lparr>worker_pc := Exited\<rparr>)"

text \<open>The critical sections of the two shutdown functions.\<close>

definition threadpool_stop_monitor :: "'j threadpool \<Rightarrow> 'j threadpool" where
  "threadpool_stop_monitor tp = tp\<lparr>tp_monitor_should_exit := True\<rparr>"

definition threadpool_close_submit :: "'j threadpool \<Rightarrow> 'j threadpool" where
  "threadpool_close_submit tp = tp\<lparr>tp_submit_closed := True\<rparr>"

definition threadpool_drained :: "'j threadpool \<Rightarrow> bool" where
  "threadpool_drained tp \<longleftrightarrow> \<not> (0 < tp_queue_depth tp \<or> 0 < tp_active_workers tp)"

definition threadpool_set_shutdown :: "'j threadpool \<Rightarrow> 'j threadpool" where
  "threadpool_set_shutdown tp = tp\<lparr>tp_shutdown := True\<rparr>"

definition shutdown_join :: "'j threadpool \<Rightarrow> nat \<Rightarrow> 'j threadpool" where
  "shutdown_join tp s =
     set_slot tp s ((tp_slots tp ! s)\<lparr>worker_alive := False, worker_pc := Absent\<rparr>)"

definition threadpool_free_jobs :: "'j threadpool \<Rightarrow> 'j threadpool" where
  "threadpool_free_jobs tp = tp\<lparr>tp_jobs := [], tp_queue_depth := 0\<rparr>"

section \<open>The pool as a step relation\<close>

text \<open>
  A run is the pool with three logs: the jobs whose submission returned 0, those a worker
  took, and those whose function returned. \<open>dropped\<close> holds what \<^verbatim>\<open>threadpool_free_jobs\<close>
  frees unexecuted at the end of a shutdown.
\<close>

record 'j pool_run =
  pool :: "'j threadpool"
  accepted :: "'j list"
  started :: "'j list"
  finished :: "'j list"
  dropped :: "'j list"

definition at_slot :: "'j pool_run \<Rightarrow> nat \<Rightarrow> 'j worker_slot" where
  "at_slot r s = tp_slots (pool r) ! s"

inductive pool_step :: "'j pool_run \<Rightarrow> 'j pool_run \<Rightarrow> bool" where
  step_submit: "threadpool_submit (pool r) j = (rc, tp) \<Longrightarrow>
    pool_step r (r\<lparr>pool := tp, accepted := (if rc = 0 then accepted r @ [j] else accepted r)\<rparr>)"
| step_take: "s < tp_abs_max \<Longrightarrow> worker_pc (at_slot r s) = Waiting \<Longrightarrow> tp_jobs (pool r) \<noteq> [] \<Longrightarrow>
    \<not> tp_shutdown (pool r) \<Longrightarrow> \<not> worker_retiring (at_slot r s) \<Longrightarrow>
    pool_step r (r\<lparr>pool := worker_take (pool r) s, started := started r @ [hd (tp_jobs (pool r))]\<rparr>)"
| step_done: "s < tp_abs_max \<Longrightarrow> worker_pc (at_slot r s) = Running j \<Longrightarrow>
    pool_step r (r\<lparr>pool := worker_done (pool r) s, finished := finished r @ [j]\<rparr>)"
| step_exit: "s < tp_abs_max \<Longrightarrow> worker_pc (at_slot r s) = Waiting \<Longrightarrow>
    tp_shutdown (pool r) \<or> worker_retiring (at_slot r s) \<Longrightarrow>
    pool_step r (r\<lparr>pool := worker_exit (pool r) s\<rparr>)"
| step_join: "s < tp_abs_max \<Longrightarrow> worker_alive (at_slot r s) \<Longrightarrow> worker_retiring (at_slot r s) \<Longrightarrow>
    worker_pc (at_slot r s) = Exited \<Longrightarrow>
    pool_step r (r\<lparr>pool := join_retired (pool r) s\<rparr>)"
| step_sample: "pool_step r (r\<lparr>pool := snd (monitor_sample spawn (pool r))\<rparr>)"
| step_resize: "pool_step r (r\<lparr>pool := snd (snd (threadpool_resize spawn (pool r) n))\<rparr>)"
| step_queue_max: "pool_step r (r\<lparr>pool := snd (threadpool_set_queue_max (pool r) m)\<rparr>)"
| step_close: "pool_step r (r\<lparr>pool := threadpool_close_submit (pool r)\<rparr>)"
| step_stop_monitor: "pool_step r (r\<lparr>pool := threadpool_stop_monitor (pool r)\<rparr>)"
| step_shutdown: "pool_step r (r\<lparr>pool := threadpool_set_shutdown (pool r)\<rparr>)"
| step_shutdown_join: "s < tp_abs_max \<Longrightarrow> tp_shutdown (pool r) \<Longrightarrow> worker_alive (at_slot r s) \<Longrightarrow>
    worker_pc (at_slot r s) = Exited \<Longrightarrow> pool_step r (r\<lparr>pool := shutdown_join (pool r) s\<rparr>)"
| step_free: "tp_shutdown (pool r) \<Longrightarrow> \<forall>s < tp_abs_max. \<not> worker_alive (at_slot r s) \<Longrightarrow>
    pool_step r (r\<lparr>pool := threadpool_free_jobs (pool r), dropped := dropped r @ tp_jobs (pool r)\<rparr>)"

definition pool_init :: "'j pool_run \<Rightarrow> bool" where
  "pool_init r \<longleftrightarrow> (\<exists>spawn n tp. threadpool_create spawn n = Some tp \<and>
     r = \<lparr>pool = tp, accepted = [], started = [], finished = [], dropped = []\<rparr>)"

section \<open>The invariant\<close>

abbreviation live :: "'j worker_slot \<Rightarrow> bool" where
  "live w \<equiv> worker_alive w \<and> \<not> worker_retiring w"

definition running :: "'j worker_slot \<Rightarrow> bool" where
  "running w = (case worker_pc w of Running j \<Rightarrow> True | _ \<Rightarrow> False)"

definition slot_jobs :: "'j worker_slot \<Rightarrow> 'j list" where
  "slot_jobs w = (case worker_pc w of Running j \<Rightarrow> [j] | _ \<Rightarrow> [])"

definition count_slots :: "('j worker_slot \<Rightarrow> bool) \<Rightarrow> 'j threadpool \<Rightarrow> int" where
  "count_slots P tp = int (length (filter P (tp_slots tp)))"

definition in_hand :: "'j threadpool \<Rightarrow> 'j multiset" where
  "in_hand tp = mset (concat (map slot_jobs (tp_slots tp)))"

definition slot_ok :: "bool \<Rightarrow> 'j worker_slot \<Rightarrow> bool" where
  "slot_ok shut w \<longleftrightarrow> (worker_pc w = Absent \<longleftrightarrow> \<not> worker_alive w) \<and>
     (worker_pc w = Exited \<longrightarrow> shut \<or> worker_retiring w) \<and>
     (worker_retiring w \<longrightarrow> worker_alive w \<or> shut)"

definition tp_inv :: "'j threadpool \<Rightarrow> bool" where
  "tp_inv tp \<longleftrightarrow> length (tp_slots tp) = tp_abs_max \<and>
     (\<forall>w \<in> set (tp_slots tp). slot_ok (tp_shutdown tp) w) \<and>
     tp_queue_depth tp = int (length (tp_jobs tp)) \<and>
     tp_active_workers tp = count_slots running tp \<and>
     1 \<le> tp_floor_workers tp \<and> tp_floor_workers tp \<le> int tp_abs_max \<and>
     tp_floor_workers tp \<le> tp_n_workers tp \<and> tp_n_workers tp \<le> max (tp_floor_workers tp) tp_soft_max \<and>
     (\<not> tp_shutdown tp \<longrightarrow> tp_n_workers tp = count_slots live tp)"

definition run_inv :: "'j pool_run \<Rightarrow> bool" where
  "run_inv r \<longleftrightarrow> tp_inv (pool r) \<and>
     accepted r = started r @ dropped r @ tp_jobs (pool r) \<and>
     (dropped r \<noteq> [] \<longrightarrow> tp_shutdown (pool r)) \<and>
     mset (started r) = mset (finished r) + in_hand (pool r)"

lemma count_update:
  "s < length (tp_slots tp) \<Longrightarrow> count_slots P (set_slot tp s w)
     = count_slots P tp - (if P (tp_slots tp ! s) then 1 else 0) + (if P w then 1 else 0)"
  using length_filter_update [of s "tp_slots tp" P w]
  unfolding count_slots_def set_slot_def by (simp split: if_splits)

lemma mset_concat_update:
  "i < length xs \<Longrightarrow> mset (concat (xs[i := y])) + mset (xs ! i) = mset (concat xs) + mset y"
proof (induction xs arbitrary: i)
  case (Cons x xs)
  then show ?case by (cases i) (auto simp: ac_simps)
qed simp

lemma in_hand_update:
  "s < length (tp_slots tp) \<Longrightarrow> in_hand (set_slot tp s w) + mset (slot_jobs (tp_slots tp ! s))
     = in_hand tp + mset (slot_jobs w)"
  using mset_concat_update [of s "map slot_jobs (tp_slots tp)" "slot_jobs w"]
  by (simp add: in_hand_def set_slot_def map_update)

text \<open>What adding and retiring workers leaves alone.\<close>

definition same_queue :: "'j threadpool \<Rightarrow> 'j threadpool \<Rightarrow> bool" where
  "same_queue tp tp' \<longleftrightarrow> length (tp_slots tp') = length (tp_slots tp) \<and>
     tp_n_workers tp' = tp_n_workers tp \<and> tp_floor_workers tp' = tp_floor_workers tp \<and>
     tp_jobs tp' = tp_jobs tp \<and> tp_queue_depth tp' = tp_queue_depth tp \<and>
     tp_active_workers tp' = tp_active_workers tp \<and> tp_shutdown tp' = tp_shutdown tp \<and>
     tp_submit_closed tp' = tp_submit_closed tp \<and> tp_queue_max tp' = tp_queue_max tp \<and>
     count_slots running tp' = count_slots running tp \<and> in_hand tp' = in_hand tp"

lemma same_queue_refl [simp]: "same_queue tp tp"
  by (simp add: same_queue_def)

lemma same_queue_trans: "same_queue a b \<Longrightarrow> same_queue b c \<Longrightarrow> same_queue a c"
  by (simp add: same_queue_def)

lemma same_queue_set_slot:
  assumes "s < length (tp_slots tp)" "running w = running (tp_slots tp ! s)"
    "slot_jobs w = slot_jobs (tp_slots tp ! s)"
  shows "same_queue tp (set_slot tp s w)"
proof -
  have "count_slots running (set_slot tp s w) = count_slots running tp"
    using count_update [OF assms(1), of running w] assms(2) by simp
  moreover have "in_hand (set_slot tp s w) = in_hand tp"
    using in_hand_update [OF assms(1), of w] by (simp only: assms(3) add_right_cancel)
  ultimately show ?thesis by (simp add: same_queue_def) (simp add: set_slot_def)
qed

lemma slots_set_slot [simp]: "tp_slots (set_slot tp s w) = (tp_slots tp)[s := w]"
  by (simp add: set_slot_def)

lemma set_slot_ok:
  "\<forall>w \<in> set (tp_slots tp). slot_ok b w \<Longrightarrow> slot_ok b w' \<Longrightarrow> \<forall>w \<in> set (tp_slots (set_slot tp s w')). slot_ok b w"
  unfolding slots_set_slot by (rule all_nth_update)

lemma running_simps [simp]:
  "running \<lparr>worker_alive = a, worker_retiring = b, worker_pc = Waiting\<rparr> = False"
  "running \<lparr>worker_alive = a, worker_retiring = b, worker_pc = Absent\<rparr> = False"
  "slot_jobs \<lparr>worker_alive = a, worker_retiring = b, worker_pc = Waiting\<rparr> = []"
  "slot_jobs \<lparr>worker_alive = a, worker_retiring = b, worker_pc = Absent\<rparr> = []"
  "running (w\<lparr>worker_retiring := b\<rparr>) = running w"
  "slot_jobs (w\<lparr>worker_retiring := b\<rparr>) = slot_jobs w"
  by (simp_all add: running_def slot_jobs_def)

lemma slot_ok_dead:
  "slot_ok False w \<Longrightarrow> \<not> worker_alive w \<Longrightarrow> \<not> running w \<and> slot_jobs w = [] \<and> \<not> worker_retiring w"
  by (auto simp: slot_ok_def running_def slot_jobs_def)

lemma expand_loop_correct:
  assumes "expand_loop spawn new_n ss added tp = (added', tp')"
    and "\<forall>s \<in> set ss. s < length (tp_slots tp)" and "\<forall>w \<in> set (tp_slots tp). slot_ok False w"
    and "tp_n_workers tp + added \<le> new_n"
  shows "same_queue tp tp' \<and> (\<forall>w \<in> set (tp_slots tp'). slot_ok False w) \<and>
    count_slots live tp' = count_slots live tp + (added' - added) \<and> added \<le> added' \<and>
    tp_n_workers tp + added' \<le> new_n"
  using assms
proof (induction spawn new_n ss added tp rule: expand_loop.induct)
  case (2 spawn new_n s ss added tp)
  let ?w = "tp_slots tp ! s"
  have s: "s < length (tp_slots tp)" and ok: "slot_ok False ?w" using "2.prems" by auto
  show ?case
  proof (cases "tp_n_workers tp + added < new_n")
    case False
    then show ?thesis using "2.prems" by simp
  next
    case more: True
    show ?thesis
    proof (cases "worker_alive ?w")
      case True
      then show ?thesis using "2.IH"(1) [of ?w] more "2.prems" by simp
    next
      case dead: False
      note d = slot_ok_dead [OF ok dead]
      show ?thesis
      proof (cases "spawn s")
        case False
        have "?w\<lparr>worker_retiring := False\<rparr> = ?w" using d by (cases ?w) simp
        then have "set_slot tp s (?w\<lparr>worker_retiring := False\<rparr>) = tp" by (simp add: set_slot_def)
        then show ?thesis using "2.prems" more dead False by (simp add: Let_def)
      next
        case True
        let ?n = "\<lparr>worker_alive = True, worker_retiring = False, worker_pc = Waiting\<rparr>"
        let ?tp = "set_slot tp s ?n"
        have q: "same_queue tp ?tp" using d by (intro same_queue_set_slot [OF s]) auto
        have "slot_ok False ?n" by (simp add: slot_ok_def)
        then have o: "\<forall>w \<in> set (tp_slots ?tp). slot_ok False w"
          using set_slot_ok "2.prems"(3) by blast
        have "same_queue ?tp tp' \<and> (\<forall>w \<in> set (tp_slots tp'). slot_ok False w) \<and>
            count_slots live tp' = count_slots live ?tp + (added' - (added + 1)) \<and> added + 1 \<le> added' \<and>
            tp_n_workers ?tp + added' \<le> new_n"
          using "2.prems" more dead True q o
          by (intro "2.IH"(2) [of ?w]) (auto simp: Let_def same_queue_def)
        then show ?thesis
          using q dead s by (auto simp: count_update same_queue_def)
      qed
    qed
  qed
qed simp

lemma retire_loop_correct:
  assumes "retire_loop n cap ss marked tp = (marked', tp')"
    and "\<forall>s \<in> set ss. s < length (tp_slots tp)" and "\<forall>w \<in> set (tp_slots tp). slot_ok False w"
    and "int (length marked) \<le> n"
  shows "same_queue tp tp' \<and> (\<forall>w \<in> set (tp_slots tp'). slot_ok False w) \<and>
    count_slots live tp' = count_slots live tp - (int (length marked') - int (length marked)) \<and>
    int (length marked') \<le> n"
  using assms
proof (induction n cap ss marked tp rule: retire_loop.induct)
  case (2 n cap s ss marked tp)
  let ?w = "tp_slots tp ! s"
  have s: "s < length (tp_slots tp)" and ok: "slot_ok False ?w" using "2.prems" by auto
  show ?case
  proof (cases "int (length marked) < n \<and> int (length marked) < cap")
    case False
    then have "retire_loop n cap (s # ss) marked tp = (marked, tp)"
      by (cases "int (length marked) < n") simp_all
    then show ?thesis using "2.prems" by simp
  next
    case more: True
    show ?thesis
    proof (cases "live ?w")
      case False
      then have "retire_loop n cap (s # ss) marked tp = retire_loop n cap ss marked tp"
        using more by (cases "worker_alive ?w") (simp_all add: Let_def)
      then show ?thesis using "2.IH"(2) [OF _ refl False] more "2.prems" by simp
    next
      case True
      let ?tp = "set_slot tp s (?w\<lparr>worker_retiring := True\<rparr>)"
      have q: "same_queue tp ?tp" by (intro same_queue_set_slot [OF s]) auto
      have "slot_ok False (?w\<lparr>worker_retiring := True\<rparr>)" using ok True by (auto simp: slot_ok_def)
      then have o: "\<forall>w \<in> set (tp_slots ?tp). slot_ok False w"
        using set_slot_ok "2.prems"(3) by blast
      have "same_queue ?tp tp' \<and> (\<forall>w \<in> set (tp_slots tp'). slot_ok False w) \<and>
          count_slots live tp' = count_slots live ?tp - (int (length marked') - int (length (marked @ [s]))) \<and>
          int (length marked') \<le> n"
        using "2.prems" more True q o by (intro "2.IH"(1) [of ?w]) (auto simp: Let_def same_queue_def)
      then show ?thesis
        using q True s by (auto simp: count_update same_queue_def)
    qed
  qed
qed simp

section \<open>Every step keeps the invariant\<close>

definition same_logs :: "'j threadpool \<Rightarrow> 'j threadpool \<Rightarrow> bool" where
  "same_logs tp tp' \<longleftrightarrow> tp_jobs tp' = tp_jobs tp \<and> tp_shutdown tp' = tp_shutdown tp \<and>
     tp_submit_closed tp' = tp_submit_closed tp \<and> tp_queue_depth tp' = tp_queue_depth tp \<and>
     tp_active_workers tp' = tp_active_workers tp \<and> in_hand tp' = in_hand tp"

lemma expand_locked_correct:
  assumes "tp_inv tp" "\<not> tp_shutdown tp" "new_n \<le> max (tp_floor_workers tp) tp_soft_max"
    and "threadpool_expand_locked spawn tp new_n = (added, tp')"
  shows "tp_inv tp' \<and> same_logs tp tp' \<and> tp_n_workers tp' = tp_n_workers tp + added \<and> 0 \<le> added \<and>
    (tp_n_workers tp \<le> new_n \<longrightarrow> tp_n_workers tp' \<le> new_n)"
proof (cases "min new_n (int tp_abs_max) \<le> tp_n_workers tp")
  case True
  then show ?thesis using assms by (simp add: threadpool_expand_locked_def same_logs_def)
next
  case False
  let ?m = "min new_n (int tp_abs_max)"
  obtain tp1 where l: "expand_loop spawn ?m [0..<tp_abs_max] 0 tp = (added, tp1)"
    and tp': "tp' = tp1\<lparr>tp_n_workers := tp_n_workers tp1 + added\<rparr>"
    using assms(4) False by (auto simp: threadpool_expand_locked_def Let_def split: prod.splits)
  have c: "same_queue tp tp1 \<and> (\<forall>w \<in> set (tp_slots tp1). slot_ok False w) \<and>
      count_slots live tp1 = count_slots live tp + (added - 0) \<and> 0 \<le> added \<and> tp_n_workers tp + added \<le> ?m"
    using assms(1,2) False by (intro expand_loop_correct [OF l]) (auto simp: tp_inv_def)
  have "tp_inv tp'"
    using assms(1-3) c unfolding tp' by (auto simp: tp_inv_def same_queue_def count_slots_def)
  moreover have "same_logs tp tp'"
    using c unfolding tp' same_logs_def same_queue_def by (simp add: in_hand_def)
  ultimately show ?thesis using c tp' by (simp add: same_queue_def)
qed

lemma mark_retire_correct:
  assumes "tp_inv tp" "\<not> tp_shutdown tp"
    and "threadpool_mark_retire_locked tp new_n cap = (slots, tp')"
  shows "tp_inv tp' \<and> same_logs tp tp' \<and> tp_n_workers tp' = tp_n_workers tp - int (length slots) \<and>
    (new_n \<le> tp_n_workers tp \<longrightarrow> new_n \<le> tp_n_workers tp')"
proof (cases "tp_n_workers tp \<le> max new_n (tp_floor_workers tp)")
  case True
  then show ?thesis using assms by (auto simp: threadpool_mark_retire_locked_def same_logs_def)
next
  case False
  let ?m = "max new_n (tp_floor_workers tp)"
  obtain tp1 where l: "retire_loop (tp_n_workers tp - ?m) cap (rev [0..<tp_abs_max]) [] tp = (slots, tp1)"
    and tp': "tp' = tp1\<lparr>tp_n_workers := tp_n_workers tp1 - int (length slots)\<rparr>"
    using assms(3) False by (auto simp: threadpool_mark_retire_locked_def Let_def split: prod.splits)
  have c: "same_queue tp tp1 \<and> (\<forall>w \<in> set (tp_slots tp1). slot_ok False w) \<and>
      count_slots live tp1 = count_slots live tp - (int (length slots) - int (length ([]::nat list))) \<and>
      int (length slots) \<le> tp_n_workers tp - ?m"
    using assms(1,2) False by (intro retire_loop_correct [OF l]) (auto simp: tp_inv_def)
  have "tp_inv tp'"
    using assms(1,2) c unfolding tp' by (auto simp: tp_inv_def same_queue_def count_slots_def)
  moreover have "same_logs tp tp'"
    using c unfolding tp' same_logs_def same_queue_def by (simp add: in_hand_def)
  ultimately show ?thesis using c tp' by (auto simp: same_queue_def max_def split: if_splits)
qed

text \<open>Fields the invariant does not read.\<close>

lemma tp_inv_counters [simp]:
  "tp_inv (tp\<lparr>tp_high_consecutive := a\<rparr>) = tp_inv tp"
  "tp_inv (tp\<lparr>tp_low_consecutive := a\<rparr>) = tp_inv tp"
  "tp_inv (tp\<lparr>tp_skip_samples := a\<rparr>) = tp_inv tp"
  "tp_inv (tp\<lparr>tp_rejected_total := u\<rparr>) = tp_inv tp"
  "tp_inv (tp\<lparr>tp_queue_max := a\<rparr>) = tp_inv tp"
  "tp_inv (tp\<lparr>tp_submit_closed := b\<rparr>) = tp_inv tp"
  "tp_inv (tp\<lparr>tp_monitor_should_exit := b\<rparr>) = tp_inv tp"
  by (simp_all add: tp_inv_def count_slots_def)

lemma count_slots_counters [simp]:
  "count_slots P (tp\<lparr>tp_high_consecutive := a\<rparr>) = count_slots P tp"
  "count_slots P (tp\<lparr>tp_low_consecutive := a\<rparr>) = count_slots P tp"
  "count_slots P (tp\<lparr>tp_skip_samples := a\<rparr>) = count_slots P tp"
  "count_slots P (tp\<lparr>tp_rejected_total := u\<rparr>) = count_slots P tp"
  "count_slots P (tp\<lparr>tp_queue_max := a\<rparr>) = count_slots P tp"
  "count_slots P (tp\<lparr>tp_submit_closed := b\<rparr>) = count_slots P tp"
  "count_slots P (tp\<lparr>tp_monitor_should_exit := b\<rparr>) = count_slots P tp"
  "count_slots P (tp\<lparr>tp_shutdown := b\<rparr>) = count_slots P tp"
  "count_slots P (tp\<lparr>tp_jobs := js\<rparr>) = count_slots P tp"
  "count_slots P (tp\<lparr>tp_queue_depth := a\<rparr>) = count_slots P tp"
  "count_slots P (tp\<lparr>tp_active_workers := a\<rparr>) = count_slots P tp"
  "count_slots P (tp\<lparr>tp_n_workers := a\<rparr>) = count_slots P tp"
  by (simp_all add: count_slots_def)

lemma in_hand_counters [simp]:
  "in_hand (tp\<lparr>tp_high_consecutive := a\<rparr>) = in_hand tp"
  "in_hand (tp\<lparr>tp_low_consecutive := a\<rparr>) = in_hand tp"
  "in_hand (tp\<lparr>tp_skip_samples := a\<rparr>) = in_hand tp"
  "in_hand (tp\<lparr>tp_rejected_total := u\<rparr>) = in_hand tp"
  "in_hand (tp\<lparr>tp_queue_max := a\<rparr>) = in_hand tp"
  "in_hand (tp\<lparr>tp_submit_closed := b\<rparr>) = in_hand tp"
  "in_hand (tp\<lparr>tp_monitor_should_exit := b\<rparr>) = in_hand tp"
  "in_hand (tp\<lparr>tp_shutdown := b\<rparr>) = in_hand tp"
  "in_hand (tp\<lparr>tp_jobs := js\<rparr>) = in_hand tp"
  "in_hand (tp\<lparr>tp_queue_depth := a\<rparr>) = in_hand tp"
  "in_hand (tp\<lparr>tp_active_workers := a\<rparr>) = in_hand tp"
  "in_hand (tp\<lparr>tp_n_workers := a\<rparr>) = in_hand tp"
  by (simp_all add: in_hand_def)

lemma monitor_sample_correct:
  assumes "tp_inv tp"
  shows "tp_inv (snd (monitor_sample spawn tp)) \<and> same_logs tp (snd (monitor_sample spawn tp)) \<and>
    \<bar>tp_n_workers (snd (monitor_sample spawn tp)) - tp_n_workers tp\<bar> \<le> tp_step"
proof (cases "tp_monitor_should_exit tp \<or> tp_shutdown tp \<or> 0 < tp_skip_samples tp")
  case True
  then show ?thesis using assms by (auto simp: monitor_sample_def same_logs_def tp_step_def)
next
  case False
  then have run: "\<not> tp_monitor_should_exit tp" "\<not> tp_shutdown tp" "\<not> 0 < tp_skip_samples tp" by auto
  let ?u = "tp\<lparr>tp_high_consecutive := tp_high_consecutive tp + 1, tp_low_consecutive := 0\<rparr>"
  let ?d = "tp\<lparr>tp_low_consecutive := tp_low_consecutive tp + 1, tp_high_consecutive := 0\<rparr>"
  let ?n = "min (tp_n_workers tp + tp_step) tp_soft_max"
  let ?m = "max (tp_n_workers tp - tp_step) (tp_floor_workers tp)"
  obtain added tp1 where e: "threadpool_expand_locked spawn ?u ?n = (added, tp1)" by fastforce
  obtain slots tp2 where r: "threadpool_mark_retire_locked ?d ?m tp_step = (slots, tp2)" by fastforce
  have E: "tp_inv tp1 \<and> same_logs ?u tp1 \<and> tp_n_workers tp1 = tp_n_workers ?u + added \<and> 0 \<le> added \<and>
      (tp_n_workers ?u \<le> ?n \<longrightarrow> tp_n_workers tp1 \<le> ?n)"
    using assms run by (intro expand_locked_correct [OF _ _ _ e]) auto
  have R: "tp_inv tp2 \<and> same_logs ?d tp2 \<and> tp_n_workers tp2 = tp_n_workers ?d - int (length slots) \<and>
      (?m \<le> tp_n_workers ?d \<longrightarrow> ?m \<le> tp_n_workers tp2)"
    using assms run by (intro mark_retire_correct [OF _ _ r]) auto
  show ?thesis
    using assms run E R e r
    by (auto simp: monitor_sample_def Let_def same_logs_def tp_step_def)
qed

lemma resize_correct:
  assumes "tp_inv tp"
  shows "tp_inv (snd (snd (threadpool_resize spawn tp n))) \<and>
    same_logs tp (snd (snd (threadpool_resize spawn tp n)))"
proof -
  let ?n = "max (min n tp_soft_max) (tp_floor_workers tp)"
  obtain added tp1 where e: "threadpool_expand_locked spawn tp ?n = (added, tp1)" by fastforce
  obtain slots tp2 where r: "threadpool_mark_retire_locked tp ?n (int tp_abs_max) = (slots, tp2)" by fastforce
  show ?thesis
  proof (cases "tp_shutdown tp")
    case True
    then show ?thesis using assms by (simp add: threadpool_resize_def same_logs_def)
  next
    case False
    have "tp_inv tp1 \<and> same_logs tp tp1"
      using expand_locked_correct [OF assms False _ e] by auto
    moreover have "tp_inv tp2 \<and> same_logs tp tp2"
      using mark_retire_correct [OF assms False r] by auto
    ultimately show ?thesis
      using assms e r by (auto simp: threadpool_resize_def Let_def same_logs_def)
  qed
qed

lemma set_slot_fields [simp]:
  "tp_n_workers (set_slot tp s w) = tp_n_workers tp" "tp_floor_workers (set_slot tp s w) = tp_floor_workers tp"
  "tp_jobs (set_slot tp s w) = tp_jobs tp" "tp_queue_depth (set_slot tp s w) = tp_queue_depth tp"
  "tp_active_workers (set_slot tp s w) = tp_active_workers tp" "tp_shutdown (set_slot tp s w) = tp_shutdown tp"
  "tp_submit_closed (set_slot tp s w) = tp_submit_closed tp" "tp_queue_max (set_slot tp s w) = tp_queue_max tp"
  by (simp_all add: set_slot_def)

lemma tp_inv_slot:
  assumes inv: "tp_inv tp" and s: "s < tp_abs_max" and ok: "slot_ok (tp_shutdown tp) w"
    and live: "\<not> tp_shutdown tp \<longrightarrow> live w = live (tp_slots tp ! s)"
    and act: "a = tp_active_workers tp - (if running (tp_slots tp ! s) then 1 else 0) + (if running w then 1 else 0)"
    and d: "d = int (length js)"
  shows "tp_inv ((set_slot tp s w)\<lparr>tp_jobs := js, tp_queue_depth := d, tp_active_workers := a\<rparr>)"
proof -
  have s': "s < length (tp_slots tp)" using inv s by (simp add: tp_inv_def)
  have "\<forall>w \<in> set ((tp_slots tp)[s := w]). slot_ok (tp_shutdown tp) w"
    using inv ok by (intro all_nth_update) (auto simp: tp_inv_def)
  moreover have "\<not> tp_shutdown tp \<longrightarrow> count_slots live (set_slot tp s w) = count_slots live tp"
    using live count_update [OF s', of live w] by auto
  ultimately show ?thesis
    using inv act d count_update [OF s', of running w] by (simp add: tp_inv_def)
qed

text \<open>A step that changes a slot which holds no job before or after.\<close>

definition idle_change :: "'j pool_run \<Rightarrow> nat \<Rightarrow> 'j worker_slot \<Rightarrow> bool" where
  "idle_change r s w \<longleftrightarrow> slot_ok (tp_shutdown (pool r)) w \<and>
     (\<not> tp_shutdown (pool r) \<longrightarrow> live w = live (at_slot r s)) \<and>
     \<not> running w \<and> \<not> running (at_slot r s)"

lemma running_jobs: "slot_jobs w = [] \<longleftrightarrow> \<not> running w"
  by (simp add: slot_jobs_def running_def split: worker.splits)

lemma run_inv_idle:
  assumes inv: "run_inv r" and s: "s < tp_abs_max" and ch: "idle_change r s w"
  shows "run_inv (r\<lparr>pool := set_slot (pool r) s w\<rparr>)"
proof -
  let ?tp = "pool r"
  have tp: "tp_inv ?tp" using inv by (simp add: run_inv_def)
  then have len: "s < length (tp_slots ?tp)" using s by (simp add: tp_inv_def)
  have "tp_inv ((set_slot ?tp s w)\<lparr>tp_jobs := tp_jobs ?tp, tp_queue_depth := tp_queue_depth ?tp,
      tp_active_workers := tp_active_workers ?tp\<rparr>)"
    using tp ch s by (intro tp_inv_slot) (auto simp: idle_change_def at_slot_def tp_inv_def)
  then have "tp_inv (set_slot ?tp s w)" by (simp add: set_slot_def)
  moreover have "in_hand (set_slot ?tp s w) = in_hand ?tp"
    using in_hand_update [OF len, of w] ch
    by (simp add: idle_change_def at_slot_def flip: running_jobs)
  ultimately show ?thesis using inv by (simp add: run_inv_def)
qed

lemma slot_inv: "tp_inv (pool r) \<Longrightarrow> s < tp_abs_max \<Longrightarrow> slot_ok (tp_shutdown (pool r)) (at_slot r s)"
  by (simp add: tp_inv_def at_slot_def)

lemma run_inv_step:
  assumes "pool_step r r'" "run_inv r"
  shows "run_inv r'"
  using assms
proof (cases rule: pool_step.cases)
  case (step_submit j rc tp)
  then show ?thesis
    using assms(2) by (auto simp: run_inv_def threadpool_submit_def tp_inv_def count_slots_def
        split: if_splits)
next
  case (step_take s)
  let ?w = "at_slot r s" and ?tp = "pool r"
  let ?w' = "?w\<lparr>worker_pc := Running (hd (tp_jobs ?tp))\<rparr>"
  obtain j js where q: "tp_jobs ?tp = j # js" using step_take(4) by (cases "tp_jobs ?tp") auto
  have inv: "tp_inv ?tp" using assms(2) by (simp add: run_inv_def)
  have ok: "slot_ok (tp_shutdown ?tp) ?w" by (rule slot_inv [OF inv step_take(2)])
  have s: "s < length (tp_slots ?tp)" using inv step_take(2) by (simp add: tp_inv_def)
  have "tp_inv (worker_take ?tp s)"
    using step_take inv ok q unfolding worker_take_def
    by (intro tp_inv_slot) (auto simp: slot_ok_def running_def at_slot_def tp_inv_def)
  moreover have "in_hand (worker_take ?tp s) = in_hand ?tp + {#j#}"
    using in_hand_update [OF s, of ?w'] step_take(3) q
    by (simp add: worker_take_def slot_jobs_def at_slot_def)
  moreover have "dropped r = []" using assms(2) step_take(5) by (auto simp: run_inv_def)
  ultimately show ?thesis
    using assms(2) q unfolding step_take(1) by (simp add: run_inv_def worker_take_def)
next
  case (step_done s j)
  let ?w = "at_slot r s" and ?tp = "pool r"
  have inv: "tp_inv ?tp" using assms(2) by (simp add: run_inv_def)
  have ok: "slot_ok (tp_shutdown ?tp) ?w" by (rule slot_inv [OF inv step_done(2)])
  have s: "s < length (tp_slots ?tp)" using inv step_done(2) by (simp add: tp_inv_def)
  have "tp_inv ((set_slot ?tp s (?w\<lparr>worker_pc := Waiting\<rparr>))\<lparr>tp_jobs := tp_jobs ?tp,
      tp_queue_depth := tp_queue_depth ?tp, tp_active_workers := tp_active_workers ?tp - 1\<rparr>)"
    using step_done inv ok
    by (intro tp_inv_slot) (auto simp: slot_ok_def running_def at_slot_def tp_inv_def)
  then have "tp_inv (worker_done ?tp s)"
    by (simp add: worker_done_def set_slot_def at_slot_def)
  moreover have "in_hand (worker_done ?tp s) + {#j#} = in_hand ?tp"
    using in_hand_update [OF s, of "?w\<lparr>worker_pc := Waiting\<rparr>"] step_done(3)
    by (simp add: worker_done_def slot_jobs_def at_slot_def)
  ultimately show ?thesis
    using assms(2) unfolding step_done(1) by (auto simp: run_inv_def worker_done_def)
next
  case (step_exit s)
  let ?w = "at_slot r s" and ?tp = "pool r"
  have inv: "tp_inv ?tp" using assms(2) by (simp add: run_inv_def)
  have "slot_ok (tp_shutdown ?tp) ?w" by (rule slot_inv [OF inv step_exit(2)])
  then have "idle_change r s (?w\<lparr>worker_pc := Exited\<rparr>)"
    using step_exit by (auto simp: idle_change_def slot_ok_def running_def slot_jobs_def)
  then show ?thesis
    using run_inv_idle [OF assms(2) step_exit(2)] unfolding step_exit(1)
    by (simp add: worker_exit_def at_slot_def)
next
  case (step_join s)
  have "idle_change r s \<lparr>worker_alive = False, worker_retiring = False, worker_pc = Absent\<rparr>"
    using step_join by (auto simp: idle_change_def slot_ok_def running_def slot_jobs_def)
  then show ?thesis
    using run_inv_idle [OF assms(2) step_join(2)] unfolding step_join(1)
    by (simp add: join_retired_def)
next
  case (step_sample spawn)
  then show ?thesis
    using assms(2) monitor_sample_correct [of "pool r" spawn] by (simp add: run_inv_def same_logs_def)
next
  case (step_resize spawn n)
  then show ?thesis
    using assms(2) resize_correct [of "pool r" spawn n] by (simp add: run_inv_def same_logs_def)
next
  case (step_shutdown_join s)
  let ?w = "at_slot r s"
  have "idle_change r s (?w\<lparr>worker_alive := False, worker_pc := Absent\<rparr>)"
    using step_shutdown_join by (auto simp: idle_change_def slot_ok_def running_def slot_jobs_def)
  then show ?thesis
    using run_inv_idle [OF assms(2) step_shutdown_join(2)] unfolding step_shutdown_join(1)
    by (simp add: shutdown_join_def at_slot_def)
next
  case (step_shutdown)
  then show ?thesis
    using assms(2) by (auto simp: run_inv_def threadpool_set_shutdown_def tp_inv_def slot_ok_def)
next
  case (step_free)
  then show ?thesis
    using assms(2) by (auto simp: run_inv_def threadpool_free_jobs_def tp_inv_def)
qed (use assms(2) in \<open>auto simp: run_inv_def threadpool_set_queue_max_def threadpool_close_submit_def
    threadpool_stop_monitor_def\<close>)

text \<open>What \<^verbatim>\<open>threadpool_create\<close> returns.\<close>

lemma create_correct:
  fixes tp :: "'j threadpool"
  assumes c: "threadpool_create spawn n = Some tp"
  shows "tp_inv tp \<and> tp_jobs tp = [] \<and> in_hand tp = {#} \<and> tp_n_workers tp = n \<and> tp_floor_workers tp = n \<and>
    tp_queue_depth tp = 0 \<and> tp_active_workers tp = 0 \<and> \<not> tp_shutdown tp \<and> \<not> tp_submit_closed tp \<and>
    tp_queue_max tp = 256"
proof -
  let ?w = "\<lparr>worker_alive = False, worker_retiring = False, worker_pc = Absent :: 'j worker\<rparr>"
  let ?t = "\<lparr>tp_slots = replicate tp_abs_max ?w,
       tp_n_workers = 0, tp_floor_workers = n, tp_jobs = [], tp_queue_depth = 0,
       tp_queue_max = tp_queue_max_default, tp_rejected_total = 0, tp_active_workers = 0,
       tp_shutdown = False, tp_submit_closed = False, tp_monitor_should_exit = False,
       tp_high_consecutive = 0, tp_low_consecutive = 0, tp_skip_samples = 0\<rparr>"
  have n: "1 \<le> n" "n \<le> int tp_abs_max" using c by (auto simp: threadpool_create_def split: if_splits)
  obtain tp1 where e: "expand_loop spawn n [0..<tp_abs_max] 0 ?t = (n, tp1)"
    and tp: "tp = tp1\<lparr>tp_n_workers := tp_n_workers tp1 + n\<rparr>"
    using c n by (auto simp: threadpool_create_def threadpool_expand_locked_def Let_def
        split: if_splits prod.splits)
  have q: "same_queue ?t tp1 \<and> (\<forall>w \<in> set (tp_slots tp1). slot_ok False w) \<and>
      count_slots live tp1 = count_slots live ?t + (n - 0) \<and> 0 \<le> n \<and> tp_n_workers ?t + n \<le> n"
    using n by (intro expand_loop_correct [OF e]) (auto simp: slot_ok_def)
  have z: "count_slots P ?t = 0" if "\<not> P ?w" for P
    using that by (auto simp: count_slots_def filter_empty_conv)
  have "in_hand ?t = {#}" by (simp add: in_hand_def slot_jobs_def concat_eq_Nil_conv)
  then show ?thesis
    using q n z [of live] z [of running] unfolding tp
    by (simp add: tp_inv_def same_queue_def running_def tp_soft_max_def tp_queue_max_default_def)
qed

lemma pool_init_inv: "pool_init r \<Longrightarrow> run_inv r"
  by (auto simp: pool_init_def run_inv_def dest: create_correct)

lemma two_workers: obtains tp :: "nat threadpool" where "threadpool_create (\<lambda>_. True) 2 = Some tp"
proof -
  have "threadpool_create (\<lambda>_. True) 2 \<noteq> (None :: nat threadpool option)" by code_simp
  then show ?thesis using that by blast
qed

interpretation tpool: step_system pool_init pool_step run_inv
  by unfold_locales (auto intro: pool_init_inv run_inv_step)

section \<open>Properties\<close>

lemma in_hand_active: "tp_inv tp \<Longrightarrow> tp_active_workers tp = int (size (in_hand tp))"
proof -
  have "length (filter running ws) = length (concat (map slot_jobs ws))" for ws :: "'a worker_slot list"
    by (induction ws) (auto simp: running_def slot_jobs_def split: worker.splits)
  then show "tp_inv tp \<Longrightarrow> ?thesis" by (simp add: tp_inv_def count_slots_def in_hand_def)
qed

definition first_run :: "'j threadpool \<Rightarrow> 'j pool_run" where
  "first_run tp = \<lparr>pool = tp, accepted = [], started = [], finished = [], dropped = []\<rparr>"

lemma first_run_reachable: "threadpool_create spawn n = Some tp \<Longrightarrow> reachable pool_init pool_step (first_run tp)"
  by (intro reachable_init) (auto simp: pool_init_def first_run_def)

text \<open>In every reachable state the counters of the pool describe it: \<^verbatim>\<open>queue_depth\<close> is the
  number of queued jobs, \<^verbatim>\<open>active_workers\<close> the number of workers that hold a job, and until
  shutdown \<^verbatim>\<open>n_workers\<close> is the number of live workers not told to retire, never below the
  initial size nor above 16 (or the initial size, when that is larger).\<close>

theorem pool_counters:
  assumes "reachable pool_init pool_step r"
  shows "tp_queue_depth (pool r) = int (length (tp_jobs (pool r))) \<and>
    tp_active_workers (pool r) = int (length (filter running (tp_slots (pool r)))) \<and>
    (\<not> tp_shutdown (pool r) \<longrightarrow> tp_n_workers (pool r) = int (length (filter live (tp_slots (pool r))))) \<and>
    tp_floor_workers (pool r) \<le> tp_n_workers (pool r) \<and>
    tp_n_workers (pool r) \<le> max (tp_floor_workers (pool r)) 16"
  using tpool.reachable_inv [OF assms]
  by (simp add: run_inv_def tp_inv_def count_slots_def tp_soft_max_def)

theorem pool_counters_witness:
  "\<exists>tp. threadpool_create (\<lambda>_. True) 2 = Some (tp :: nat threadpool) \<and>
     length (filter live (tp_slots tp)) = 2 \<and> tp_queue_depth tp = int (length (tp_jobs tp))"
proof -
  obtain tp :: "nat threadpool" where c: "threadpool_create (\<lambda>_. True) 2 = Some tp" by (rule two_workers)
  note n = create_correct [OF c]
  show ?thesis
    using pool_counters [OF first_run_reachable [OF c]] n c
    by (intro exI [of _ tp]) (auto simp: first_run_def)
qed

text \<open>C15: jobs are started in the order in which they were accepted, none is lost, and none is
  executed twice: at any time the accepted jobs are the started ones, then those dropped by a
  shutdown, then the queue; and a started job is finished or in a worker's hands.\<close>

theorem pool_fifo_exactly_once:
  assumes "reachable pool_init pool_step r"
  shows "accepted r = started r @ dropped r @ tp_jobs (pool r) \<and>
    mset (started r) = mset (finished r) + in_hand (pool r) \<and>
    (\<not> tp_shutdown (pool r) \<longrightarrow> dropped r = [])"
  using tpool.reachable_inv [OF assms] by (auto simp: run_inv_def)

theorem pool_fifo_exactly_once_witness:
  "\<exists>tp :: nat threadpool. reachable pool_init pool_step (first_run tp) \<and> in_hand tp = {#}"
proof -
  obtain tp :: "nat threadpool" where c: "threadpool_create (\<lambda>_. True) 2 = Some tp" by (rule two_workers)
  note n = create_correct [OF c]
  show ?thesis
    using pool_fifo_exactly_once [OF first_run_reachable [OF c]] first_run_reachable [OF c]
    by (auto simp: first_run_def)
qed

text \<open>No step of a drained pool whose submissions are closed starts or accepts a job.\<close>

definition quiet :: "'j pool_run \<Rightarrow> 'j list \<Rightarrow> bool" where
  "quiet r js \<longleftrightarrow> run_inv r \<and> tp_submit_closed (pool r) \<and> tp_jobs (pool r) = [] \<and> dropped r = [] \<and>
     in_hand (pool r) = {#} \<and> accepted r = js"

lemma quiet_no_running: "quiet r js \<Longrightarrow> s < tp_abs_max \<Longrightarrow> worker_pc (at_slot r s) \<noteq> Running j"
proof -
  assume q: "quiet r js" and s: "s < tp_abs_max"
  then have "at_slot r s \<in> set (tp_slots (pool r))"
    by (simp add: quiet_def run_inv_def tp_inv_def at_slot_def)
  moreover have "\<forall>w \<in> set (tp_slots (pool r)). slot_jobs w = []"
    using q by (simp add: quiet_def in_hand_def concat_eq_Nil_conv)
  ultimately have "slot_jobs (at_slot r s) = []" by blast
  then show ?thesis by (auto simp: slot_jobs_def)
qed

lemma in_hand_idle:
  "run_inv r \<Longrightarrow> s < tp_abs_max \<Longrightarrow> slot_jobs (at_slot r s) = [] \<Longrightarrow> slot_jobs w = [] \<Longrightarrow>
     in_hand (set_slot (pool r) s w) = in_hand (pool r)"
  using in_hand_update [of s "pool r" w] by (simp add: run_inv_def tp_inv_def at_slot_def)

lemma quiet_step:
  assumes q: "quiet r js" and st: "pool_step r r'"
  shows "quiet r' js"
proof -
  have inv: "run_inv r" "run_inv r'" using q run_inv_step [OF st] by (auto simp: quiet_def)
  have tp: "tp_inv (pool r)" using inv(1) by (simp add: run_inv_def)
  note same = in_hand_idle [OF inv(1)]
  from st show ?thesis
  proof cases
    case (step_exit s)
    then show ?thesis using q inv same [of s "at_slot r s\<lparr>worker_pc := Exited\<rparr>"]
      by (simp add: quiet_def worker_exit_def slot_jobs_def at_slot_def)
  next
    case (step_join s)
    then show ?thesis using q inv same [of s "\<lparr>worker_alive = False, worker_retiring = False, worker_pc = Absent\<rparr>"]
      by (simp add: quiet_def join_retired_def slot_jobs_def at_slot_def)
  next
    case (step_shutdown_join s)
    then show ?thesis using q inv same [of s "at_slot r s\<lparr>worker_alive := False, worker_pc := Absent\<rparr>"]
      by (simp add: quiet_def shutdown_join_def slot_jobs_def at_slot_def)
  next
    case (step_done s j)
    then show ?thesis using quiet_no_running [OF q] by blast
  next
    case (step_sample spawn)
    then show ?thesis using q inv(2) monitor_sample_correct [OF tp, of spawn]
      by (simp add: quiet_def same_logs_def)
  next
    case (step_resize spawn n)
    then show ?thesis using q inv(2) resize_correct [OF tp, of spawn n]
      by (simp add: quiet_def same_logs_def)
  qed (use q inv in \<open>auto simp: quiet_def threadpool_submit_def threadpool_set_queue_max_def
      threadpool_close_submit_def threadpool_stop_monitor_def threadpool_set_shutdown_def
      threadpool_free_jobs_def\<close>)
qed

lemma drained_quiet:
  assumes "run_inv r" "tp_submit_closed (pool r)" "threadpool_drained (pool r)" "\<not> tp_shutdown (pool r)"
  shows "quiet r (accepted r)"
proof -
  have "tp_active_workers (pool r) = 0" "tp_queue_depth (pool r) = 0"
    using assms(1,3) in_hand_active [of "pool r"] by (auto simp: threadpool_drained_def run_inv_def tp_inv_def)
  then show ?thesis
    using assms(1,2,4) in_hand_active [of "pool r"] by (auto simp: quiet_def run_inv_def tp_inv_def)
qed

text \<open>C24: \<^verbatim>\<open>threadpool_shutdown_graceful\<close> loses no job: once submissions are closed and the drain
  condition has been seen, every accepted job has been executed, and nothing that the
  monitor, the workers or the rest of the shutdown still do changes that.\<close>

theorem pool_graceful_drain:
  assumes "reachable pool_init pool_step r" and "tp_submit_closed (pool r)"
    and "threadpool_drained (pool r)" and "\<not> tp_shutdown (pool r)" and "pool_step\<^sup>*\<^sup>* r r'"
  shows "accepted r' = accepted r \<and> mset (finished r') = mset (accepted r') \<and> dropped r' = []"
proof -
  have "quiet r (accepted r)" by (rule drained_quiet [OF tpool.reachable_inv [OF assms(1)] assms(2-4)])
  with assms(5) have "quiet r' (accepted r)"
    by (induction rule: rtranclp_induct) (auto intro: quiet_step)
  then show ?thesis by (auto simp: quiet_def run_inv_def)
qed

theorem pool_graceful_drain_witness:
  "\<exists>tp :: nat threadpool. pool_step (first_run tp) ((first_run tp)\<lparr>pool := threadpool_close_submit tp\<rparr>) \<and>
     threadpool_drained (threadpool_close_submit tp) \<and>
     finished ((first_run tp)\<lparr>pool := threadpool_close_submit tp\<rparr>) = []"
proof -
  obtain tp :: "nat threadpool" where c: "threadpool_create (\<lambda>_. True) 2 = Some tp" by (rule two_workers)
  note n = create_correct [OF c]
  let ?r = "(first_run tp)\<lparr>pool := threadpool_close_submit tp\<rparr>"
  have s: "pool_step (first_run tp) ?r"
    using step_close [of "first_run tp"] by (simp add: first_run_def)
  have d: "threadpool_drained (pool ?r)" "\<not> tp_shutdown (pool ?r)" "tp_submit_closed (pool ?r)"
    using n by (simp_all add: threadpool_drained_def threadpool_close_submit_def)
  have "accepted ?r = accepted ?r \<and> mset (finished ?r) = mset (accepted ?r) \<and> dropped ?r = []"
    by (rule pool_graceful_drain [OF reachable_step [OF first_run_reachable [OF c] s] d(3,1,2)]) simp
  then show ?thesis using s d by (auto simp: first_run_def)
qed

text \<open>C25: the queue cannot get stuck: while jobs wait and the pool is not shut down, some worker
  can take the first of them or is executing a job and can finish it.\<close>

theorem pool_progress:
  assumes "reachable pool_init pool_step r" and "tp_jobs (pool r) \<noteq> []" and "\<not> tp_shutdown (pool r)"
  shows "(\<exists>s. pool_step r (r\<lparr>pool := worker_take (pool r) s, started := started r @ [hd (tp_jobs (pool r))]\<rparr>)) \<or>
    (\<exists>s j. pool_step r (r\<lparr>pool := worker_done (pool r) s, finished := finished r @ [j]\<rparr>))"
proof -
  have inv: "tp_inv (pool r)" using tpool.reachable_inv [OF assms(1)] by (simp add: run_inv_def)
  have "0 < length (filter live (tp_slots (pool r)))"
    using inv assms(3) by (auto simp: tp_inv_def count_slots_def)
  then obtain w where "w \<in> set (tp_slots (pool r))" and live: "live w"
    by (auto simp: filter_empty_conv)
  then obtain s where s: "s < tp_abs_max" "at_slot r s = w"
    using inv by (auto simp: in_set_conv_nth tp_inv_def at_slot_def)
  have "slot_ok False w" using slot_inv [OF inv s(1)] s(2) assms(3) by simp
  then have "worker_pc w = Waiting \<or> (\<exists>j. worker_pc w = Running j)"
    using live by (cases "worker_pc w") (auto simp: slot_ok_def)
  then show ?thesis
  proof
    assume "worker_pc w = Waiting"
    then show ?thesis using step_take [OF s(1) _ assms(2,3)] live s(2) by blast
  next
    assume "\<exists>j. worker_pc w = Running j"
    then show ?thesis using step_done [OF s(1), of r] s(2) by blast
  qed
qed

theorem pool_progress_witness:
  "\<exists>r :: nat pool_run. tp_jobs (pool r) = [7] \<and> (\<exists>r'. pool_step r r')"
proof -
  obtain tp :: "nat threadpool" where c: "threadpool_create (\<lambda>_. True) 2 = Some tp" by (rule two_workers)
  note n = create_correct [OF c]
  obtain rc tp' where t: "threadpool_submit tp 7 = (rc, tp')" by fastforce
  let ?r = "(first_run tp)\<lparr>pool := tp', accepted := (if rc = 0 then [7] else [])\<rparr>"
  have "pool_step (first_run tp) ?r"
    using step_submit [of "first_run tp" 7 rc tp'] t by (cases "rc = 0") (simp_all add: first_run_def)
  with first_run_reachable [OF c] have reach: "reachable pool_init pool_step ?r" by (rule reachable_step)
  have jobs: "tp_jobs (pool ?r) = [7]" "\<not> tp_shutdown (pool ?r)"
    using n t by (auto simp: threadpool_submit_def)
  then have "tp_jobs (pool ?r) \<noteq> []" by simp
  then have "\<exists>r'. pool_step ?r r'" using pool_progress [OF reach _ jobs(2)] by blast
  then show ?thesis using jobs(1) by blast
qed



end
