(* ===== verification/Sql_Types.thy ===== *)
theory Sql_Types
  imports Prelude
begin

text \<open>
  The data shared by all modules, \<^verbatim>\<open>include/types.h\<close>: query and column types, the parsed
  statement and the row set. A pointer with a count is a list, a NULL pointer to a single
  structure is \<open>None\<close>, a NULL array is the empty list. A fixed array of characters is the
  string its readers find in it. It is no longer than the array allows, except in the
  conditions and the SET clauses, whose arrays the parser leaves without a final NUL when a
  token fills them.
\<close>

section \<open>Types\<close>

datatype query_type =
  QUERY_SELECT | QUERY_INSERT | QUERY_DELETE | QUERY_UPDATE | QUERY_CREATE | QUERY_UNKNOWN

datatype column_type =
  TYPE_INT | TYPE_VARCHAR | TYPE_FLOAT | TYPE_BOOLEAN | TYPE_DATE | TYPE_DATETIME

text \<open>The column types are ordered by their C values.\<close>

fun column_type_value :: "column_type \<Rightarrow> nat" where
  "column_type_value TYPE_INT = 0"
| "column_type_value TYPE_VARCHAR = 1"
| "column_type_value TYPE_FLOAT = 2"
| "column_type_value TYPE_BOOLEAN = 3"
| "column_type_value TYPE_DATE = 4"
| "column_type_value TYPE_DATETIME = 5"

lemma column_type_value_inject: "column_type_value a = column_type_value b \<longleftrightarrow> a = b"
  by (cases a; cases b) simp_all

instantiation column_type :: linorder
begin

definition less_eq_column_type :: "column_type \<Rightarrow> column_type \<Rightarrow> bool" where
  "less_eq_column_type a b \<longleftrightarrow> column_type_value a \<le> column_type_value b"

definition less_column_type :: "column_type \<Rightarrow> column_type \<Rightarrow> bool" where
  "less_column_type a b \<longleftrightarrow> column_type_value a < column_type_value b"

instance
  by standard (auto simp: less_eq_column_type_def less_column_type_def column_type_value_inject
      simp flip: column_type_value_inject)

end

record col_def =
  cd_name :: string
  cd_type :: column_type

record where_clause =
  w_column :: string
  w_op :: string
  w_value :: string
  w_value_to :: string

record order_by =
  ob_column :: string
  ob_asc :: bool

record rowset =
  rs_col_names :: "string list"
  rs_rows :: "string list list"

record set_clause =
  sc_column :: string
  sc_value :: string

record parsed_sql =
  sql_type :: query_type
  sql_table :: string
  sql_columns :: "string list"
  sql_values :: "string list"
  sql_where :: "where_clause list"
  sql_where_logic :: string
  sql_where_links :: "string list"
  sql_order_by :: "order_by option"
  sql_limit :: int
  sql_set :: "set_clause list"
  sql_col_defs :: "string list"

end
