(* ===== verification/Sql_Parser.thy ===== *)
theory Sql_Parser
  imports Sql_Types
begin

text \<open>
  The tokenizer and the recursive-descent parser of \<^verbatim>\<open>src/parser.c\<close>. A \<^verbatim>\<open>TokenList\<close> with its
  position is the list of the tokens from the position on; every parsing function returns
  the remaining tokens with its result. Messages on standard error are not modelled, so
  \<^verbatim>\<open>expect\<close> is \<^verbatim>\<open>match\<close>. Copies into the fixed arrays of a structure that \<^verbatim>\<open>calloc\<close> cleared keep
  what fits before the final NUL. The conditions, and the SET clauses from the fifth on, are
  elements of an array that \<^verbatim>\<open>realloc\<close> grew and nothing clears: what those bytes are is a
  parameter of the parser, and a field that a token fills is read on into what follows it.
\<close>

section \<open>The tokenizer\<close>

type_synonym toks = "string list"

definition is_quote :: "char \<Rightarrow> bool" where
  "is_quote c \<longleftrightarrow> c = CHR 0x27 \<or> c = CHR 0x22"

definition is_punct :: "char \<Rightarrow> bool" where
  "is_punct c \<longleftrightarrow> c \<in> set '',();*''"

definition is_word_char :: "char \<Rightarrow> bool" where
  "is_word_char c \<longleftrightarrow> is_alnum c \<or> c = CHR ''_'' \<or> c = CHR ''.'' \<or> c = CHR ''-''"

function tokenize :: "string \<Rightarrow> toks" where
  "tokenize [] = []"
| "tokenize (c # cs) =
     (if is_space c then tokenize cs
      else if c = CHR ''-'' \<and> cs \<noteq> [] \<and> hd cs = CHR ''-''
        then tokenize (dropWhile (\<lambda>x. x \<noteq> CHR 0x0A) cs)
      else if is_quote c
        then takeWhile (\<lambda>x. x \<noteq> c) cs # tokenize (tl (dropWhile (\<lambda>x. x \<noteq> c) cs))
      else if is_punct c then [c] # tokenize cs
      else if c = CHR ''='' then [c] # tokenize cs
      else if c \<in> set ''><!''
        then (if cs \<noteq> [] \<and> hd cs = CHR ''='' then [c, CHR ''=''] # tokenize (tl cs)
              else [c] # tokenize cs)
      else if is_word_char c
        then (c # takeWhile is_word_char cs) # tokenize (dropWhile is_word_char cs)
      else tokenize cs)"
  by pat_completeness auto

termination
  by (relation "measure length")
    (auto simp: less_Suc_eq_le length_dropWhile_le intro: le_trans [OF diff_le_self length_dropWhile_le])

definition print_tokens :: "string \<Rightarrow> string list" where
  "print_tokens input =
     (let t = tokenize input
      in (''tokens ('' @ show_int (int (length t)) @ ''):'') #
         map (\<lambda>(i, tok). ''  ['' @ (if i < 10 then '' '' else []) @ show_int (int i) @ ''] '' @ tok)
           (zip [0..<length t] t))"

section \<open>Token helpers\<close>

definition advance :: "toks \<Rightarrow> string option \<times> toks" where
  "advance t = (case t of [] \<Rightarrow> (None, []) | x # xs \<Rightarrow> (Some x, xs))"

definition match_kw :: "toks \<Rightarrow> string \<Rightarrow> bool \<times> toks" where
  "match_kw t kw = (case t of [] \<Rightarrow> (False, []) | x # xs \<Rightarrow> if ieq x kw then (True, xs) else (False, x # xs))"

definition expect_kw :: "toks \<Rightarrow> string \<Rightarrow> bool \<times> toks" where
  "expect_kw t kw = match_kw t kw"

definition is_valid_type :: "string \<Rightarrow> bool" where
  "is_valid_type s \<longleftrightarrow> ieq s ''INT'' \<or> ieq s ''VARCHAR'' \<or> ieq s ''FLOAT'' \<or>
     ieq s ''BOOLEAN'' \<or> ieq s ''DATE'' \<or> ieq s ''DATETIME''"

definition parsed_new :: parsed_sql where
  "parsed_new = \<lparr>sql_type = QUERY_UNKNOWN, sql_table = [], sql_columns = [], sql_values = [],
     sql_where = [], sql_where_logic = [], sql_where_links = [], sql_order_by = None,
     sql_limit = -1, sql_set = [], sql_col_defs = []\<rparr>"

lemma match_kw_length: "length (snd (match_kw t kw)) \<le> length t"
  by (auto simp: match_kw_def split: list.splits)

fun ident_loop :: "toks \<Rightarrow> string list \<times> toks" where
  "ident_loop [] = ([], [])"
| "ident_loop (x # xs) =
     (if x = '')'' then ([], x # xs)
      else case xs of
             y # ys \<Rightarrow> if ieq y '','' then (let (r, zs) = ident_loop ys in (x # r, zs)) else ([x], xs)
           | [] \<Rightarrow> ([x], []))"

definition parse_ident_list :: "toks \<Rightarrow> string list \<times> toks" where
  "parse_ident_list t = (let (r, t1) = ident_loop t in (r, snd (expect_kw t1 '')'')))"

definition is_select_stop_token :: "string \<Rightarrow> bool" where
  "is_select_stop_token tok \<longleftrightarrow> ieq tok ''FROM'' \<or> ieq tok ''WHERE'' \<or> ieq tok ''ORDER'' \<or>
     ieq tok ''LIMIT'' \<or> tok = '')'' \<or> tok = '';''"

section \<open>Arrays in uninitialised memory\<close>

text \<open>
  The bytes \<^verbatim>\<open>realloc\<close> leaves in the two arrays, by offset, and the string that begins at an
  offset from which on nothing was stored. A \<^verbatim>\<open>WhereClause\<close> has its fields at 0, 64, 72 and 328
  and takes 584 bytes, a \<^verbatim>\<open>SetClause\<close> at 0 and 64 and takes 320. A read that leaves the block
  itself is undefined in C; here it finds some string like any other read of such memory.
\<close>

record heap =
  hp_where :: "nat \<Rightarrow> char"
  hp_where_rest :: "nat \<Rightarrow> string"
  hp_set :: "nat \<Rightarrow> char"
  hp_set_rest :: "nat \<Rightarrow> string"

text \<open>Memory that happens to be clear.\<close>

definition empty_heap :: heap where
  "empty_heap = \<lparr>hp_where = (\<lambda>k. CHR 0x00), hp_where_rest = (\<lambda>k. []), hp_set = (\<lambda>k. CHR 0x00), hp_set_rest = (\<lambda>k. [])\<rparr>"

text \<open>
  What is read from an array of \<open>Suc n\<close> bytes after \<^verbatim>\<open>strncpy(dst, src, n)\<close>: a shorter source
  is padded with NULs, any other leaves the last byte as it was, and when that is not a NUL
  the reader goes on into the next field.
\<close>

definition field_text :: "nat \<Rightarrow> string \<Rightarrow> char \<Rightarrow> string \<Rightarrow> string" where
  "field_text n src c next =
     (if length src < n then src else take n src @ (if c = CHR 0x00 then [] else c # next))"

text \<open>The tokens of a condition; the upper value when it is a complete BETWEEN.\<close>

record where_cell =
  wc_column :: string
  wc_op :: string
  wc_value :: string
  wc_to :: "string option"

text \<open>
  The fields of the clause at offset \<open>k\<close> as they are read; \<open>rest\<close> is the column field of the
  clause behind it. Only a complete BETWEEN sets the last byte of \<^verbatim>\<open>op\<close> and fills \<^verbatim>\<open>value_to\<close>.
\<close>

definition to_text :: "heap \<Rightarrow> nat \<Rightarrow> where_cell \<Rightarrow> string \<Rightarrow> string" where
  "to_text h k c rest =
     (case wc_to c of None \<Rightarrow> [] | Some v \<Rightarrow> field_text 255 v (hp_where h (k + 583)) rest)"

definition value_text :: "heap \<Rightarrow> nat \<Rightarrow> where_cell \<Rightarrow> string \<Rightarrow> string" where
  "value_text h k c rest = field_text 255 (wc_value c) (hp_where h (k + 327)) (to_text h k c rest)"

definition op_text :: "heap \<Rightarrow> nat \<Rightarrow> where_cell \<Rightarrow> string \<Rightarrow> string" where
  "op_text h k c rest =
     (case wc_to c of
        None \<Rightarrow> field_text 7 (wc_op c) (hp_where h (k + 71)) (value_text h k c rest)
      | Some _ \<Rightarrow> ''BETWEEN'')"

fun column_text :: "heap \<Rightarrow> nat \<Rightarrow> where_cell list \<Rightarrow> string" where
  "column_text h k [] = hp_where_rest h k"
| "column_text h k (c # cs) =
     field_text 63 (wc_column c) (hp_where h (k + 63)) (op_text h k c (column_text h (k + 584) cs))"

text \<open>The conditions as the readers of \<^verbatim>\<open>sql->where\<close> find them.\<close>

fun where_texts :: "heap \<Rightarrow> nat \<Rightarrow> where_cell list \<Rightarrow> where_clause list" where
  "where_texts h k [] = []"
| "where_texts h k (c # cs) =
     (let rest = column_text h (k + 584) cs
      in \<lparr>w_column = column_text h k (c # cs), w_op = op_text h k c rest,
          w_value = value_text h k c rest, w_value_to = to_text h k c rest\<rparr>) # where_texts h (k + 584) cs"

text \<open>
  The same for the SET clauses, from the \<open>i\<close>-th on: the first four come from \<^verbatim>\<open>calloc\<close>, so their
  last bytes are NUL.
\<close>

definition set_byte :: "heap \<Rightarrow> nat \<Rightarrow> nat \<Rightarrow> char" where
  "set_byte h i k = (if i < 4 then CHR 0x00 else hp_set h (320 * i + k))"

fun set_column_text :: "heap \<Rightarrow> nat \<Rightarrow> (string \<times> string) list \<Rightarrow> string" where
  "set_column_text h i [] = hp_set_rest h (320 * i)"
| "set_column_text h i ((col, val) # cs) =
     field_text 63 col (set_byte h i 63) (field_text 255 val (set_byte h i 319) (set_column_text h (Suc i) cs))"

fun set_texts :: "heap \<Rightarrow> nat \<Rightarrow> (string \<times> string) list \<Rightarrow> set_clause list" where
  "set_texts h i [] = []"
| "set_texts h i ((col, val) # cs) =
     \<lparr>sc_column = set_column_text h i ((col, val) # cs),
      sc_value = field_text 255 val (set_byte h i 319) (set_column_text h (Suc i) cs)\<rparr> # set_texts h (Suc i) cs"

section \<open>WHERE\<close>

text \<open>
  The loop over conditions: the tokens of the conditions and the connectives read, with the
  rest. A malformed BETWEEN keeps its three tokens and ends the loop.
\<close>

function where_loop :: "toks \<Rightarrow> where_cell list \<Rightarrow> string list \<Rightarrow>
    where_cell list \<times> string list \<times> toks" where
  "where_loop (col # opr # val # t) ws links =
     (let w = \<lparr>wc_column = col, wc_op = opr, wc_value = val, wc_to = None\<rparr>;
          (go, w1, t1) =
            (if ieq opr ''BETWEEN''
             then (case t of
                     a # high # t1 \<Rightarrow> if ieq a ''AND''
                       then (True, w\<lparr>wc_to := Some high\<rparr>, t1)
                       else (False, w, t1)
                   | _ \<Rightarrow> (False, w, []))
             else (True, w, t))
      in if \<not> go then (ws @ [w1], links, t1)
         else case t1 of
                [] \<Rightarrow> (ws @ [w1], links, [])
              | k # t2 \<Rightarrow> if ieq k ''AND'' \<or> ieq k ''OR''
                  then where_loop t2 (ws @ [w1]) (links @ [if ieq k ''OR'' then ''OR'' else ''AND''])
                  else (ws @ [w1], links, k # t2))"
| "where_loop [] ws links = (ws, links, [])"
| "where_loop [a] ws links = (ws, links, [])"
| "where_loop [a, b] ws links = (ws, links, [])"
  by pat_completeness auto

termination
  by (relation "measure (\<lambda>(t, _, _). length t)") (auto split: if_splits list.splits)

definition parse_where :: "heap \<Rightarrow> toks \<Rightarrow> parsed_sql \<Rightarrow> parsed_sql \<times> toks" where
  "parse_where h t sql =
     (let (ws, links0, t1) = where_loop t [] [];
          links = (if links0 \<noteq> [] \<and> length links0 + 1 \<noteq> length ws then butlast links0 else links0);
          logic = (if links \<noteq> [] \<and> (\<forall>l \<in> set (tl links). ieq (hd links) l)
                   then strncpy 7 (hd links) else [])
      in (sql\<lparr>sql_where := where_texts h 0 ws, sql_where_links := links, sql_where_logic := logic\<rparr>, t1))"

text \<open>\<^verbatim>\<open>if (match(t, "WHERE")) parse_where(t, sql);\<close>\<close>

definition opt_where :: "heap \<Rightarrow> toks \<Rightarrow> parsed_sql \<Rightarrow> parsed_sql \<times> toks" where
  "opt_where h t sql = (let (m, t1) = match_kw t ''WHERE'' in if m then parse_where h t1 sql else (sql, t1))"

section \<open>Statements\<close>

definition set_table :: "parsed_sql \<Rightarrow> string option \<Rightarrow> parsed_sql" where
  "set_table sql name = (case name of None \<Rightarrow> sql | Some n \<Rightarrow> sql\<lparr>sql_table := strncpy 63 n\<rparr>)"

fun col_defs_loop :: "toks \<Rightarrow> string list" where
  "col_defs_loop (cname # ctype # t) =
     (if cname = '')'' then []
      else take 159 (cname @ '' '' @ ctype) #
           (case t of k # t1 \<Rightarrow> if ieq k '','' then col_defs_loop t1 else [] | [] \<Rightarrow> []))"
| "col_defs_loop _ = []"

definition parse_create :: "toks \<Rightarrow> parsed_sql \<Rightarrow> parsed_sql" where
  "parse_create t sql0 =
     (let sql = sql0\<lparr>sql_type := QUERY_CREATE\<rparr>; (ok, t1) = expect_kw t ''TABLE''
      in if \<not> ok then sql
         else case advance t1 of
                (None, _) \<Rightarrow> sql
              | (Some name, t2) \<Rightarrow>
                  (let sql1 = sql\<lparr>sql_table := strncpy 63 name\<rparr>; (ok2, t3) = expect_kw t2 ''(''
                   in if \<not> ok2 then sql1 else sql1\<lparr>sql_col_defs := col_defs_loop t3\<rparr>))"

definition parse_insert :: "toks \<Rightarrow> parsed_sql \<Rightarrow> parsed_sql" where
  "parse_insert t sql0 =
     (let sql = sql0\<lparr>sql_type := QUERY_INSERT\<rparr>; (ok, t1) = expect_kw t ''INTO''
      in if \<not> ok then sql
         else case advance t1 of
                (None, _) \<Rightarrow> sql
              | (Some name, t2) \<Rightarrow>
                  (let sql1 = sql\<lparr>sql_table := strncpy 63 name\<rparr>; (ok2, t3) = expect_kw t2 ''(''
                   in if \<not> ok2 then sql1
                      else let (cols, t4) = parse_ident_list t3; sql2 = sql1\<lparr>sql_columns := cols\<rparr>;
                               (ok3, t5) = expect_kw t4 ''VALUES''
                           in if \<not> ok3 then sql2
                              else let (ok4, t6) = expect_kw t5 ''(''
                                   in if \<not> ok4 then sql2
                                      else sql2\<lparr>sql_values := fst (parse_ident_list t6)\<rparr>))"

text \<open>The 160-byte buffer of a column expression, and the tokens inside its parentheses.\<close>

definition colbuf_add :: "string \<Rightarrow> string \<Rightarrow> string" where
  "colbuf_add buf s = take 159 (buf @ s)"

fun call_args :: "string \<Rightarrow> toks \<Rightarrow> string \<times> toks" where
  "call_args buf [] = (buf, [])"
| "call_args buf (x # xs) =
     (if x = '')'' \<or> x = '';'' then (buf, x # xs) else call_args (colbuf_add buf x) xs)"

definition column_expr :: "toks \<Rightarrow> string \<times> toks" where
  "column_expr t =
     (let buf = take 159 (hd t); t1 = tl t
      in if t1 \<noteq> [] \<and> hd t1 = ''(''
         then (let (buf1, t2) = call_args (colbuf_add buf ''('') (tl t1)
               in if t2 \<noteq> [] \<and> hd t2 = '')'' then (colbuf_add buf1 '')'', tl t2) else (buf1, t2))
         else (buf, t1))"

lemma call_args_length: "length (snd (call_args buf t)) \<le> length t"
  by (induction buf t rule: call_args.induct) auto

lemma column_expr_length: "t \<noteq> [] \<Longrightarrow> length (snd (column_expr t)) < length t"
  using call_args_length [of "colbuf_add (take 159 (hd t)) ''(''" "tl (tl t)"]
  by (auto simp: column_expr_def Let_def neq_Nil_conv split: prod.splits)

function select_columns :: "toks \<Rightarrow> string list \<times> toks" where
  "select_columns t =
     (if t = [] \<or> is_select_stop_token (hd t) then ([], t)
      else let (c, t1) = column_expr t; (m, t2) = match_kw t1 '',''
           in if m then (let (cs, t3) = select_columns t2 in (c # cs, t3)) else ([c], t2))"
  by pat_completeness auto

termination
proof (relation "measure length", simp, clarsimp)
  fix t c t1 t2
  assume t: "t \<noteq> []" "(c, t1) = column_expr t" "(True, t2) = match_kw t1 '',''"
  then show "length t2 < length t"
    using column_expr_length [OF t(1)] match_kw_length [of t1 "'',''"] by (metis order_le_less_trans snd_conv)
qed

declare select_columns.simps [simp del]

definition opt_order :: "toks \<Rightarrow> parsed_sql \<Rightarrow> parsed_sql \<times> toks" where
  "opt_order t sql =
     (let (m, t1) = match_kw t ''ORDER''
      in if \<not> m then (sql, t1)
         else let t2 = snd (expect_kw t1 ''BY''); (col, t3) = advance t2;
                  (desc, t4) = match_kw t3 ''DESC'';
                  t5 = (if desc then t4 else snd (match_kw t4 ''ASC''))
              in (sql\<lparr>sql_order_by := Some \<lparr>ob_column = (case col of None \<Rightarrow> [] | Some c \<Rightarrow> strncpy 63 c),
                                            ob_asc = (\<not> desc)\<rparr>\<rparr>, t5))"

definition opt_limit :: "toks \<Rightarrow> parsed_sql \<Rightarrow> parsed_sql" where
  "opt_limit t sql =
     (let (m, t1) = match_kw t ''LIMIT''
      in if \<not> m then sql
         else case fst (advance t1) of None \<Rightarrow> sql | Some n \<Rightarrow> sql\<lparr>sql_limit := atoi n\<rparr>)"

definition parse_select :: "heap \<Rightarrow> toks \<Rightarrow> parsed_sql \<Rightarrow> parsed_sql" where
  "parse_select h t sql0 =
     (let (cols, t1) = select_columns t;
          sql = sql0\<lparr>sql_type := QUERY_SELECT, sql_columns := cols\<rparr>; (ok, t2) = expect_kw t1 ''FROM''
      in if \<not> ok then sql
         else let (name, t3) = advance t2; (sql1, t4) = opt_where h t3 (set_table sql name);
                  (sql2, t5) = opt_order t4 sql1
              in opt_limit t5 sql2)"

definition parse_delete :: "heap \<Rightarrow> toks \<Rightarrow> parsed_sql \<Rightarrow> parsed_sql" where
  "parse_delete h t sql0 =
     (let sql = sql0\<lparr>sql_type := QUERY_DELETE\<rparr>; (ok, t1) = expect_kw t ''FROM''
      in if \<not> ok then sql
         else let (name, t2) = advance t1 in fst (opt_where h t2 (set_table sql name)))"

text \<open>The tokens of the SET clauses, column and value.\<close>

fun set_loop :: "toks \<Rightarrow> (string \<times> string) list \<times> toks" where
  "set_loop (col # eq # val # t) =
     (if ieq col ''WHERE'' \<or> col = '';'' then ([], col # eq # val # t)
      else case t of
             k # t1 \<Rightarrow> if ieq k '','' then (let (r, t2) = set_loop t1 in ((col, val) # r, t2)) else ([(col, val)], t)
           | [] \<Rightarrow> ([(col, val)], []))"
| "set_loop (col # t) = (if ieq col ''WHERE'' \<or> col = '';'' then ([], col # t) else ([], []))"
| "set_loop [] = ([], [])"

definition parse_update :: "heap \<Rightarrow> toks \<Rightarrow> parsed_sql \<Rightarrow> parsed_sql" where
  "parse_update h t sql0 =
     (let (name, t1) = advance t; sql = set_table (sql0\<lparr>sql_type := QUERY_UPDATE\<rparr>) name;
          (ok, t2) = expect_kw t1 ''SET''
      in if \<not> ok then sql
         else let (sets, t3) = set_loop t2 in fst (opt_where h t3 (sql\<lparr>sql_set := set_texts h 0 sets\<rparr>)))"

definition parse_sql :: "heap \<Rightarrow> string \<Rightarrow> parsed_sql option" where
  "parse_sql h input =
     (case tokenize input of
        [] \<Rightarrow> None
      | kw # t \<Rightarrow> Some
          (if ieq kw ''CREATE'' then parse_create t parsed_new
           else if ieq kw ''INSERT'' then parse_insert t parsed_new
           else if ieq kw ''SELECT'' then parse_select h t parsed_new
           else if ieq kw ''DELETE'' then parse_delete h t parsed_new
           else if ieq kw ''UPDATE'' then parse_update h t parsed_new
           else parsed_new))"

end
