(* ===== verification/Sql_Format.thy ===== *)
theory Sql_Format
  imports Sql_Parser
begin

text \<open>
  Printing a parsed statement: the normalised SQL of \<^verbatim>\<open>src/sql_format.c\<close> and the JSON of
  \<^verbatim>\<open>src/json_out.c\<close>. The output stream is the string written to it. The main lemmas read the
  normalised SQL back with the parser.
\<close>

section \<open>Normalised SQL\<close>

definition needs_quote :: "string \<Rightarrow> bool" where
  "needs_quote s \<longleftrightarrow> s = [] \<or> (\<exists>c \<in> set s. c \<in> set '' -:'') \<or>
     \<not> (is_digit (hd s) \<or> hd s = CHR ''-'' \<or> hd s = CHR ''+'')"

definition emit_value :: "string \<Rightarrow> string" where
  "emit_value v = (if needs_quote v then CHR 0x27 # v @ [CHR 0x27] else v)"

definition where_link_at :: "parsed_sql \<Rightarrow> nat \<Rightarrow> string" where
  "where_link_at sql i =
     (let link = (if sql_where_links sql \<noteq> [] then sql_where_links sql ! i
                  else if sql_where_logic sql \<noteq> [] then sql_where_logic sql else ''AND'')
      in if ieq link ''OR'' then ''OR'' else ''AND'')"

definition emit_cond :: "where_clause \<Rightarrow> string" where
  "emit_cond w = w_column w @ '' '' @ w_op w @ '' '' @ emit_value (w_value w)"

definition emit_where :: "parsed_sql \<Rightarrow> string" where
  "emit_where sql =
     (if sql_where sql = [] then []
      else '' WHERE '' @ concat (map (\<lambda>i. (if 0 < i then '' '' @ where_link_at sql (i - 1) @ '' '' else [])
                                        @ emit_cond (sql_where sql ! i)) [0..<length (sql_where sql)]))"

fun comma_sep :: "string list \<Rightarrow> string" where
  "comma_sep [] = []"
| "comma_sep [x] = x"
| "comma_sep (x # y # xs) = x @ '', '' @ comma_sep (y # xs)"

definition print_format :: "parsed_sql \<Rightarrow> string" where
  "print_format sql =
     (case sql_type sql of
        QUERY_CREATE \<Rightarrow> ''CREATE TABLE '' @ sql_table sql @ '' ('' @ comma_sep (sql_col_defs sql) @ '');'' @ [CHR 0x0A]
      | QUERY_INSERT \<Rightarrow> ''INSERT INTO '' @ sql_table sql @ '' ('' @ comma_sep (sql_columns sql) @ '') VALUES (''
          @ comma_sep (map emit_value (sql_values sql)) @ '');'' @ [CHR 0x0A]
      | QUERY_SELECT \<Rightarrow> ''SELECT '' @ comma_sep (sql_columns sql) @ '' FROM '' @ sql_table sql @ emit_where sql
          @ (case sql_order_by sql of None \<Rightarrow> []
             | Some ob \<Rightarrow> '' ORDER BY '' @ ob_column ob @ '' '' @ (if ob_asc ob then ''ASC'' else ''DESC''))
          @ (if 0 \<le> sql_limit sql then '' LIMIT '' @ show_int (sql_limit sql) else []) @ '';'' @ [CHR 0x0A]
      | QUERY_DELETE \<Rightarrow> ''DELETE FROM '' @ sql_table sql @ emit_where sql @ '';'' @ [CHR 0x0A]
      | QUERY_UPDATE \<Rightarrow> ''UPDATE '' @ sql_table sql @ '' SET ''
          @ comma_sep (map (\<lambda>s. sc_column s @ '' = '' @ emit_value (sc_value s)) (sql_set sql))
          @ emit_where sql @ '';'' @ [CHR 0x0A]
      | QUERY_UNKNOWN \<Rightarrow> ''-- (UNKNOWN query type)'' @ [CHR 0x0A])"

section \<open>JSON\<close>

definition qtype_str :: "query_type \<Rightarrow> string" where
  "qtype_str t = (case t of QUERY_SELECT \<Rightarrow> ''SELECT'' | QUERY_INSERT \<Rightarrow> ''INSERT''
     | QUERY_DELETE \<Rightarrow> ''DELETE'' | QUERY_UPDATE \<Rightarrow> ''UPDATE'' | QUERY_CREATE \<Rightarrow> ''CREATE''
     | QUERY_UNKNOWN \<Rightarrow> ''UNKNOWN'')"

definition dq :: string where "dq = [CHR 0x22]"

definition emit_str :: "string \<Rightarrow> string" where
  "emit_str s = dq @ concat (map (\<lambda>c. if c = CHR 0x22 \<or> c = CHR 0x5C then [CHR 0x5C, c] else [c]) s) @ dq"

fun join_comma :: "string list \<Rightarrow> string" where
  "join_comma [] = []"
| "join_comma [x] = x"
| "join_comma (x # y # xs) = x @ '','' @ join_comma (y # xs)"

definition emit_str_array :: "string list \<Rightarrow> string" where
  "emit_str_array xs = ''['' @ join_comma (map emit_str xs) @ '']''"

definition json_key :: "string \<Rightarrow> string" where
  "json_key k = '','' @ dq @ k @ dq @ '':''"

definition json_link_at :: "parsed_sql \<Rightarrow> nat \<Rightarrow> string" where
  "json_link_at sql i =
     (if i = 0 then []
      else if sql_where_links sql \<noteq> [] then sql_where_links sql ! (i - 1)
      else sql_where_logic sql)"

definition json_where :: "parsed_sql \<Rightarrow> string" where
  "json_where sql =
     (let ws = sql_where sql; n = length ws in
      if n = 0 then []
      else json_key ''where'' @ ''['' @ join_comma (map (\<lambda>w. ''{'' @ dq @ ''column'' @ dq @ '':'' @ emit_str (w_column w)
                @ json_key ''op'' @ emit_str (w_op w) @ json_key ''value'' @ emit_str (w_value w) @ ''}'') ws) @ '']''
        @ (if 1 < n then json_key ''where_links'' @ ''['' @
             join_comma (map (\<lambda>i. emit_str (json_link_at sql i)) [1..<n]) @ '']'' else [])
        @ (if 1 < n \<and> sql_where_links sql \<noteq> [] then json_key ''where_links'' @ emit_str_array (take (n - 1) (sql_where_links sql))
           else if sql_where_logic sql \<noteq> [] then json_key ''where_logic'' @ emit_str (sql_where_logic sql) else []))"

definition print_json :: "parsed_sql \<Rightarrow> string" where
  "print_json sql =
     ''{'' @ dq @ ''type'' @ dq @ '':'' @ emit_str (qtype_str (sql_type sql))
     @ json_key ''table'' @ emit_str (sql_table sql)
     @ (if sql_columns sql \<noteq> [] then json_key ''columns'' @ emit_str_array (sql_columns sql) else [])
     @ (if sql_values sql \<noteq> [] then json_key ''values'' @ emit_str_array (sql_values sql) else [])
     @ (if sql_col_defs sql \<noteq> [] then json_key ''col_defs'' @ emit_str_array (sql_col_defs sql) else [])
     @ json_where sql
     @ (if sql_set sql \<noteq> [] then json_key ''set'' @ ''['' @ join_comma (map (\<lambda>s. ''{'' @ dq @ ''column'' @ dq @ '':''
           @ emit_str (sc_column s) @ json_key ''value'' @ emit_str (sc_value s) @ ''}'') (sql_set sql)) @ '']'' else [])
     @ (case sql_order_by sql of None \<Rightarrow> []
        | Some ob \<Rightarrow> json_key ''order_by'' @ ''{'' @ dq @ ''column'' @ dq @ '':'' @ emit_str (ob_column ob)
            @ json_key ''asc'' @ (if ob_asc ob then ''true'' else ''false'') @ ''}'')
     @ (if 0 \<le> sql_limit sql then json_key ''limit'' @ show_int (sql_limit sql) else [])
     @ ''}'' @ [CHR 0x0A]"

section \<open>Tokens of printed text\<close>

declare tokenize.simps(2) [simp del]

text \<open>A word of the tokenizer, and the texts at which a word ends.\<close>

definition is_ident :: "string \<Rightarrow> bool" where
  "is_ident w \<longleftrightarrow> w \<noteq> [] \<and> (\<forall>c \<in> set w. is_word_char c) \<and> take 2 w \<noteq> ''--''"

definition sep :: "string \<Rightarrow> bool" where
  "sep s \<longleftrightarrow> s = [] \<or> \<not> is_word_char (hd s)"

lemma sep_simps [simp]:
  "sep []" "sep (CHR '' '' # s)" "sep (CHR '','' # s)" "sep (CHR ''('' # s)" "sep (CHR '')'' # s)"
  "sep (CHR '';'' # s)" "sep (CHR ''='' # s)" "sep (CHR 0x0A # s)"
  by (simp_all add: sep_def is_word_char_def is_alnum_def is_digit_def is_upper_def is_lower_def)

lemma word_char_class:
  "is_word_char c \<Longrightarrow> \<not> is_space c \<and> \<not> is_quote c \<and> \<not> is_punct c \<and> c \<noteq> CHR ''='' \<and> c \<notin> set ''><!''"
  by (auto simp: is_word_char_def is_alnum_def is_digit_def is_upper_def is_lower_def is_space_def
      is_quote_def is_punct_def)

lemma sep_ends: "sep s \<Longrightarrow> takeWhile is_word_char s = [] \<and> dropWhile is_word_char s = s"
  by (cases s) (auto simp: sep_def)

lemma tokenize_word:
  "is_word_char c \<Longrightarrow> \<not> (c = CHR ''-'' \<and> cs \<noteq> [] \<and> hd cs = CHR ''-'') \<Longrightarrow>
     tokenize (c # cs) = (c # takeWhile is_word_char cs) # tokenize (dropWhile is_word_char cs)"
  using word_char_class [of c] by (subst tokenize.simps(2)) (simp only: if_False if_True simp_thms)

lemma tok_word:
  assumes "is_ident w" "sep s"
  shows "tokenize (w @ s) = w # tokenize s"
proof -
  obtain c cs where w: "w = c # cs" using assms(1) by (cases w) (auto simp: is_ident_def)
  have c: "is_word_char c" "\<forall>c \<in> set cs. is_word_char c" using assms(1) by (auto simp: w is_ident_def)
  have nc: "\<not> (c = CHR ''-'' \<and> cs @ s \<noteq> [] \<and> hd (cs @ s) = CHR ''-'')"
  proof (cases cs)
    case Nil
    then show ?thesis using assms(2) by (auto simp: sep_def is_word_char_def)
  next
    case (Cons d ds)
    then show ?thesis using assms(1) by (auto simp: w is_ident_def)
  qed
  show ?thesis
    using tokenize_word [OF c(1) nc] c(2) sep_ends [OF assms(2)] by (simp add: w)
qed

lemma tok_simps [simp]:
  "tokenize (CHR '' '' # s) = tokenize s" "tokenize (CHR 0x0A # s) = tokenize s"
  "tokenize (CHR '','' # s) = '','' # tokenize s" "tokenize (CHR ''('' # s) = ''('' # tokenize s"
  "tokenize (CHR '')'' # s) = '')'' # tokenize s" "tokenize (CHR '';'' # s) = '';'' # tokenize s"
  "tokenize (CHR ''*'' # s) = ''*'' # tokenize s" "tokenize (CHR ''='' # s) = ''='' # tokenize s"
  by (subst tokenize.simps(2), simp add: is_space_def is_quote_def is_punct_def)+

lemma tok_quoted: "CHR 0x27 \<notin> set v \<Longrightarrow> tokenize (CHR 0x27 # v @ CHR 0x27 # s) = v # tokenize s"
proof -
  assume v: "CHR 0x27 \<notin> set v"
  then have "takeWhile (\<lambda>x. x \<noteq> CHR 0x27) (v @ CHR 0x27 # s) = v"
    and "dropWhile (\<lambda>x. x \<noteq> CHR 0x27) (v @ CHR 0x27 # s) = CHR 0x27 # s"
    by (induction v) auto
  then show ?thesis by (subst tokenize.simps(2)) (simp add: is_space_def is_quote_def)
qed

definition value_ok :: "string \<Rightarrow> bool" where
  "value_ok v \<longleftrightarrow> CHR 0x27 \<notin> set v \<and> (\<not> needs_quote v \<longrightarrow> (\<forall>c \<in> set v. is_word_char c))"

lemma tok_value:
  assumes "value_ok v" "sep s"
  shows "tokenize (emit_value v @ s) = v # tokenize s"
proof (cases "needs_quote v")
  case True
  then show ?thesis using assms tok_quoted [of v s] by (simp add: emit_value_def value_ok_def)
next
  case False
  then have ne: "v \<noteq> []" by (auto simp: needs_quote_def)
  have "take 2 v \<noteq> ''--''"
  proof
    assume "take 2 v = ''--''"
    then have "CHR ''-'' \<in> set v" by (cases v) auto
    then show False using False by (auto simp: needs_quote_def)
  qed
  then have "is_ident v" using False assms(1) ne by (simp add: is_ident_def value_ok_def)
  then show ?thesis using False assms(2) by (simp add: emit_value_def tok_word)
qed

section \<open>Parsing printed text\<close>

text \<open>The statements the printer keeps: see the property below for what they mean.\<close>

definition name_ok :: "string \<Rightarrow> bool" where
  "name_ok n \<longleftrightarrow> is_ident n \<and> length n \<le> 63"

definition op_ok :: "string \<Rightarrow> bool" where
  "op_ok p \<longleftrightarrow> p \<in> {''='', ''!='', ''<'', ''<='', ''>'', ''>=''} \<or>
     (is_ident p \<and> length p < 7 \<and> \<not> ieq p ''BETWEEN'')"

definition cond_ok :: "where_clause \<Rightarrow> bool" where
  "cond_ok w \<longleftrightarrow> is_ident (w_column w) \<and> length (w_column w) < 63 \<and> op_ok (w_op w) \<and>
     value_ok (w_value w) \<and> length (w_value w) < 255 \<and> w_value_to w = []"

fun cond_toks :: "where_clause \<Rightarrow> toks" where
  "cond_toks w = [w_column w, w_op w, w_value w]"

lemma tok_two:
  "tokenize (CHR ''>'' # CHR ''='' # s) = ''>='' # tokenize s"
  "tokenize (CHR ''<'' # CHR ''='' # s) = ''<='' # tokenize s"
  "tokenize (CHR ''!'' # CHR ''='' # s) = ''!='' # tokenize s"
  by (subst tokenize.simps(2), simp add: is_space_def is_quote_def is_punct_def)+

lemma tok_one:
  "tokenize (CHR ''>'' # CHR '' '' # s) = ''>'' # tokenize s"
  "tokenize (CHR ''<'' # CHR '' '' # s) = ''<'' # tokenize s"
  by (subst tokenize.simps(2), simp add: is_space_def is_quote_def is_punct_def)+

lemma tok_op: "op_ok p \<Longrightarrow> tokenize (p @ CHR '' '' # s) = p # tokenize s"
  unfolding op_ok_def by (elim disjE conjE insertE emptyE) (simp_all add: tok_two tok_one tok_word)

lemma op_not_between: "op_ok p \<Longrightarrow> \<not> ieq p ''BETWEEN'' \<and> length p < 7"
proof -
  have "\<not> ieq ''='' ''BETWEEN''" "\<not> ieq ''!='' ''BETWEEN''" "\<not> ieq ''<'' ''BETWEEN''"
    "\<not> ieq ''<='' ''BETWEEN''" "\<not> ieq ''>'' ''BETWEEN''" "\<not> ieq ''>='' ''BETWEEN''"
    by code_simp+
  then show "op_ok p \<Longrightarrow> ?thesis"
    unfolding op_ok_def by (elim disjE conjE insertE emptyE) (simp_all del: ieq.simps)
qed

lemma tok_cond: "cond_ok w \<Longrightarrow> sep s \<Longrightarrow> tokenize (emit_cond w @ s) = cond_toks w @ tokenize s"
  by (simp add: emit_cond_def cond_ok_def tok_word tok_op tok_value)

text \<open>The conditions with the connectives between them, as text and as tokens.\<close>

fun conds_text :: "where_clause list \<Rightarrow> string list \<Rightarrow> string" where
  "conds_text (w # ws) (l # ls) = emit_cond w @ '' '' @ l @ '' '' @ conds_text ws ls"
| "conds_text (w # ws) [] = emit_cond w"
| "conds_text [] ls = []"

fun conds_toks :: "where_clause list \<Rightarrow> string list \<Rightarrow> toks" where
  "conds_toks (w # ws) (l # ls) = cond_toks w @ l # conds_toks ws ls"
| "conds_toks (w # ws) [] = cond_toks w"
| "conds_toks [] ls = []"

definition link_ok :: "string \<Rightarrow> bool" where
  "link_ok l \<longleftrightarrow> l = ''AND'' \<or> l = ''OR''"

lemma link_word: "link_ok l \<Longrightarrow> is_ident l"
  by (auto simp: link_ok_def is_ident_def is_word_char_def is_alnum_def is_upper_def)

lemma link_kw: "link_ok l \<Longrightarrow> (ieq l ''AND'' \<or> ieq l ''OR'') \<and> (if ieq l ''OR'' then ''OR'' else ''AND'') = l"
proof -
  have "\<not> ieq ''AND'' ''OR''" by code_simp
  then show "link_ok l \<Longrightarrow> ?thesis"
    unfolding link_ok_def by (elim disjE) (simp_all del: ieq.simps)
qed

lemma tok_conds:
  "length ws = Suc (length ls) \<Longrightarrow> \<forall>w \<in> set ws. cond_ok w \<Longrightarrow> \<forall>l \<in> set ls. link_ok l \<Longrightarrow> sep s \<Longrightarrow>
     tokenize (conds_text ws ls @ s) = conds_toks ws ls @ tokenize s"
proof (induction ws ls rule: conds_text.induct)
  case (1 w ws l ls)
  then show ?case using link_word [of l] by (simp add: tok_cond tok_word del: cond_toks.simps)
next
  case (2 w ws)
  then show ?case by (simp add: tok_cond del: cond_toks.simps)
qed simp

lemma strncpy_id [simp]: "length s \<le> n \<Longrightarrow> strncpy n s = s"
  by (simp add: strncpy_def)

text \<open>What the parser stores of such a condition, and what is read from it.\<close>

definition cond_cell :: "where_clause \<Rightarrow> where_cell" where
  "cond_cell w = \<lparr>wc_column = w_column w, wc_op = w_op w, wc_value = w_value w, wc_to = None\<rparr>"

lemma field_text_short [simp]: "length src < n \<Longrightarrow> field_text n src c next = src"
  by (simp add: field_text_def)

lemma where_texts_cells: "\<forall>w \<in> set ws. cond_ok w \<Longrightarrow> where_texts h k (map cond_cell ws) = ws"
proof (induction ws arbitrary: k)
  case (Cons w ws)
  then show ?case
    using op_not_between [of "w_op w"]
    by (cases w) (simp add: cond_ok_def cond_cell_def op_text_def value_text_def to_text_def Let_def)
qed simp

lemma where_step:
  assumes "cond_ok w"
  shows "where_loop (cond_toks w @ t) ws ls =
    (case t of [] \<Rightarrow> (ws @ [cond_cell w], ls, [])
     | k # t2 \<Rightarrow> if ieq k ''AND'' \<or> ieq k ''OR''
         then where_loop t2 (ws @ [cond_cell w]) (ls @ [if ieq k ''OR'' then ''OR'' else ''AND''])
         else (ws @ [cond_cell w], ls, k # t2))"
proof -
  have "\<not> ieq (w_op w) ''BETWEEN''"
    using assms op_not_between by (simp_all add: cond_ok_def)
  then show ?thesis
    using assms by (simp add: cond_cell_def Let_def split: list.split)
qed

lemma where_conds:
  assumes "length ws = Suc (length ls)" "\<forall>w \<in> set ws. cond_ok w" "\<forall>l \<in> set ls. link_ok l"
    and "t = [] \<or> \<not> (ieq (hd t) ''AND'' \<or> ieq (hd t) ''OR'')"
  shows "where_loop (conds_toks ws ls @ t) ws0 ls0 = (ws0 @ map cond_cell ws, ls0 @ ls, t)"
  using assms
proof (induction ws ls arbitrary: ws0 ls0 rule: conds_text.induct)
  case (1 w ws l ls)
  have "(ieq l ''AND'' \<or> ieq l ''OR'') \<and> (if ieq l ''OR'' then ''OR'' else ''AND'') = l"
    using 1 link_kw [of l] by simp
  then show ?case
    using 1 by (simp add: where_step del: cond_toks.simps where_loop.simps)
next
  case (2 w ws)
  then show ?case
    using where_step [of w t] by (cases t) (simp_all del: cond_toks.simps where_loop.simps)
qed simp

text \<open>What the parser stores in \<^verbatim>\<open>where_logic\<close>.\<close>

definition common_logic :: "string list \<Rightarrow> string" where
  "common_logic ls = (if ls \<noteq> [] \<and> (\<forall>l \<in> set (tl ls). ieq (hd ls) l) then hd ls else [])"

definition where_ok :: "parsed_sql \<Rightarrow> bool" where
  "where_ok sql \<longleftrightarrow> (\<forall>w \<in> set (sql_where sql). cond_ok w) \<and> (\<forall>l \<in> set (sql_where_links sql). link_ok l) \<and>
     length (sql_where_links sql) = length (sql_where sql) - 1 \<and>
     sql_where_logic sql = common_logic (sql_where_links sql)"

lemma emit_where_text:
  assumes "where_ok sql"
  shows "emit_where sql = (if sql_where sql = [] then []
     else '' WHERE '' @ conds_text (sql_where sql) (sql_where_links sql))"
proof -
  have link: "where_link_at sql i = sql_where_links sql ! i" if "i < length (sql_where_links sql)" for i
  proof -
    have "link_ok (sql_where_links sql ! i)" "sql_where_links sql \<noteq> []"
      using that assms nth_mem [OF that] by (auto simp: where_ok_def)
    then show ?thesis using link_kw by (simp add: where_link_at_def)
  qed
  have gen: "concat (map (\<lambda>i. (if 0 < i then '' '' @ where_link_at sql (k + i - 1) @ '' '' else []) @
        emit_cond (ws ! i)) [0..<length ws]) = conds_text ws ls"
    if "length ws = Suc (length ls)" "\<forall>i < length ls. where_link_at sql (k + i) = ls ! i" for ws ls k
    using that
  proof (induction ws ls arbitrary: k rule: conds_text.induct)
    case (1 w ws l ls)
    have "concat (map (\<lambda>i. (if 0 < i then '' '' @ where_link_at sql (Suc k + i - 1) @ '' '' else []) @
        emit_cond (ws ! i)) [0..<length ws]) = conds_text ws ls"
    proof (rule "1.IH")
      show "length ws = Suc (length ls)" using 1 by simp
      show "\<forall>i < length ls. where_link_at sql (Suc k + i) = ls ! i"
        using "1.prems"(2) by (metis Suc_less_eq add_Suc_shift length_Cons nth_Cons_Suc)
    qed
    moreover obtain v vs where ws: "ws = v # vs" using 1 by (cases ws) auto
    moreover have "where_link_at sql k = l" using 1 by force
    ultimately show ?case
      by (simp add: upt_conv_Cons map_Suc_upt [symmetric] comp_def del: upt_Suc)
  qed (simp_all)
  show ?thesis
  proof (cases "sql_where sql = []")
    case False
    then have "length (sql_where sql) = Suc (length (sql_where_links sql))"
      using assms by (simp add: where_ok_def Suc_leI)
    then show ?thesis
      using gen [of "sql_where sql" "sql_where_links sql" 0] link False
      by (simp only: emit_where_def if_False add_0) simp
  qed (simp add: emit_where_def)
qed

lemma ieq_kw [simp]:
  "\<not> ieq '';'' ''AND''" "\<not> ieq '';'' ''OR''" "\<not> ieq '';'' ''WHERE''" "\<not> ieq '';'' ''ORDER''"
  "\<not> ieq '';'' ''LIMIT''" "\<not> ieq '';'' '',''" "\<not> ieq ''ORDER'' ''AND''" "\<not> ieq ''ORDER'' ''OR''"
  "\<not> ieq ''ORDER'' ''WHERE''" "\<not> ieq ''LIMIT'' ''AND''" "\<not> ieq ''LIMIT'' ''OR''"
  "\<not> ieq ''LIMIT'' ''WHERE''" "\<not> ieq ''LIMIT'' ''ORDER''" "\<not> ieq ''WHERE'' '',''" "\<not> ieq ''FROM'' '',''"
  "\<not> ieq '')'' '',''" "\<not> ieq ''ASC'' ''DESC''"
  "\<not> ieq ''INSERT'' ''CREATE''" "\<not> ieq ''SELECT'' ''CREATE''" "\<not> ieq ''SELECT'' ''INSERT''"
  "\<not> ieq ''DELETE'' ''CREATE''" "\<not> ieq ''DELETE'' ''INSERT''" "\<not> ieq ''DELETE'' ''SELECT''"
  "\<not> ieq ''UPDATE'' ''CREATE''" "\<not> ieq ''UPDATE'' ''INSERT''" "\<not> ieq ''UPDATE'' ''SELECT''"
  "\<not> ieq ''UPDATE'' ''DELETE''" "\<not> ieq ''ORDER'' '',''" "\<not> ieq ''LIMIT'' '',''"
  by code_simp+

declare ieq.simps [simp del]

lemma kw_ident [simp]:
  "is_ident ''CREATE''" "is_ident ''TABLE''" "is_ident ''INSERT''" "is_ident ''INTO''" "is_ident ''VALUES''"
  "is_ident ''SELECT''" "is_ident ''FROM''" "is_ident ''WHERE''" "is_ident ''ORDER''" "is_ident ''BY''"
  "is_ident ''ASC''" "is_ident ''DESC''" "is_ident ''LIMIT''" "is_ident ''DELETE''" "is_ident ''UPDATE''"
  "is_ident ''SET''"
  by code_simp+

lemma sep_append: "x \<noteq> [] \<Longrightarrow> sep (x @ s) = sep x"
  by (cases x) (auto simp: sep_def)

lemma tok_where:
  assumes "where_ok sql" "sep s"
  shows "tokenize (emit_where sql @ s) = (if sql_where sql = [] then []
     else ''WHERE'' # conds_toks (sql_where sql) (sql_where_links sql)) @ tokenize s"
proof (cases "sql_where sql = []")
  case False
  then have "length (sql_where sql) = Suc (length (sql_where_links sql))"
    using assms(1) by (simp add: where_ok_def Suc_leI)
  then show ?thesis
    using assms tok_word [of "''WHERE''"] tok_conds [of "sql_where sql" "sql_where_links sql" s]
    by (simp add: emit_where_text where_ok_def)
qed (simp add: emit_where_def)

lemma sep_where: "sep s \<Longrightarrow> where_ok sql \<Longrightarrow> sep (emit_where sql @ s)"
  by (simp add: emit_where_text)

lemma parse_where_conds:
  assumes ok: "where_ok sql" and ne: "sql_where sql \<noteq> []"
    and t: "t = [] \<or> \<not> (ieq (hd t) ''AND'' \<or> ieq (hd t) ''OR'')"
  shows "parse_where h (conds_toks (sql_where sql) (sql_where_links sql) @ t) sql0
    = (sql0\<lparr>sql_where := sql_where sql, sql_where_links := sql_where_links sql,
            sql_where_logic := sql_where_logic sql\<rparr>, t)"
proof -
  have len: "length (sql_where sql) = Suc (length (sql_where_links sql))"
    using ok ne by (simp add: where_ok_def Suc_leI)
  have short: "strncpy 7 l = l" if "link_ok l" for l
    using that unfolding link_ok_def by (elim disjE) simp_all
  have "strncpy 7 (hd (sql_where_links sql)) = hd (sql_where_links sql)" if "sql_where_links sql \<noteq> []"
    using ok hd_in_set [OF that] by (intro short) (simp add: where_ok_def)
  then have logic: "(if sql_where_links sql \<noteq> [] \<and> (\<forall>l \<in> set (tl (sql_where_links sql)). ieq (hd (sql_where_links sql)) l)
      then strncpy 7 (hd (sql_where_links sql)) else []) = sql_where_logic sql"
    using ok by (simp add: where_ok_def common_logic_def)
  have loop: "where_loop (conds_toks (sql_where sql) (sql_where_links sql) @ t) [] []
      = (map cond_cell (sql_where sql), sql_where_links sql, t)"
    using where_conds [OF len _ _ t, of "[]" "[]"] ok by (simp add: where_ok_def)
  have keep: "(if sql_where_links sql \<noteq> [] \<and> length (sql_where_links sql) + 1 \<noteq> length (map cond_cell (sql_where sql))
      then butlast (sql_where_links sql) else sql_where_links sql) = sql_where_links sql"
    using len by simp
  show ?thesis
    using where_texts_cells [of "sql_where sql" h 0] ok
    unfolding parse_where_def loop Let_def prod.case keep logic by (simp add: where_ok_def)
qed

text \<open>The rest of a statement after its conditions: what \<^verbatim>\<open>opt_where\<close> does not touch.\<close>

definition after_where :: "toks \<Rightarrow> bool" where
  "after_where t \<longleftrightarrow> t \<noteq> [] \<and> \<not> ieq (hd t) ''AND'' \<and> \<not> ieq (hd t) ''OR'' \<and> \<not> ieq (hd t) ''WHERE''"

lemma opt_where_toks:
  assumes "where_ok sql" "after_where t"
    and "sql_where sql0 = []" "sql_where_links sql0 = []" "sql_where_logic sql0 = []"
  shows "opt_where h ((if sql_where sql = [] then []
       else ''WHERE'' # conds_toks (sql_where sql) (sql_where_links sql)) @ t) sql0
    = (sql0\<lparr>sql_where := sql_where sql, sql_where_links := sql_where_links sql,
            sql_where_logic := sql_where_logic sql\<rparr>, t)"
proof (cases "sql_where sql = []")
  case True
  then have "sql_where_links sql = [] \<and> sql_where_logic sql = []"
    using assms(1) by (auto simp: where_ok_def common_logic_def)
  then show ?thesis
    using True assms by (cases t) (auto simp: opt_where_def match_kw_def after_where_def)
next
  case False
  then show ?thesis
    using parse_where_conds [OF assms(1) False, of t h sql0] assms(2)
    by (simp add: opt_where_def match_kw_def after_where_def)
qed

text \<open>Comma-separated lists.\<close>

fun sep_toks :: "toks list \<Rightarrow> toks" where
  "sep_toks [] = []"
| "sep_toks [t] = t"
| "sep_toks (t # u # ts) = t @ '','' # sep_toks (u # ts)"

lemma tok_comma_sep:
  "\<forall>x \<in> set xs. \<forall>s. sep s \<longrightarrow> tokenize (f x @ s) = g x @ tokenize s \<Longrightarrow> sep s \<Longrightarrow>
     tokenize (comma_sep (map f xs) @ s) = sep_toks (map g xs) @ tokenize s"
proof (induction xs)
  case (Cons x xs)
  then show ?case by (cases xs) simp_all
qed simp

lemmas parse_defs = parse_sql_def expect_kw_def match_kw_def advance_def set_table_def

text \<open>Column expressions: a name, a star, or a call of one argument.\<close>

definition arg_ok :: "string \<Rightarrow> bool" where
  "arg_ok a \<longleftrightarrow> is_ident a \<or> a = ''*''"

definition col_ok :: "string \<Rightarrow> bool" where
  "col_ok c \<longleftrightarrow> length c \<le> 159 \<and>
     ((arg_ok c \<and> \<not> is_select_stop_token c) \<or>
      (\<exists>f a. c = f @ ''('' @ a @ '')'' \<and> is_ident f \<and> \<not> is_select_stop_token f \<and> arg_ok a))"

lemma tok_arg: "arg_ok a \<Longrightarrow> sep s \<Longrightarrow> tokenize (a @ s) = a # tokenize s"
  by (auto simp: arg_ok_def tok_word)

lemma arg_not_close: "arg_ok a \<Longrightarrow> a \<noteq> '')'' \<and> a \<noteq> '';'' \<and> a \<noteq> ''(''"
  by (auto simp: arg_ok_def is_ident_def is_word_char_def is_alnum_def is_digit_def is_upper_def is_lower_def)

lemma colbuf_short: "length b + length s \<le> 159 \<Longrightarrow> colbuf_add b s = b @ s"
  unfolding colbuf_add_def by (rule take_all) simp

lemma col_toks:
  assumes "col_ok c"
  shows "\<exists>ts. ts \<noteq> [] \<and> \<not> is_select_stop_token (hd ts) \<and>
    (\<forall>s. sep s \<longrightarrow> tokenize (c @ s) = ts @ tokenize s) \<and>
    (\<forall>t. (t = [] \<or> hd t \<noteq> ''('') \<longrightarrow> column_expr (ts @ t) = (c, t))"
proof -
  consider "arg_ok c" "\<not> is_select_stop_token c"
    | f a where "c = f @ ''('' @ a @ '')''" "is_ident f" "\<not> is_select_stop_token f" "arg_ok a"
    using assms by (auto simp: col_ok_def)
  then show ?thesis
  proof cases
    case 1
    then show ?thesis
      using assms by (intro exI [of _ "[c]"]) (auto simp: tok_arg column_expr_def col_ok_def)
  next
    case (2 f a)
    have "tokenize (c @ s) = [f, ''('', a, '')''] @ tokenize s" for s
      using 2 by (simp add: tok_word tok_arg)
    moreover have "column_expr ([f, ''('', a, '')''] @ t) = (c, t)" for t
    proof -
      have "length f + length a \<le> 157" using assms by (simp add: col_ok_def 2(1))
      then show ?thesis
        using 2 arg_not_close [OF 2(4)] by (simp add: column_expr_def colbuf_short)
    qed
    ultimately show ?thesis
      using 2 by (intro exI [of _ "[f, ''('', a, '')'']"]) simp
  qed
qed

lemma col_toks_fun:
  assumes "\<forall>c \<in> set cs. col_ok c"
  obtains g where "\<forall>c \<in> set cs. g c \<noteq> [] \<and> \<not> is_select_stop_token (hd (g c)) \<and>
    (\<forall>s. sep s \<longrightarrow> tokenize (c @ s) = g c @ tokenize s) \<and>
    (\<forall>t. (t = [] \<or> hd t \<noteq> ''('') \<longrightarrow> column_expr (g c @ t) = (c, t))"
  using col_toks assms by metis

lemma select_columns_toks:
  assumes "\<forall>c \<in> set cs. g c \<noteq> [] \<and> \<not> is_select_stop_token (hd (g c)) \<and>
    (\<forall>t. (t = [] \<or> hd t \<noteq> ''('') \<longrightarrow> column_expr (g c @ t) = (c, t))"
  shows "select_columns (sep_toks (map g cs) @ ''FROM'' # t) = (cs, ''FROM'' # t)"
  using assms
proof (induction cs)
  case Nil
  have "is_select_stop_token ''FROM''" by code_simp
  then show ?case by (simp add: select_columns.simps)
next
  case (Cons c cs)
  have hd: "hd (g c @ ts) = hd (g c)" for ts using Cons.prems by simp
  show ?case
  proof (cases cs)
    case Nil
    then show ?thesis
      using Cons.prems hd by (subst select_columns.simps) (simp add: match_kw_def)
  next
    case (Cons d ds)
    then show ?thesis
      using Cons.IH Cons.prems hd
      by (subst select_columns.simps) (simp add: match_kw_def)
  qed
qed

lemma ident_loop_toks:
  "\<forall>x \<in> set xs. x \<noteq> '')'' \<Longrightarrow> ident_loop (sep_toks (map (\<lambda>x. [x]) xs) @ '')'' # t) = (xs, '')'' # t)"
proof (induction xs)
  case (Cons x xs)
  then show ?case by (cases xs) simp_all
qed simp

definition coldef_ok :: "string \<Rightarrow> bool" where
  "coldef_ok d \<longleftrightarrow> (\<exists>n ty. d = n @ '' '' @ ty \<and> is_ident n \<and> is_ident ty \<and> length d \<le> 159)"

lemma coldef_toks:
  assumes "\<forall>d \<in> set ds. coldef_ok d"
  shows "\<exists>ps. ds = map (\<lambda>(n, ty). n @ '' '' @ ty) ps \<and> (\<forall>(n, ty) \<in> set ps. is_ident n \<and> is_ident ty) \<and>
    (\<forall>d \<in> set ds. length d \<le> 159)"
  using assms
proof (induction ds)
  case (Cons d ds)
  then obtain ps where "ds = map (\<lambda>(n, ty). n @ '' '' @ ty) ps \<and> (\<forall>(n, ty) \<in> set ps. is_ident n \<and> is_ident ty) \<and>
    (\<forall>d \<in> set ds. length d \<le> 159)" by auto
  moreover obtain n ty where "d = n @ '' '' @ ty \<and> is_ident n \<and> is_ident ty \<and> length d \<le> 159"
    using Cons.prems by (auto simp: coldef_ok_def)
  ultimately show ?case by (intro exI [of _ "(n, ty) # ps"]) auto
qed simp

lemma ident_not_close: "is_ident n \<Longrightarrow> n \<noteq> '')''"
  using arg_not_close by (simp add: arg_ok_def)

lemma col_defs_loop_toks:
  "\<forall>(n, ty) \<in> set ps. is_ident n \<and> is_ident ty \<Longrightarrow> \<forall>(n, ty) \<in> set ps. length (n @ '' '' @ ty) \<le> 159 \<Longrightarrow>
     col_defs_loop (sep_toks (map (\<lambda>(n, ty). [n, ty]) ps) @ '')'' # t) = map (\<lambda>(n, ty). n @ '' '' @ ty) ps"
proof (induction ps)
  case Nil
  then show ?case by (cases t) simp_all
next
  case (Cons p ps)
  then show ?case by (cases p; cases ps) (auto simp: ident_not_close)
qed

definition set_ok :: "set_clause \<Rightarrow> bool" where
  "set_ok s \<longleftrightarrow> is_ident (sc_column s) \<and> length (sc_column s) < 63 \<and> \<not> ieq (sc_column s) ''WHERE'' \<and>
     value_ok (sc_value s) \<and> length (sc_value s) < 255"

lemma set_texts_fit:
  "\<forall>s \<in> set ss. set_ok s \<Longrightarrow> set_texts h i (map (\<lambda>s. (sc_column s, sc_value s)) ss) = ss"
  by (induction ss arbitrary: i) (simp_all add: set_ok_def)

lemma set_loop_toks:
  "\<forall>s \<in> set ss. set_ok s \<Longrightarrow> ss \<noteq> [] \<Longrightarrow> t \<noteq> [] \<Longrightarrow> \<not> ieq (hd t) '','' \<Longrightarrow>
     set_loop (sep_toks (map (\<lambda>s. [sc_column s, ''='', sc_value s]) ss) @ t) = (map (\<lambda>s. (sc_column s, sc_value s)) ss, t)"
proof (induction ss)
  case (Cons s ss)
  obtain c v where s: "s = \<lparr>sc_column = c, sc_value = v\<rparr>" by (cases s)
  have "c \<noteq> '';''" "\<not> ieq c ''WHERE''"
    using Cons.prems arg_not_close [of c] by (auto simp: s set_ok_def arg_ok_def)
  then show ?case
    using Cons by (cases ss; cases t) (simp_all add: s)
qed simp

text \<open>The statements the printer does not spoil.\<close>

definition fmt_ok :: "parsed_sql \<Rightarrow> bool" where
  "fmt_ok sql \<longleftrightarrow> name_ok (sql_table sql) \<and> where_ok sql \<and>
     (case sql_type sql of
        QUERY_CREATE \<Rightarrow> (\<forall>d \<in> set (sql_col_defs sql). coldef_ok d) \<and>
          sql = parsed_new\<lparr>sql_type := QUERY_CREATE, sql_table := sql_table sql, sql_col_defs := sql_col_defs sql\<rparr>
      | QUERY_INSERT \<Rightarrow> (\<forall>c \<in> set (sql_columns sql). is_ident c) \<and>
          (\<forall>v \<in> set (sql_values sql). value_ok v \<and> v \<noteq> '')'') \<and>
          sql = parsed_new\<lparr>sql_type := QUERY_INSERT, sql_table := sql_table sql,
                  sql_columns := sql_columns sql, sql_values := sql_values sql\<rparr>
      | QUERY_SELECT \<Rightarrow> (\<forall>c \<in> set (sql_columns sql). col_ok c) \<and>
          (case sql_order_by sql of None \<Rightarrow> True | Some ob \<Rightarrow> name_ok (ob_column ob)) \<and>
          -1 \<le> sql_limit sql \<and> sql_limit sql \<le> int_max \<and>
          sql_values sql = [] \<and> sql_set sql = [] \<and> sql_col_defs sql = []
      | QUERY_DELETE \<Rightarrow> sql_columns sql = [] \<and> sql_values sql = [] \<and> sql_order_by sql = None \<and>
          sql_limit sql = -1 \<and> sql_set sql = [] \<and> sql_col_defs sql = []
      | QUERY_UPDATE \<Rightarrow> sql_set sql \<noteq> [] \<and> (\<forall>s \<in> set (sql_set sql). set_ok s) \<and>
          sql_columns sql = [] \<and> sql_values sql = [] \<and> sql_order_by sql = None \<and>
          sql_limit sql = -1 \<and> sql_col_defs sql = []
      | QUERY_UNKNOWN \<Rightarrow> False)"

text \<open>The longest case, by itself.\<close>

lemma order_toks:
  assumes "case ob of None \<Rightarrow> True | Some o1 \<Rightarrow> name_ok (ob_column o1)" and "sep s"
  shows "tokenize ((case ob of None \<Rightarrow> []
       | Some o1 \<Rightarrow> '' ORDER BY '' @ ob_column o1 @ '' '' @ (if ob_asc o1 then ''ASC'' else ''DESC'')) @ s)
     = (case ob of None \<Rightarrow> [] | Some o1 \<Rightarrow> [''ORDER'', ''BY'', ob_column o1, if ob_asc o1 then ''ASC'' else ''DESC''])
       @ tokenize s"
proof (cases ob)
  case (Some o1)
  then have "is_ident (ob_column o1)" using assms(1) by (simp add: name_ok_def)
  then show ?thesis
    using assms(2) tok_word [where w = "''ORDER''"] tok_word [where w = "''BY''"]
      tok_word [where w = "''ASC''"] tok_word [where w = "''DESC''"]
    by (simp add: Some tok_word)
qed simp

lemma limit_toks:
  assumes "sep s"
  shows "tokenize ((if 0 \<le> l then '' LIMIT '' @ show_int l else []) @ s)
    = (if 0 \<le> l then [''LIMIT'', show_int l] else []) @ tokenize s"
proof (cases "0 \<le> l")
  case True
  have d: "\<forall>c \<in> set (show_int l). is_digit c"
    using True show_nat_digits by (simp add: show_int_def)
  then have w: "\<forall>c \<in> set (show_int l). is_word_char c"
    by (simp add: is_word_char_def is_alnum_def)
  have "take 2 (show_int l) \<noteq> ''--''"
    using d by (cases "show_int l") (auto simp: is_digit_def)
  then have "is_ident (show_int l)" using w by (simp add: is_ident_def)
  then show ?thesis using True assms tok_word [where w = "''LIMIT''"] by (simp add: tok_word)
qed simp

lemma sep_order: "sep s \<Longrightarrow> sep ((case ob of None \<Rightarrow> []
       | Some o1 \<Rightarrow> '' ORDER BY '' @ ob_column o1 @ '' '' @ (if ob_asc o1 then ''ASC'' else ''DESC'')) @ s)"
  by (cases ob) simp_all

lemma sep_limit: "sep s \<Longrightarrow> sep ((if 0 \<le> l then '' LIMIT '' @ show_int l else []) @ s)"
  by simp

lemma opt_order_toks:
  assumes "case ob of None \<Rightarrow> True | Some o1 \<Rightarrow> name_ok (ob_column o1)" and "t \<noteq> []" "\<not> ieq (hd t) ''ORDER''"
    and "sql_order_by sql0 = None"
  shows "opt_order ((case ob of None \<Rightarrow> [] | Some o1 \<Rightarrow> [''ORDER'', ''BY'', ob_column o1,
      if ob_asc o1 then ''ASC'' else ''DESC'']) @ t) sql0 = (sql0\<lparr>sql_order_by := ob\<rparr>, t)"
proof (cases ob)
  case None
  then show ?thesis using assms by (cases t) (auto simp: opt_order_def match_kw_def)
next
  case (Some o1)
  have "length (ob_column o1) \<le> 63" using assms(1) Some by (simp add: name_ok_def)
  then show ?thesis
    by (cases o1) (simp add: Some opt_order_def match_kw_def expect_kw_def advance_def)
qed

lemma opt_limit_toks:
  assumes "-1 \<le> l" "l \<le> int_max" "sql_limit sql0 = -1"
  shows "opt_limit ((if 0 \<le> l then [''LIMIT'', show_int l] else []) @ ['';'']) sql0 = sql0\<lparr>sql_limit := l\<rparr>"
  using assms atoi_show_int [of l] by (auto simp: opt_limit_def match_kw_def advance_def int_min_def)

lemma select_roundtrip:
  assumes ok: "fmt_ok sql" and ty: "sql_type sql = QUERY_SELECT"
  shows "parse_sql h (print_format sql) = Some sql"
proof -
  let ?W = "if sql_where sql = [] then [] else ''WHERE'' # conds_toks (sql_where sql) (sql_where_links sql)"
  let ?O = "case sql_order_by sql of None \<Rightarrow> []
    | Some o1 \<Rightarrow> [''ORDER'', ''BY'', ob_column o1, if ob_asc o1 then ''ASC'' else ''DESC'']"
  let ?L = "(if 0 \<le> sql_limit sql then [''LIMIT'', show_int (sql_limit sql)] else [])"
  have name: "is_ident (sql_table sql)" "length (sql_table sql) \<le> 63" and w: "where_ok sql"
    and ord: "case sql_order_by sql of None \<Rightarrow> True | Some ob \<Rightarrow> name_ok (ob_column ob)"
    and lim: "-1 \<le> sql_limit sql" "sql_limit sql \<le> int_max"
    and cols: "\<forall>c \<in> set (sql_columns sql). col_ok c"
    and rest: "sql_values sql = []" "sql_set sql = []" "sql_col_defs sql = []"
    using ok by (auto simp: fmt_ok_def name_ok_def ty)
  obtain g where g: "\<forall>c \<in> set (sql_columns sql). g c \<noteq> [] \<and> \<not> is_select_stop_token (hd (g c)) \<and>
    (\<forall>s. sep s \<longrightarrow> tokenize (c @ s) = g c @ tokenize s) \<and>
    (\<forall>t. (t = [] \<or> hd t \<noteq> ''('') \<longrightarrow> column_expr (g c @ t) = (c, t))"
    using col_toks_fun [OF cols] by blast
  define e where "e = '';'' @ [CHR 0x0A]"
  define lt where "lt = (if 0 \<le> sql_limit sql then '' LIMIT '' @ show_int (sql_limit sql) else []) @ e"
  define ot where "ot = (case sql_order_by sql of None \<Rightarrow> []
       | Some o1 \<Rightarrow> '' ORDER BY '' @ ob_column o1 @ '' '' @ (if ob_asc o1 then ''ASC'' else ''DESC'')) @ lt"
  have s1: "sep e" "sep lt" unfolding lt_def e_def by simp_all
  have s2: "sep ot" unfolding ot_def by (rule sep_order [OF s1(2)])
  have s3: "sep (emit_where sql @ ot)" by (rule sep_where [OF s2 w])
  have "tokenize lt = ?L @ ['';'']"
    unfolding lt_def limit_toks [OF s1(1)] by (simp add: e_def)
  then have "tokenize ot = ?O @ ?L @ ['';'']"
    unfolding ot_def order_toks [OF ord s1(2)] by simp
  then have tw: "tokenize (emit_where sql @ ot) = ?W @ ?O @ ?L @ ['';'']"
    unfolding tok_where [OF w s2] by simp
  have pf: "print_format sql = ''SELECT'' @ CHR '' '' # comma_sep (map (\<lambda>x. x) (sql_columns sql)) @ CHR '' '' # ''FROM'' @
      CHR '' '' # sql_table sql @ emit_where sql @ ot"
    by (simp add: print_format_def ty ot_def lt_def e_def)
  have "tokenize (comma_sep (map (\<lambda>x. x) (sql_columns sql)) @ CHR '' '' # ''FROM'' @ CHR '' '' # sql_table sql @ emit_where sql @ ot)
      = sep_toks (map g (sql_columns sql)) @ tokenize (CHR '' '' # ''FROM'' @ CHR '' '' # sql_table sql @ emit_where sql @ ot)"
    using g by (intro tok_comma_sep) auto
  then have toks: "tokenize (print_format sql) = ''SELECT'' # sep_toks (map g (sql_columns sql)) @
      ''FROM'' # sql_table sql # ?W @ ?O @ ?L @ ['';'']"
    unfolding pf using tok_word [where w = "''SELECT''"] tok_word [where w = "''FROM''"] tok_word [OF name(1) s3] tw
    by simp
  have sel: "select_columns (sep_toks (map g (sql_columns sql)) @ ''FROM'' # t) = (sql_columns sql, ''FROM'' # t)" for t
    using g by (intro select_columns_toks) auto
  let ?s = "parsed_new\<lparr>sql_type := QUERY_SELECT, sql_columns := sql_columns sql, sql_table := sql_table sql\<rparr>"
  let ?s1 = "?s\<lparr>sql_where := sql_where sql, sql_where_links := sql_where_links sql, sql_where_logic := sql_where_logic sql\<rparr>"
  have "after_where (?O @ ?L @ ['';''])"
    by (cases "sql_order_by sql") (simp_all add: after_where_def)
  then have "opt_where h (?W @ ?O @ ?L @ ['';'']) ?s = (?s1, ?O @ ?L @ ['';''])"
    using opt_where_toks [OF w, of _ ?s h] by (simp add: parsed_new_def)
  moreover have "opt_order (?O @ ?L @ ['';'']) ?s1 = (?s1\<lparr>sql_order_by := sql_order_by sql\<rparr>, ?L @ ['';''])"
    using opt_order_toks [OF ord, of "?L @ ['';'']" ?s1] by (simp add: parsed_new_def)
  moreover have "opt_limit (?L @ ['';'']) (?s1\<lparr>sql_order_by := sql_order_by sql\<rparr>)
      = ?s1\<lparr>sql_order_by := sql_order_by sql, sql_limit := sql_limit sql\<rparr>"
    using opt_limit_toks [OF lim, of "?s1\<lparr>sql_order_by := sql_order_by sql\<rparr>"] by (simp add: parsed_new_def)
  ultimately have "parse_sql h (print_format sql) = Some (?s1\<lparr>sql_order_by := sql_order_by sql, sql_limit := sql_limit sql\<rparr>)"
    unfolding parse_sql_def toks using sel name
    by (simp add: parse_select_def expect_kw_def match_kw_def advance_def set_table_def del: append.simps)
  also have "?s1\<lparr>sql_order_by := sql_order_by sql, sql_limit := sql_limit sql\<rparr> = sql"
    using rest ty by (cases sql) (simp add: parsed_new_def)
  finally show ?thesis .
qed

section \<open>Properties\<close>

text \<open>The keywords of the printed statements are words of the tokenizer.\<close>

lemmas keyword_toks = tok_word [where w = "''CREATE''"] tok_word [where w = "''TABLE''"] tok_word [where w = "''INSERT''"]
  tok_word [where w = "''INTO''"] tok_word [where w = "''VALUES''"] tok_word [where w = "''SELECT''"]
  tok_word [where w = "''FROM''"] tok_word [where w = "''DELETE''"] tok_word [where w = "''UPDATE''"]
  tok_word [where w = "''SET''"] tok_word [where w = "''ORDER''"] tok_word [where w = "''BY''"]
  tok_word [where w = "''ASC''"] tok_word [where w = "''DESC''"] tok_word [where w = "''LIMIT''"]

lemma delete_roundtrip:
  assumes "fmt_ok sql" "sql_type sql = QUERY_DELETE"
  shows "parse_sql h (print_format sql) = Some sql"
proof -
  have name: "is_ident (sql_table sql)" "length (sql_table sql) \<le> 63" and w: "where_ok sql"
    using assms(1) by (auto simp: fmt_ok_def name_ok_def)
  have semi: "after_where ('';'' # t)" for t by (simp add: after_where_def)
  have "sep (emit_where sql @ '';'' @ [CHR 0x0A])" by (rule sep_where [OF _ w]) simp
  then have "tokenize (print_format sql) = ''DELETE'' # ''FROM'' # sql_table sql #
      (if sql_where sql = [] then [] else ''WHERE'' # conds_toks (sql_where sql) (sql_where_links sql)) @ ['';'']"
    using keyword_toks tok_word [OF name(1)] tok_where [OF w, of "'';'' @ [CHR 0x0A]"] by (simp add: print_format_def assms(2))
  then show ?thesis
    using assms(1) opt_where_toks [OF w semi, of "parsed_new\<lparr>sql_type := QUERY_DELETE, sql_table := sql_table sql\<rparr>" h "[]"]
    by (simp add: parse_defs parse_delete_def name fmt_ok_def assms(2) parsed_new_def)
qed

lemma update_roundtrip:
  assumes "fmt_ok sql" "sql_type sql = QUERY_UPDATE"
  shows "parse_sql h (print_format sql) = Some sql"
proof -
  have name: "is_ident (sql_table sql)" "length (sql_table sql) \<le> 63" and w: "where_ok sql"
    using assms(1) by (auto simp: fmt_ok_def name_ok_def)
  have semi: "after_where ('';'' # t)" for t by (simp add: after_where_def)
  let ?g = "\<lambda>s. [sc_column s, ''='', sc_value s]"
  let ?W = "if sql_where sql = [] then [] else ''WHERE'' # conds_toks (sql_where sql) (sql_where_links sql)"
  have sets: "sql_set sql \<noteq> []" "\<forall>s \<in> set (sql_set sql). set_ok s"
    using assms(1) by (auto simp: fmt_ok_def assms(2))
  have "\<forall>s \<in> set (sql_set sql). \<forall>r. sep r \<longrightarrow>
      tokenize ((sc_column s @ '' = '' @ emit_value (sc_value s)) @ r) = ?g s @ tokenize r"
    using sets(2) by (auto simp: set_ok_def tok_word tok_value)
  moreover have "sep (emit_where sql @ '';'' @ [CHR 0x0A])" by (rule sep_where [OF _ w]) simp
  ultimately have "tokenize (print_format sql) = ''UPDATE'' # sql_table sql # ''SET'' #
      sep_toks (map ?g (sql_set sql)) @ ?W @ ['';'']"
    using keyword_toks tok_word [OF name(1)] tok_where [OF w, of "'';'' @ [CHR 0x0A]"]
      tok_comma_sep [of "sql_set sql" "\<lambda>s. sc_column s @ '' = '' @ emit_value (sc_value s)" ?g
        "emit_where sql @ '';'' @ [CHR 0x0A]"]
    by (simp add: print_format_def assms(2))
  moreover have "set_loop (sep_toks (map ?g (sql_set sql)) @ ?W @ ['';'']) = (map (\<lambda>s. (sc_column s, sc_value s)) (sql_set sql), ?W @ ['';''])"
    using sets by (intro set_loop_toks) simp_all
  ultimately show ?thesis
    using assms(1) opt_where_toks [OF w semi, of "parsed_new\<lparr>sql_type := QUERY_UPDATE, sql_table := sql_table sql,
        sql_set := sql_set sql\<rparr>" h "[]"] set_texts_fit [OF sets(2), of h 0]
    by (simp add: parse_defs parse_update_def name fmt_ok_def assms(2) parsed_new_def)
qed

lemma create_roundtrip:
  assumes "fmt_ok sql" "sql_type sql = QUERY_CREATE"
  shows "parse_sql h (print_format sql) = Some sql"
proof -
  have name: "is_ident (sql_table sql)" "length (sql_table sql) \<le> 63" and w: "where_ok sql"
    using assms(1) by (auto simp: fmt_ok_def name_ok_def)
  have semi: "after_where ('';'' # t)" for t by (simp add: after_where_def)
  obtain ps where ps: "sql_col_defs sql = map (\<lambda>(n, ty). n @ '' '' @ ty) ps"
    "\<forall>(n, ty) \<in> set ps. is_ident n \<and> is_ident ty" "\<forall>d \<in> set (sql_col_defs sql). length d \<le> 159"
    using coldef_toks [of "sql_col_defs sql"] assms by (auto simp: fmt_ok_def assms(2))
  have "\<forall>p \<in> set ps. \<forall>s. sep s \<longrightarrow> tokenize ((\<lambda>(n, ty). n @ '' '' @ ty) p @ s) = (\<lambda>(n, ty). [n, ty]) p @ tokenize s"
    using ps(2) by (auto simp: tok_word)
  then have "tokenize (print_format sql) = ''CREATE'' # ''TABLE'' # sql_table sql # ''('' #
      sep_toks (map (\<lambda>(n, ty). [n, ty]) ps) @ ['')'', '';'']"
    using keyword_toks tok_word [OF name(1)] tok_comma_sep [of ps "\<lambda>(n, ty). n @ '' '' @ ty" "\<lambda>(n, ty). [n, ty]" "'');'' @ [CHR 0x0A]"]
    by (simp add: print_format_def assms(2) ps(1))
  moreover have "col_defs_loop (sep_toks (map (\<lambda>(n, ty). [n, ty]) ps) @ '')'' # ['';'']) = sql_col_defs sql"
    unfolding ps(1) using ps by (intro col_defs_loop_toks) auto
  ultimately show ?thesis
    using assms(1) by (simp add: parse_defs parse_create_def name fmt_ok_def assms(2) parsed_new_def)
qed

lemma insert_roundtrip:
  assumes "fmt_ok sql" "sql_type sql = QUERY_INSERT"
  shows "parse_sql h (print_format sql) = Some sql"
proof -
  have name: "is_ident (sql_table sql)" "length (sql_table sql) \<le> 63" and w: "where_ok sql"
    using assms(1) by (auto simp: fmt_ok_def name_ok_def)
  have semi: "after_where ('';'' # t)" for t by (simp add: after_where_def)
  have cols: "\<forall>c \<in> set (sql_columns sql). is_ident c"
    and vals: "\<forall>v \<in> set (sql_values sql). value_ok v \<and> v \<noteq> '')''"
    using assms(1) by (auto simp: fmt_ok_def assms(2))
  have "tokenize (print_format sql) = ''INSERT'' # ''INTO'' # sql_table sql # ''('' #
      sep_toks (map (\<lambda>x. [x]) (sql_columns sql)) @ '')'' # ''VALUES'' # ''('' #
      sep_toks (map (\<lambda>x. [x]) (sql_values sql)) @ ['')'', '';'']"
    using keyword_toks tok_word [OF name(1)] tok_comma_sep [of "sql_columns sql" "\<lambda>x. x" "\<lambda>x. [x]"]
      tok_comma_sep [of "sql_values sql" emit_value "\<lambda>x. [x]"] cols vals
    by (simp add: print_format_def assms(2) tok_word tok_value)
  then show ?thesis
    using assms(1) cols vals ident_not_close
    by (simp add: parse_defs parse_insert_def parse_ident_list_def ident_loop_toks name fmt_ok_def
        assms(2) parsed_new_def)
qed

text \<open>C18: reading back what \<^verbatim>\<open>print_format\<close> writes gives the statement itself, whatever the
  memory of the arrays it is parsed into held, for every statement the printer can express:
  names and operators that are single words, values without a single quote that are quoted or
  consist of word characters, names, operators and values of conditions and SET clauses that
  leave room for their final NUL, conditions without BETWEEN, and connectives and limit as the
  parser stores them.\<close>

theorem format_parse_roundtrip:
  assumes "fmt_ok sql"
  shows "parse_sql h (print_format sql) = Some sql"
proof (cases "sql_type sql")
  case QUERY_UNKNOWN
  then show ?thesis using assms by (simp add: fmt_ok_def)
qed (simp_all add: assms create_roundtrip insert_roundtrip select_roundtrip delete_roundtrip update_roundtrip)

theorem format_parse_roundtrip_witness:
  "\<forall>h. parse_sql h (print_format (parsed_new\<lparr>sql_type := QUERY_SELECT, sql_columns := [''*''], sql_table := ''users'',
       sql_where := [\<lparr>w_column = ''age'', w_op = ''>='', w_value = ''20'', w_value_to = []\<rparr>], sql_limit := 3\<rparr>))
   = Some (parsed_new\<lparr>sql_type := QUERY_SELECT, sql_columns := [''*''], sql_table := ''users'',
       sql_where := [\<lparr>w_column = ''age'', w_op = ''>='', w_value = ''20'', w_value_to = []\<rparr>], sql_limit := 3\<rparr>)"
proof -
  have "\<not> is_select_stop_token ''*''" "name_ok ''users''" "is_ident ''age''" "value_ok ''20''"
    by code_simp+
  then show ?thesis
    by (intro allI format_parse_roundtrip)
      (simp add: fmt_ok_def where_ok_def cond_ok_def op_ok_def col_ok_def arg_ok_def parsed_new_def
        common_logic_def int_max_def)
qed

section \<open>What a parsed statement satisfies\<close>

text \<open>The fixed arrays that cannot overflow, and the connectives.\<close>

definition parsed_wf :: "parsed_sql \<Rightarrow> bool" where
  "parsed_wf sql \<longleftrightarrow> length (sql_table sql) \<le> 63 \<and>
     length (sql_where_links sql) = length (sql_where sql) - 1 \<and>
     (\<forall>l \<in> set (sql_where_links sql). link_ok l) \<and>
     sql_where_logic sql = common_logic (sql_where_links sql) \<and>
     (case sql_order_by sql of None \<Rightarrow> True | Some ob \<Rightarrow> length (ob_column ob) \<le> 63) \<and>
     (\<forall>d \<in> set (sql_col_defs sql). length d \<le> 159) \<and>
     (sql_type sql = QUERY_SELECT \<longrightarrow> (\<forall>c \<in> set (sql_columns sql). length c \<le> 159))"

text \<open>The conditions and SET clauses leave room for the final NULs.\<close>

definition cond_fits :: "where_clause \<Rightarrow> bool" where
  "cond_fits w \<longleftrightarrow> length (w_column w) < 63 \<and> length (w_value w) < 255 \<and> length (w_value_to w) < 255 \<and>
     (length (w_op w) < 7 \<or> w_op w = ''BETWEEN'' \<and> w_value_to w \<noteq> [])"

definition fields_fit :: "parsed_sql \<Rightarrow> bool" where
  "fields_fit sql \<longleftrightarrow> (\<forall>w \<in> set (sql_where sql). cond_fits w) \<and>
     (\<forall>s \<in> set (sql_set sql). length (sc_column s) < 63 \<and> length (sc_value s) < 255)"

lemma field_text_room: "length (field_text n src c next) < n \<longleftrightarrow> length src < n"
  by (auto simp: field_text_def)

lemma where_texts_heap:
  "\<forall>w \<in> set (where_texts h k cs). cond_fits w \<Longrightarrow> where_texts h' k cs = where_texts h k cs"
proof (induction cs arbitrary: k)
  case (Cons c cs)
  let ?r = "column_text h (k + 584) cs"
  have col: "length (wc_column c) < 63" and val: "length (wc_value c) < 255"
    and tox: "length (to_text h k c ?r) < 255"
    and opx: "length (op_text h k c ?r) < 7 \<or> op_text h k c ?r = ''BETWEEN'' \<and> to_text h k c ?r \<noteq> []"
    using Cons.prems by (simp_all add: cond_fits_def Let_def value_text_def field_text_room)
  have "to_text h' k c r = to_text h k c ?r \<and> op_text h' k c r = op_text h k c ?r" for r
  proof (cases "wc_to c")
    case None
    then have "length (wc_op c) < 7" using opx by (auto simp: op_text_def to_text_def field_text_room)
    then show ?thesis by (simp add: None op_text_def to_text_def)
  next
    case (Some v)
    then show ?thesis using tox by (simp add: op_text_def to_text_def field_text_room)
  qed
  then show ?case using Cons col val by (simp add: Let_def value_text_def)
qed simp

lemma set_texts_heap:
  "\<forall>s \<in> set (set_texts h i cs). length (sc_column s) < 63 \<and> length (sc_value s) < 255 \<Longrightarrow>
     set_texts h' i cs = set_texts h i cs"
  by (induction h i cs rule: set_texts.induct) (simp_all add: field_text_room)

lemma where_texts_length [simp]: "length (where_texts h k cs) = length cs"
  by (induction cs arbitrary: k) (simp_all add: Let_def)

text \<open>The loop over conditions: one connective between two of them.\<close>

definition where_cond :: "string \<Rightarrow> where_cell \<Rightarrow> toks \<Rightarrow> bool \<times> where_cell \<times> toks" where
  "where_cond opr w t = (if ieq opr ''BETWEEN''
     then (case t of a # high # t1 \<Rightarrow> if ieq a ''AND''
              then (True, w\<lparr>wc_to := Some high\<rparr>, t1) else (False, w, t1)
           | _ \<Rightarrow> (False, w, []))
     else (True, w, t))"

lemma where_loop_cond:
  "where_loop (col # opr # val # t) ws ls =
     (case where_cond opr \<lparr>wc_column = col, wc_op = opr, wc_value = val, wc_to = None\<rparr> t
      of (go, w1, t1) \<Rightarrow>
        if \<not> go then (ws @ [w1], ls, t1)
        else case t1 of [] \<Rightarrow> (ws @ [w1], ls, [])
        | k # t2 \<Rightarrow> if ieq k ''AND'' \<or> ieq k ''OR''
            then where_loop t2 (ws @ [w1]) (ls @ [if ieq k ''OR'' then ''OR'' else ''AND''])
            else (ws @ [w1], ls, k # t2))"
  by (simp only: where_loop.simps where_cond_def Let_def)

lemma where_cond_length: "where_cond opr w t = (go, w1, t1) \<Longrightarrow> length t1 \<le> length t"
  by (auto simp: where_cond_def split: if_splits list.splits)

lemma where_loop_links:
  assumes "where_loop t ws ls = (ws', ls', t')" and "\<forall>l \<in> set ls. link_ok l" "length ls = length ws"
  shows "(\<forall>l \<in> set ls'. link_ok l) \<and> (length ls' = length ws' \<or> length ws' = Suc (length ls'))"
  using assms
proof (induction "length t" arbitrary: t ws ls rule: less_induct)
  case less
  show ?case
  proof (cases "\<exists>col opr val u. t = col # opr # val # u")
    case True
    then obtain col opr val u where t: "t = col # opr # val # u" by blast
    note step = where_loop_cond [of col opr val u ws ls]
    show ?thesis
    proof (cases "where_cond opr (\<lparr>wc_column = col, wc_op = opr, wc_value = val, wc_to = None\<rparr>) u")
      case (fields go w1 t1)
      have short: "length t1 \<le> length u" using where_cond_length [OF fields] .
      show ?thesis
      proof (cases "go \<and> t1 \<noteq> [] \<and> (ieq (hd t1) ''AND'' \<or> ieq (hd t1) ''OR'')")
        case True
        then obtain k t2 where t1: "t1 = k # t2" and k: "ieq k ''AND'' \<or> ieq k ''OR''" by (cases t1) auto
        have rec: "where_loop t2 (ws @ [w1]) (ls @ [if ieq k ''OR'' then ''OR'' else ''AND'']) = (ws', ls', t')"
          using less.prems(1) True k unfolding t step fields t1 by simp
        show ?thesis
          using less.prems short by (intro less.hyps [OF _ rec]) (auto simp: t t1 link_ok_def)
      next
        case False
        have "ws' = ws @ [w1] \<and> ls' = ls"
        proof (cases go)
          case True
          then show ?thesis
            using less.prems(1) False unfolding t step fields by (cases t1) (auto split: if_splits)
        next
          case False
          then show ?thesis using less.prems(1) unfolding t step fields by simp
        qed
        then show ?thesis using less.prems(2,3) by simp
      qed
    qed
  next
    case False
    then have "ws' = ws \<and> ls' = ls"
      using less.prems(1) by (cases "(t, ws, ls)" rule: where_loop.cases) auto
    then show ?thesis using less.prems by simp
  qed
qed

lemma common_logic_short:
  assumes "\<forall>l \<in> set ls. link_ok l"
  shows "(if ls \<noteq> [] \<and> (\<forall>l \<in> set (tl ls). ieq (hd ls) l) then strncpy 7 (hd ls) else []) = common_logic ls"
proof (cases ls)
  case (Cons l ls')
  then have "link_ok l" using assms by simp
  then have "strncpy 7 l = l" unfolding link_ok_def by (elim disjE) simp_all
  then show ?thesis by (simp add: Cons common_logic_def)
qed (simp add: common_logic_def)

lemma opt_where_shape:
  obtains ws ls t' where
    "\<And>h sql. sql_where sql = [] \<Longrightarrow> sql_where_links sql = [] \<Longrightarrow> sql_where_logic sql = [] \<Longrightarrow>
       opt_where h t sql = (sql\<lparr>sql_where := where_texts h 0 ws, sql_where_links := ls,
                                 sql_where_logic := common_logic ls\<rparr>, t')"
    "length ls = length ws - 1" "\<forall>l \<in> set ls. link_ok l"
proof (cases "match_kw t ''WHERE''")
  case m: (Pair m t1)
  show ?thesis
  proof (cases m)
    case False
    show ?thesis
      by (rule that [where ws = "[]" and ls = "[]" and t' = t1]) (simp_all add: opt_where_def m False common_logic_def)
  next
    case True
    obtain ws ls t' where l: "where_loop t1 [] [] = (ws, ls, t')" by (cases "where_loop t1 [] []") auto
    let ?ls = "if ls \<noteq> [] \<and> length ls + 1 \<noteq> length ws then butlast ls else ls"
    have w: "(\<forall>l \<in> set ls. link_ok l) \<and> (length ls = length ws \<or> length ws = Suc (length ls))"
      using where_loop_links [OF l] by simp
    then have ok: "\<forall>l \<in> set ?ls. link_ok l" by (auto dest: in_set_butlastD)
    note logic = common_logic_short [OF ok]
    show ?thesis
    proof (rule that [where ws = ws and ls = ?ls and t' = t'])
      show "opt_where h t sql = (sql\<lparr>sql_where := where_texts h 0 ws, sql_where_links := ?ls,
          sql_where_logic := common_logic ?ls\<rparr>, t')" for h sql
        unfolding opt_where_def m True parse_where_def l Let_def prod.case logic by (simp only: True if_True)
      show "length ?ls = length ws - 1" using w by auto
    qed (rule ok)
  qed
qed

text \<open>A statement is its text's, up to what is read from the two arrays.\<close>

definition shaped :: "(heap \<Rightarrow> parsed_sql) \<Rightarrow> bool" where
  "shaped f \<longleftrightarrow> (\<exists>s ws cs. (\<forall>h. f h = s\<lparr>sql_where := where_texts h 0 ws, sql_set := set_texts h 0 cs\<rparr>) \<and>
     (\<forall>h. parsed_wf (f h)))"

lemma shapedI:
  assumes "\<And>h. f h = s\<lparr>sql_where := where_texts h 0 ws, sql_set := set_texts h 0 cs\<rparr>" "\<And>h. parsed_wf (f h)"
  shows "shaped f"
  using assms unfolding shaped_def by blast

lemma shaped_heap:
  assumes "shaped f" "fields_fit (f h)"
  shows "f h' = f h"
proof -
  obtain s ws cs where f: "\<And>h. f h = s\<lparr>sql_where := where_texts h 0 ws, sql_set := set_texts h 0 cs\<rparr>"
    using assms(1) unfolding shaped_def by blast
  have "where_texts h' 0 ws = where_texts h 0 ws" "set_texts h' 0 cs = set_texts h 0 cs"
    using assms(2) by (auto simp: f fields_fit_def intro: where_texts_heap set_texts_heap)
  then show ?thesis by (simp add: f)
qed

lemma col_defs_fit: "d \<in> set (col_defs_loop t) \<Longrightarrow> length d \<le> 159"
  by (induction t rule: col_defs_loop.induct) (auto split: if_splits list.splits)

lemma colbuf_add_fit [simp]: "length (colbuf_add b s) \<le> 159"
  by (simp add: colbuf_add_def)

lemma call_args_fit: "length buf \<le> 159 \<Longrightarrow> length (fst (call_args buf t)) \<le> 159"
  by (induction buf t rule: call_args.induct) simp_all

lemma column_expr_fit: "length (fst (column_expr t)) \<le> 159"
  using call_args_fit [of "colbuf_add (take 159 (hd t)) ''(''" "tl (tl t)"]
  by (auto simp: column_expr_def Let_def split: prod.splits)

lemma select_columns_fit: "c \<in> set (fst (select_columns t)) \<Longrightarrow> length c \<le> 159"
proof (induction t rule: select_columns.induct)
  case (1 t)
  show ?case
  proof (cases "t = [] \<or> is_select_stop_token (hd t)")
    case True
    then show ?thesis using "1.prems" by (subst (asm) select_columns.simps) simp
  next
    case False
    obtain d t1 m t2 where c: "column_expr t = (d, t1)" "match_kw t1 '','' = (m, t2)" by (metis surj_pair)
    have d: "length d \<le> 159" using column_expr_fit [of t] by (simp add: c)
    show ?thesis
      using "1.prems" False d "1.IH" [OF False c(1) [symmetric] refl c(2) [symmetric] refl]
      by (subst (asm) select_columns.simps) (auto simp: c split: if_splits prod.splits)
  qed
qed

lemmas wf_defs = parsed_wf_def set_table_def parsed_new_def strncpy_length common_logic_def

lemma shaped_const: "sql_where s = [] \<Longrightarrow> sql_set s = [] \<Longrightarrow> parsed_wf s \<Longrightarrow> shaped (\<lambda>h. s)"
  by (rule shapedI [where ws = "[]" and cs = "[]" and s = s]) simp_all

lemma shaped_create: "shaped (\<lambda>h. parse_create t parsed_new)"
  by (rule shaped_const)
    (auto simp: parse_create_def Let_def wf_defs dest: col_defs_fit split: prod.splits option.splits)

lemma shaped_insert: "shaped (\<lambda>h. parse_insert t parsed_new)"
  by (rule shaped_const) (auto simp: parse_insert_def Let_def wf_defs split: prod.splits option.splits)

lemma shaped_delete: "shaped (\<lambda>h. parse_delete h t parsed_new)"
proof (cases "expect_kw t ''FROM''"; cases "advance (snd (expect_kw t ''FROM''))")
  fix ok t1 name t2
  assume p: "expect_kw t ''FROM'' = (ok, t1)" "advance (snd (expect_kw t ''FROM'')) = (name, t2)"
  obtain ws ls t' where w: "\<And>h sql. sql_where sql = [] \<Longrightarrow> sql_where_links sql = [] \<Longrightarrow> sql_where_logic sql = [] \<Longrightarrow>
       opt_where h t2 sql = (sql\<lparr>sql_where := where_texts h 0 ws, sql_where_links := ls,
                                 sql_where_logic := common_logic ls\<rparr>, t')"
    "length ls = length ws - 1" "\<forall>l \<in> set ls. link_ok l" using opt_where_shape [of t2] by metis
  show ?thesis
  proof (cases ok)
    case False
    then show ?thesis by (simp add: parse_delete_def p shaped_const wf_defs)
  next
    case True
    let ?s = "set_table (parsed_new\<lparr>sql_type := QUERY_DELETE\<rparr>) name"
    have s: "sql_where ?s = []" "sql_where_links ?s = []" "sql_where_logic ?s = []" "sql_set ?s = []"
      by (simp_all add: set_table_def parsed_new_def split: option.split)
    have "(\<lambda>h. parse_delete h t parsed_new) = (\<lambda>h. ?s\<lparr>sql_where := where_texts h 0 ws, sql_where_links := ls,
        sql_where_logic := common_logic ls\<rparr>)"
      using p True w(1) [OF s(1-3)] by (simp add: parse_delete_def fun_eq_iff)
    then show ?thesis
      using s(4) w(2,3)
      by (auto simp: parsed_wf_def set_table_def parsed_new_def strncpy_length split: option.split
          intro!: shapedI [where s = "?s\<lparr>sql_where_links := ls, sql_where_logic := common_logic ls\<rparr>" and ws = ws and cs = "[]"])
  qed
qed

lemma shaped_update: "shaped (\<lambda>h. parse_update h t parsed_new)"
proof (cases "advance t")
  case a: (Pair name t1)
  obtain ok t2 where k: "expect_kw t1 ''SET'' = (ok, t2)" by (cases "expect_kw t1 ''SET''")
  obtain cs t3 where l: "set_loop t2 = (cs, t3)" by (cases "set_loop t2")
  obtain ws ls t' where w: "\<And>h sql. sql_where sql = [] \<Longrightarrow> sql_where_links sql = [] \<Longrightarrow> sql_where_logic sql = [] \<Longrightarrow>
       opt_where h t3 sql = (sql\<lparr>sql_where := where_texts h 0 ws, sql_where_links := ls,
                                 sql_where_logic := common_logic ls\<rparr>, t')"
    "length ls = length ws - 1" "\<forall>l \<in> set ls. link_ok l" using opt_where_shape [of t3] by metis
  let ?s = "set_table (parsed_new\<lparr>sql_type := QUERY_UPDATE\<rparr>) name"
  have s: "sql_where ?s = []" "sql_where_links ?s = []" "sql_where_logic ?s = []" "sql_set ?s = []" "parsed_wf ?s"
    by (simp_all add: wf_defs split: option.split)
  show ?thesis
  proof (cases ok)
    case False
    then show ?thesis using s by (simp add: parse_update_def a k shaped_const)
  next
    case True
    have eq: "parse_update h t parsed_new = ?s\<lparr>sql_set := set_texts h 0 cs, sql_where := where_texts h 0 ws,
        sql_where_links := ls, sql_where_logic := common_logic ls\<rparr>" for h
      using a k l True w(1) [of "?s\<lparr>sql_set := set_texts h 0 cs\<rparr>" h] s by (simp add: parse_update_def)
    show ?thesis
      using s w(2,3)
      by (intro shapedI [where s = "?s\<lparr>sql_where_links := ls, sql_where_logic := common_logic ls\<rparr>" and ws = ws and cs = cs])
        (simp_all add: eq parsed_wf_def)
  qed
qed

lemma opt_tail_fields:
  "opt_limit u (fst (opt_order t (s\<lparr>sql_where := ws, sql_set := cs\<rparr>)))
     = (opt_limit u (fst (opt_order t s)))\<lparr>sql_where := ws, sql_set := cs\<rparr>"
  "snd (opt_order t (s\<lparr>sql_where := ws, sql_set := cs\<rparr>)) = snd (opt_order t s)"
  by (simp_all add: opt_limit_def opt_order_def Let_def split: prod.splits option.splits)

lemma opt_tail_wf: "parsed_wf s \<Longrightarrow> parsed_wf (opt_limit u (fst (opt_order t s)))"
  by (auto simp: opt_limit_def opt_order_def Let_def parsed_wf_def strncpy_length split: prod.splits option.splits)

lemma shaped_select: "shaped (\<lambda>h. parse_select h t parsed_new)"
proof (cases "select_columns t")
  case c: (Pair cols t1)
  obtain ok t2 where k: "expect_kw t1 ''FROM'' = (ok, t2)" by (cases "expect_kw t1 ''FROM''")
  obtain name t3 where a: "advance t2 = (name, t3)" by (cases "advance t2")
  obtain ws ls t' where w: "\<And>h sql. sql_where sql = [] \<Longrightarrow> sql_where_links sql = [] \<Longrightarrow> sql_where_logic sql = [] \<Longrightarrow>
       opt_where h t3 sql = (sql\<lparr>sql_where := where_texts h 0 ws, sql_where_links := ls,
                                 sql_where_logic := common_logic ls\<rparr>, t')"
    "length ls = length ws - 1" "\<forall>l \<in> set ls. link_ok l" using opt_where_shape [of t3] by metis
  let ?s0 = "parsed_new\<lparr>sql_type := QUERY_SELECT, sql_columns := cols\<rparr>"
  let ?s = "set_table ?s0 name"
  have fit: "\<forall>c \<in> set cols. length c \<le> 159" using select_columns_fit [of _ t] by (simp add: c)
  then have s: "sql_where ?s = []" "sql_where_links ?s = []" "sql_where_logic ?s = []" "sql_set ?s = []" "parsed_wf ?s"
    by (simp_all add: wf_defs split: option.split)
  show ?thesis
  proof (cases ok)
    case False
    then show ?thesis using fit by (simp add: parse_select_def c k shaped_const wf_defs)
  next
    case True
    let ?t = "?s\<lparr>sql_where_links := ls, sql_where_logic := common_logic ls\<rparr>"
    let ?u = "snd (opt_order t' ?t)"
    have eq: "parse_select h t parsed_new =
        opt_limit ?u (fst (opt_order t' (?t\<lparr>sql_where := where_texts h 0 ws, sql_set := []\<rparr>)))" for h
    proof -
      have "opt_where h t3 ?s = (?t\<lparr>sql_where := where_texts h 0 ws, sql_set := []\<rparr>, t')"
        using w(1) [OF s(1-3), of h] s(4) by (cases ?s) simp
      then show ?thesis
        by (simp add: parse_select_def c k a True split_beta opt_tail_fields(2) Let_def)
    qed
    have wf: "parsed_wf (?t\<lparr>sql_where := where_texts h 0 ws, sql_set := []\<rparr>)" for h
      using s(5) w(2,3) by (simp add: parsed_wf_def)
    show ?thesis
    proof (rule shapedI [where ws = ws and cs = "[]"])
      show "parse_select h t parsed_new =
          (opt_limit ?u (fst (opt_order t' ?t)))\<lparr>sql_where := where_texts h 0 ws, sql_set := set_texts h 0 []\<rparr>" for h
        unfolding eq opt_tail_fields(1) by simp
      show "parsed_wf (parse_select h t parsed_new)" for h
        unfolding eq by (rule opt_tail_wf [OF wf])
    qed
  qed
qed

lemma parse_sql_shape:
  assumes "parse_sql h input = Some sql"
  obtains f where "shaped f" "\<And>h. parse_sql h input = Some (f h)"
proof (cases "tokenize input")
  case Nil
  then show ?thesis using assms by (simp add: parse_sql_def)
next
  case (Cons kw t)
  have new: "shaped (\<lambda>h. parsed_new)" by (simp add: shaped_const wf_defs)
  have "shaped (\<lambda>h. the (parse_sql h input))"
    by (cases "ieq kw ''CREATE''"; cases "ieq kw ''INSERT''"; cases "ieq kw ''SELECT''"; cases "ieq kw ''DELETE''";
        cases "ieq kw ''UPDATE''")
      (simp_all add: parse_sql_def Cons shaped_create shaped_insert shaped_select shaped_delete shaped_update new)
  then show ?thesis by (rule that) (simp add: parse_sql_def Cons)
qed



text \<open>
  A token that fills its array leaves it without a final NUL: with anything but NULs in the memory
  behind it the operator of this condition, seven letters long, is read on into the value.
\<close>

lemma operator_runs_into_value:
  "hp_where h 71 \<noteq> CHR 0x00 \<Longrightarrow>
   map_option (map w_op \<circ> sql_where) (parse_sql h ''DELETE FROM t WHERE a similar b'')
   = Some [''similar'' @ [hp_where h 71] @ ''b'']"
proof -
  have tok: "tokenize ''DELETE FROM t WHERE a similar b'' = [''DELETE'', ''FROM'', ''t'', ''WHERE'', ''a'', ''similar'', ''b'']"
    by code_simp
  have kw: "\<not> ieq ''similar'' ''BETWEEN''" "ieq ''DELETE'' ''DELETE''" "ieq ''FROM'' ''FROM''" "ieq ''WHERE'' ''WHERE''"
    by code_simp+
  have loop: "where_loop [''a'', ''similar'', ''b''] [] [] = ([\<lparr>wc_column = ''a'', wc_op = ''similar'', wc_value = ''b'', wc_to = None\<rparr>], [], [])"
    using kw by (simp add: where_loop.simps(1))
  have "parse_sql h ''DELETE FROM t WHERE a similar b'' = Some (fst (parse_where h [''a'', ''similar'', ''b'']
     (parsed_new\<lparr>sql_type := QUERY_DELETE, sql_table := ''t''\<rparr>)))"
    by (simp add: parse_sql_def tok kw parse_delete_def expect_kw_def match_kw_def advance_def opt_where_def set_table_def)
  moreover have "hp_where h 71 \<noteq> CHR 0x00 \<Longrightarrow> where_texts h 0 [\<lparr>wc_column = ''a'', wc_op = ''similar'', wc_value = ''b'', wc_to = None\<rparr>] =
   [\<lparr>w_column = ''a'', w_op = ''similar'' @ [hp_where h 71] @ ''b'', w_value = ''b'', w_value_to = []\<rparr>]"
    by (simp add: op_text_def value_text_def to_text_def field_text_def)
  ultimately show "hp_where h 71 \<noteq> CHR 0x00 \<Longrightarrow> ?thesis"
    by (simp add: parse_where_def loop del: where_loop.simps)
qed

end
