(* ===== verification/Engine_Lock.thy ===== *)
theory Engine_Lock
  imports Sql_Types
begin

text \<open>
  The locks of \<^verbatim>\<open>src/engine_lock.c\<close> and the order in which \<^verbatim>\<open>lock_for_statement\<close> and
  \<^verbatim>\<open>unlock_statement\<close> of \<^verbatim>\<open>src/engine.c\<close> take and give them back. A POSIX read-write lock is
  its number of readers and its writer flag; acquiring it is possible when the state
  allows it. The slot array of table locks is the list of the names of its used slots,
  which is filled from the front and only emptied at shutdown, with one lock per slot. Each
  thread executes one statement; its steps are the critical sections of the code. Waiting
  times are not modelled.
\<close>

section \<open>Locks\<close>

record rwlock =
  rw_readers :: nat
  rw_writer :: bool

definition can_read :: "rwlock \<Rightarrow> bool" where
  "can_read l \<longleftrightarrow> \<not> rw_writer l"

definition can_write :: "rwlock \<Rightarrow> bool" where
  "can_write l \<longleftrightarrow> \<not> rw_writer l \<and> rw_readers l = 0"

definition rd_lock :: "rwlock \<Rightarrow> rwlock" where
  "rd_lock l = l\<lparr>rw_readers := rw_readers l + 1\<rparr>"

definition wr_lock :: "rwlock \<Rightarrow> rwlock" where
  "wr_lock l = l\<lparr>rw_writer := True\<rparr>"

definition rw_unlock :: "rwlock \<Rightarrow> rwlock" where
  "rw_unlock l = (if rw_writer l then l\<lparr>rw_writer := False\<rparr> else l\<lparr>rw_readers := rw_readers l - 1\<rparr>)"

definition rw_free :: rwlock where
  "rw_free = \<lparr>rw_readers = 0, rw_writer = False\<rparr>"

record engine_locks =
  el_tables :: "string list"
  el_rw :: "rwlock list"
  el_catalog :: rwlock
  el_single :: bool

definition max_tables :: nat where "max_tables = 64"

definition engine_lock_init :: engine_locks where
  "engine_lock_init = \<lparr>el_tables = [], el_rw = replicate max_tables rw_free, el_catalog = rw_free, el_single = False\<rparr>"

section \<open>The registry of table locks\<close>

text \<open>\<^verbatim>\<open>strncmp(name, table, 64) == 0\<close>, with the name cut to 63 characters when it is stored.\<close>

definition same_name :: "string \<Rightarrow> string \<Rightarrow> bool" where
  "same_name name table \<longleftrightarrow> take 64 name = take 64 table"

definition registry_find_locked :: "string list \<Rightarrow> string \<Rightarrow> nat option" where
  "registry_find_locked names table = find_idx (\<lambda>n. same_name n table) names"

definition registry_get_or_create_locked :: "string list \<Rightarrow> string \<Rightarrow> nat option \<times> string list" where
  "registry_get_or_create_locked names table =
     (case find_idx (\<lambda>n. same_name n table) names of
        Some i \<Rightarrow> (Some i, names)
      | None \<Rightarrow> if length names < max_tables then (Some (length names), names @ [take 63 table])
                else (None, names))"

section \<open>Statements\<close>

record stmt =
  st_type :: query_type
  st_table :: string
  st_single :: bool

text \<open>
  The positions of a thread: before \<^verbatim>\<open>lock_for_statement\<close>; holding the catalog for reading;
  waiting for the lock of its slot (no slot when the registry is full); executing; between
  the two releases of \<^verbatim>\<open>unlock_statement\<close>; done.
\<close>

datatype thread =
  Start stmt | Catalog stmt | At_slot stmt "nat option" | Running stmt "nat option" | Releasing stmt | Done

definition is_write :: "stmt \<Rightarrow> bool" where
  "is_write s \<longleftrightarrow> st_type s \<noteq> QUERY_SELECT"

definition single_enter :: "engine_locks \<Rightarrow> engine_locks" where
  "single_enter l = l\<lparr>el_single := True\<rparr>"

definition single_exit :: "engine_locks \<Rightarrow> engine_locks" where
  "single_exit l = l\<lparr>el_single := False\<rparr>"

definition catalog_read :: "engine_locks \<Rightarrow> engine_locks" where
  "catalog_read l = l\<lparr>el_catalog := rd_lock (el_catalog l)\<rparr>"

definition catalog_write :: "engine_locks \<Rightarrow> engine_locks" where
  "catalog_write l = l\<lparr>el_catalog := wr_lock (el_catalog l)\<rparr>"

definition catalog_release :: "engine_locks \<Rightarrow> engine_locks" where
  "catalog_release l = l\<lparr>el_catalog := rw_unlock (el_catalog l)\<rparr>"

text \<open>The second half of \<^verbatim>\<open>engine_lock_table_read\<close> and \<^verbatim>\<open>engine_lock_table_write\<close>: guard and effect.\<close>

definition can_lock_slot :: "engine_locks \<Rightarrow> stmt \<Rightarrow> nat option \<Rightarrow> bool" where
  "can_lock_slot l s slot = (case slot of None \<Rightarrow> True
     | Some i \<Rightarrow> if is_write s then can_write (el_rw l ! i) else can_read (el_rw l ! i))"

definition lock_slot :: "engine_locks \<Rightarrow> stmt \<Rightarrow> nat option \<Rightarrow> engine_locks" where
  "lock_slot l s slot = (case slot of None \<Rightarrow> l
     | Some i \<Rightarrow> l\<lparr>el_rw := (el_rw l)[i := (if is_write s then wr_lock (el_rw l ! i) else rd_lock (el_rw l ! i))]\<rparr>)"

definition table_release :: "engine_locks \<Rightarrow> string \<Rightarrow> engine_locks" where
  "table_release l table = (case registry_find_locked (el_tables l) table of None \<Rightarrow> l
     | Some i \<Rightarrow> l\<lparr>el_rw := (el_rw l)[i := rw_unlock (el_rw l ! i)]\<rparr>)"

section \<open>Steps\<close>

record lock_run =
  lr_locks :: engine_locks
  lr_threads :: "thread list"

definition put :: "lock_run \<Rightarrow> nat \<Rightarrow> thread \<Rightarrow> engine_locks \<Rightarrow> lock_run" where
  "put r i t l = r\<lparr>lr_locks := l, lr_threads := (lr_threads r)[i := t]\<rparr>"

inductive lock_step :: "lock_run \<Rightarrow> lock_run \<Rightarrow> bool" where
  enter_single: "i < length (lr_threads r) \<Longrightarrow> lr_threads r ! i = Start s \<Longrightarrow> st_single s \<Longrightarrow>
    \<not> el_single (lr_locks r) \<Longrightarrow> lock_step r (put r i (Running s None) (single_enter (lr_locks r)))"
| enter_create: "i < length (lr_threads r) \<Longrightarrow> lr_threads r ! i = Start s \<Longrightarrow> \<not> st_single s \<Longrightarrow>
    st_type s = QUERY_CREATE \<Longrightarrow> can_write (el_catalog (lr_locks r)) \<Longrightarrow>
    lock_step r (put r i (Running s None) (catalog_write (lr_locks r)))"
| enter_catalog: "i < length (lr_threads r) \<Longrightarrow> lr_threads r ! i = Start s \<Longrightarrow> \<not> st_single s \<Longrightarrow>
    st_type s \<noteq> QUERY_CREATE \<Longrightarrow> can_read (el_catalog (lr_locks r)) \<Longrightarrow>
    lock_step r (put r i (Catalog s) (catalog_read (lr_locks r)))"
| find_slot: "i < length (lr_threads r) \<Longrightarrow> lr_threads r ! i = Catalog s \<Longrightarrow>
    registry_get_or_create_locked (el_tables (lr_locks r)) (st_table s) = (slot, names) \<Longrightarrow>
    lock_step r (put r i (At_slot s slot) ((lr_locks r)\<lparr>el_tables := names\<rparr>))"
| lock_table: "i < length (lr_threads r) \<Longrightarrow> lr_threads r ! i = At_slot s slot \<Longrightarrow>
    can_lock_slot (lr_locks r) s slot \<Longrightarrow>
    lock_step r (put r i (Running s slot) (lock_slot (lr_locks r) s slot))"
| leave_single: "i < length (lr_threads r) \<Longrightarrow> lr_threads r ! i = Running s slot \<Longrightarrow> st_single s \<Longrightarrow>
    lock_step r (put r i Done (single_exit (lr_locks r)))"
| leave_create: "i < length (lr_threads r) \<Longrightarrow> lr_threads r ! i = Running s slot \<Longrightarrow> \<not> st_single s \<Longrightarrow>
    st_type s = QUERY_CREATE \<Longrightarrow> lock_step r (put r i Done (catalog_release (lr_locks r)))"
| leave_table: "i < length (lr_threads r) \<Longrightarrow> lr_threads r ! i = Running s slot \<Longrightarrow> \<not> st_single s \<Longrightarrow>
    st_type s \<noteq> QUERY_CREATE \<Longrightarrow>
    lock_step r (put r i (Releasing s) (table_release (lr_locks r) (st_table s)))"
| leave_catalog: "i < length (lr_threads r) \<Longrightarrow> lr_threads r ! i = Releasing s \<Longrightarrow>
    lock_step r (put r i Done (catalog_release (lr_locks r)))"

definition lock_init :: "lock_run \<Rightarrow> bool" where
  "lock_init r \<longleftrightarrow> lr_locks r = engine_lock_init \<and>
     (\<forall>t \<in> set (lr_threads r). \<exists>s. t = Start s \<and> length (st_table s) \<le> 63)"

section \<open>The invariant\<close>

definition thread_ok :: "string list \<Rightarrow> thread \<Rightarrow> bool" where
  "thread_ok names t = (case t of
     Start s \<Rightarrow> length (st_table s) \<le> 63
   | Catalog s \<Rightarrow> length (st_table s) \<le> 63 \<and> \<not> st_single s \<and> st_type s \<noteq> QUERY_CREATE
   | At_slot s slot \<Rightarrow> \<not> st_single s \<and> st_type s \<noteq> QUERY_CREATE \<and>
       registry_find_locked names (st_table s) = slot \<and> (slot = None \<longrightarrow> length names = max_tables)
   | Running s slot \<Rightarrow> (if st_single s \<or> st_type s = QUERY_CREATE then slot = None
       else registry_find_locked names (st_table s) = slot \<and> (slot = None \<longrightarrow> length names = max_tables))
   | Releasing s \<Rightarrow> \<not> st_single s
   | Done \<Rightarrow> True)"

text \<open>Which threads hold what.\<close>

fun reads_catalog :: "thread \<Rightarrow> bool" where
  "reads_catalog (Catalog s) = True"
| "reads_catalog (At_slot s slot) = True"
| "reads_catalog (Running s slot) = (\<not> st_single s \<and> st_type s \<noteq> QUERY_CREATE)"
| "reads_catalog (Releasing s) = True"
| "reads_catalog _ = False"

fun writes_catalog :: "thread \<Rightarrow> bool" where
  "writes_catalog (Running s slot) = (\<not> st_single s \<and> st_type s = QUERY_CREATE)"
| "writes_catalog _ = False"

fun holds_single :: "thread \<Rightarrow> bool" where
  "holds_single (Running s slot) = st_single s"
| "holds_single _ = False"

fun reads_slot :: "nat \<Rightarrow> thread \<Rightarrow> bool" where
  "reads_slot i (Running s slot) = (slot = Some i \<and> \<not> is_write s)"
| "reads_slot i _ = False"

fun writes_slot :: "nat \<Rightarrow> thread \<Rightarrow> bool" where
  "writes_slot i (Running s slot) = (slot = Some i \<and> is_write s)"
| "writes_slot i _ = False"

definition count :: "(thread \<Rightarrow> bool) \<Rightarrow> thread list \<Rightarrow> nat" where
  "count P ts = length (filter P ts)"

definition rw_holds :: "rwlock \<Rightarrow> nat \<Rightarrow> nat \<Rightarrow> bool" where
  "rw_holds l readers writers \<longleftrightarrow> rw_readers l = readers \<and> writers = (if rw_writer l then 1 else 0) \<and>
     (rw_writer l \<longrightarrow> readers = 0)"

definition lock_inv :: "lock_run \<Rightarrow> bool" where
  "lock_inv r \<longleftrightarrow> (let l = lr_locks r; ts = lr_threads r in
     (\<forall>t \<in> set ts. thread_ok (el_tables l) t) \<and> length (el_tables l) \<le> max_tables \<and>
     length (el_rw l) = max_tables \<and>
     rw_holds (el_catalog l) (count reads_catalog ts) (count writes_catalog ts) \<and>
     count holds_single ts = (if el_single l then 1 else 0) \<and>
     (\<forall>i < max_tables. rw_holds (el_rw l ! i) (count (reads_slot i) ts) (count (writes_slot i) ts)))"

lemma count_pos: "i < length ts \<Longrightarrow> P (ts ! i) \<Longrightarrow> 0 < count P ts"
  by (auto simp: count_def filter_empty_conv)

lemma count_put:
  "i < length ts \<Longrightarrow> count P (ts[i := t]) = count P ts - (if P (ts ! i) then 1 else 0) + (if P t then 1 else 0)"
  using length_filter_update [of i ts P t] count_pos [of i ts P] by (auto simp: count_def split: if_splits)

lemma count_zero: "count P ts = 0 \<longleftrightarrow> (\<forall>t \<in> set ts. \<not> P t)"
  by (auto simp: count_def filter_empty_conv)

lemma rw_holds_rd: "can_read l \<Longrightarrow> rw_holds l r w \<Longrightarrow> rw_holds (rd_lock l) (Suc r) w"
  by (auto simp: can_read_def rw_holds_def rd_lock_def)

lemma rw_holds_wr: "can_write l \<Longrightarrow> rw_holds l r w \<Longrightarrow> rw_holds (wr_lock l) r (Suc w)"
  by (auto simp: can_write_def rw_holds_def wr_lock_def)

lemma rw_holds_unlock_rd: "0 < r \<Longrightarrow> rw_holds l r w \<Longrightarrow> rw_holds (rw_unlock l) (r - 1) w"
  by (auto simp: rw_holds_def rw_unlock_def)

lemma rw_holds_unlock_wr: "0 < w \<Longrightarrow> rw_holds l r w \<Longrightarrow> rw_holds (rw_unlock l) r (w - 1)"
  by (auto simp: rw_holds_def rw_unlock_def split: if_splits)

lemma registry_get_or_create:
  assumes "registry_get_or_create_locked names t = (slot, names')" "length t \<le> 63" "length names \<le> max_tables"
  shows "registry_find_locked names' t = slot" "slot = None \<longrightarrow> length names' = max_tables"
    "length names' \<le> max_tables" "slot = Some i \<Longrightarrow> i < max_tables"
    "registry_find_locked names u = Some i \<Longrightarrow> registry_find_locked names' u = Some i"
    "length names = max_tables \<Longrightarrow> names' = names"
proof -
  have "registry_find_locked names' t = slot \<and> (slot = None \<longrightarrow> length names' = max_tables) \<and>
    length names' \<le> max_tables \<and> (slot = Some i \<longrightarrow> i < max_tables) \<and>
    (registry_find_locked names u = Some i \<longrightarrow> registry_find_locked names' u = Some i) \<and>
    (length names = max_tables \<longrightarrow> names' = names)"
  proof (cases "registry_find_locked names t")
    case None
    have "same_name (take 63 t) t" using assms(2) by (simp add: same_name_def)
    then show ?thesis
      using assms None
      by (auto simp: registry_get_or_create_locked_def registry_find_locked_def find_idx_append
          split: if_splits)
  next
    case (Some j)
    moreover have "j < length names" using Some by (auto simp: registry_find_locked_def dest: find_idx_length)
    ultimately show ?thesis
      using assms by (auto simp: registry_get_or_create_locked_def registry_find_locked_def)
  qed
  then show "registry_find_locked names' t = slot" "slot = None \<longrightarrow> length names' = max_tables"
    "length names' \<le> max_tables" "slot = Some i \<Longrightarrow> i < max_tables"
    "registry_find_locked names u = Some i \<Longrightarrow> registry_find_locked names' u = Some i"
    "length names = max_tables \<Longrightarrow> names' = names" by blast+
qed

lemma thread_ok_mono:
  assumes "thread_ok names t" "registry_get_or_create_locked names u = (slot, names')" "length u \<le> 63"
    "length names \<le> max_tables"
  shows "thread_ok names' t"
proof -
  have keep: "registry_find_locked names' v = sl \<and> (sl = None \<longrightarrow> length names' = max_tables)"
    if "registry_find_locked names v = sl" "sl = None \<longrightarrow> length names = max_tables" for v sl
  proof (cases sl)
    case None
    then show ?thesis using that registry_get_or_create(6) [OF assms(2-4)] by simp
  next
    case (Some i)
    then show ?thesis using that registry_get_or_create(5) [OF assms(2-4)] by simp
  qed
  show ?thesis
    using assms(1) keep by (cases t) (auto simp: thread_ok_def split: if_splits)
qed

lemma slot_bound: "registry_find_locked names t = Some i \<Longrightarrow> length names \<le> max_tables \<Longrightarrow> i < max_tables"
  by (auto simp: registry_find_locked_def dest: find_idx_length)

text \<open>Replacing one thread: the obligations of each step.\<close>

lemma lock_inv_put:
  assumes inv: "lock_inv r" and i: "i < length (lr_threads r)" and ok: "thread_ok (el_tables l) t"
    and names: "el_tables l = el_tables (lr_locks r)" and len: "length (el_rw l) = max_tables"
    and cat: "rw_holds (el_catalog l) (count reads_catalog ((lr_threads r)[i := t]))
        (count writes_catalog ((lr_threads r)[i := t]))"
    and sing: "count holds_single ((lr_threads r)[i := t]) = (if el_single l then 1 else 0)"
    and slots: "\<And>k. k < max_tables \<Longrightarrow> rw_holds (el_rw l ! k) (count (reads_slot k) ((lr_threads r)[i := t]))
        (count (writes_slot k) ((lr_threads r)[i := t]))"
  shows "lock_inv (put r i t l)"
proof -
  have "\<forall>u \<in> set ((lr_threads r)[i := t]). thread_ok (el_tables l) u"
    using inv ok names by (intro all_nth_update) (simp_all add: lock_inv_def Let_def)
  then show ?thesis
    using inv cat sing slots len names by (simp add: lock_inv_def Let_def put_def)
qed

lemma lock_inv_parts:
  assumes "lock_inv r"
  shows "\<And>i. i < length (lr_threads r) \<Longrightarrow> thread_ok (el_tables (lr_locks r)) (lr_threads r ! i)"
    "length (el_tables (lr_locks r)) \<le> max_tables" "length (el_rw (lr_locks r)) = max_tables"
    "rw_holds (el_catalog (lr_locks r)) (count reads_catalog (lr_threads r)) (count writes_catalog (lr_threads r))"
    "count holds_single (lr_threads r) = (if el_single (lr_locks r) then 1 else 0)"
    "\<And>k. k < max_tables \<Longrightarrow> rw_holds (el_rw (lr_locks r) ! k) (count (reads_slot k) (lr_threads r))
        (count (writes_slot k) (lr_threads r))"
  using assms by (auto simp: lock_inv_def Let_def)

lemma find_slot_inv:
  assumes inv: "lock_inv r" and i: "i < length (lr_threads r)" and c: "lr_threads r ! i = Catalog s"
    and g: "registry_get_or_create_locked (el_tables (lr_locks r)) (st_table s) = (slot, names)"
  shows "lock_inv (put r i (At_slot s slot) ((lr_locks r)\<lparr>el_tables := names\<rparr>))"
proof -
  note P = lock_inv_parts [OF inv]
  have s: "length (st_table s) \<le> 63" "\<not> st_single s" "st_type s \<noteq> QUERY_CREATE"
    using P(1) [OF i] by (simp_all add: c thread_ok_def)
  note G = registry_get_or_create [OF g s(1) P(2)]
  have "\<forall>u \<in> set ((lr_threads r)[i := At_slot s slot]). thread_ok names u"
  proof (rule all_nth_update)
    show "\<forall>u \<in> set (lr_threads r). thread_ok names u"
      using inv thread_ok_mono [OF _ g s(1) P(2)] by (simp add: lock_inv_def Let_def)
    show "thread_ok names (At_slot s slot)" using G s by (simp add: thread_ok_def)
  qed
  then show ?thesis
    using P(3-6) G(3) count_pos [OF i, of reads_catalog]
    by (simp add: lock_inv_def Let_def put_def count_put [OF i] c)
qed

lemma lock_table_inv:
  assumes inv: "lock_inv r" and i: "i < length (lr_threads r)" and c: "lr_threads r ! i = At_slot s slot"
    and g: "can_lock_slot (lr_locks r) s slot"
  shows "lock_inv (put r i (Running s slot) (lock_slot (lr_locks r) s slot))"
proof -
  note P = lock_inv_parts [OF inv]
  have s: "\<not> st_single s" "st_type s \<noteq> QUERY_CREATE" "registry_find_locked (el_tables (lr_locks r)) (st_table s) = slot"
      "slot = None \<longrightarrow> length (el_tables (lr_locks r)) = max_tables"
    using P(1) [OF i] by (simp_all add: c thread_ok_def)
  show ?thesis
  proof (rule lock_inv_put [OF inv i])
    show "thread_ok (el_tables (lock_slot (lr_locks r) s slot)) (Running s slot)"
      using s by (simp add: thread_ok_def lock_slot_def split: option.splits)
    show "rw_holds (el_catalog (lock_slot (lr_locks r) s slot))
        (count reads_catalog ((lr_threads r)[i := Running s slot]))
        (count writes_catalog ((lr_threads r)[i := Running s slot]))"
      using P(4) s count_pos [OF i, of reads_catalog]
      by (simp add: count_put [OF i] c lock_slot_def split: option.splits)
    show "rw_holds (el_rw (lock_slot (lr_locks r) s slot) ! k)
        (count (reads_slot k) ((lr_threads r)[i := Running s slot]))
        (count (writes_slot k) ((lr_threads r)[i := Running s slot]))" if k: "k < max_tables" for k
    proof (cases "slot = Some k")
      case True
      then show ?thesis
        using P(3) P(6) [OF k] g k rw_holds_wr rw_holds_rd
        by (simp add: count_put [OF i] c lock_slot_def can_lock_slot_def split: if_splits)
    next
      case False
      then show ?thesis
        using P(6) [OF k]
        by (cases slot) (simp_all add: count_put [OF i] c lock_slot_def)
    qed
  qed (use P s in \<open>simp_all add: count_put [OF i] c lock_slot_def split: option.splits\<close>)
qed

lemma leave_table_inv:
  assumes inv: "lock_inv r" and i: "i < length (lr_threads r)" and c: "lr_threads r ! i = Running s slot"
    and s: "\<not> st_single s" "st_type s \<noteq> QUERY_CREATE"
  shows "lock_inv (put r i (Releasing s) (table_release (lr_locks r) (st_table s)))"
proof -
  note P = lock_inv_parts [OF inv]
  have f: "registry_find_locked (el_tables (lr_locks r)) (st_table s) = slot"
    using P(1) [OF i] s by (simp add: c thread_ok_def)
  show ?thesis
  proof (rule lock_inv_put [OF inv i])
    show "rw_holds (el_catalog (table_release (lr_locks r) (st_table s)))
        (count reads_catalog ((lr_threads r)[i := Releasing s]))
        (count writes_catalog ((lr_threads r)[i := Releasing s]))"
      using P(4) s count_pos [OF i, of reads_catalog]
      by (simp add: count_put [OF i] c table_release_def split: option.splits)
    show "rw_holds (el_rw (table_release (lr_locks r) (st_table s)) ! k)
        (count (reads_slot k) ((lr_threads r)[i := Releasing s]))
        (count (writes_slot k) ((lr_threads r)[i := Releasing s]))" if k: "k < max_tables" for k
    proof (cases "slot = Some k")
      case True
      then show ?thesis
        using P(3) P(6) [OF k] k f count_pos [OF i, of "reads_slot k"] count_pos [OF i, of "writes_slot k"]
          rw_holds_unlock_wr rw_holds_unlock_rd
        by (cases "is_write s") (simp_all add: count_put [OF i] c table_release_def)
    next
      case False
      then show ?thesis
        using P(6) [OF k] f by (cases slot) (simp_all add: count_put [OF i] c table_release_def)
    qed
  qed (use P s in \<open>simp_all add: count_put [OF i] c table_release_def thread_ok_def split: option.splits\<close>)
qed

lemma lock_inv_step:
  assumes "lock_step r r'" "lock_inv r"
  shows "lock_inv r'"
  using assms
proof (cases rule: lock_step.cases)
  case (enter_single i s)
  note P = lock_inv_parts [OF assms(2)]
  show ?thesis
    unfolding enter_single(1) by (rule lock_inv_put [OF assms(2) enter_single(2)])
      (use P enter_single in \<open>simp_all add: count_put single_enter_def thread_ok_def\<close>)
next
  case (enter_create i s)
  note P = lock_inv_parts [OF assms(2)]
  show ?thesis
    unfolding enter_create(1) by (rule lock_inv_put [OF assms(2) enter_create(2)])
      (use P enter_create in \<open>simp_all add: count_put catalog_write_def thread_ok_def rw_holds_wr\<close>)
next
  case (enter_catalog i s)
  note P = lock_inv_parts [OF assms(2)]
  have "length (st_table s) \<le> 63" using P(1) [OF enter_catalog(2)] enter_catalog(3) by (simp add: thread_ok_def)
  then show ?thesis
    unfolding enter_catalog(1)
    by (intro lock_inv_put [OF assms(2) enter_catalog(2)])
      (use P enter_catalog in \<open>simp_all add: count_put catalog_read_def thread_ok_def rw_holds_rd\<close>)
next
  case (find_slot i s slot names)
  show ?thesis unfolding find_slot(1) by (rule find_slot_inv [OF assms(2) find_slot(2-4)])
next
  case (lock_table i s slot)
  show ?thesis unfolding lock_table(1) by (rule lock_table_inv [OF assms(2) lock_table(2-4)])
next
  case (leave_single i s slot)
  note P = lock_inv_parts [OF assms(2)]
  have "slot = None" using P(1) [OF leave_single(2)] leave_single by (simp add: thread_ok_def)
  then show ?thesis
    unfolding leave_single(1)
    by (intro lock_inv_put [OF assms(2) leave_single(2)])
      (use P leave_single count_pos [OF leave_single(2), of holds_single] in
        \<open>simp_all add: count_put single_exit_def thread_ok_def split: if_splits\<close>)
next
  case (leave_create i s slot)
  note P = lock_inv_parts [OF assms(2)]
  have "slot = None" using P(1) [OF leave_create(2)] leave_create by (simp add: thread_ok_def)
  then show ?thesis
    unfolding leave_create(1)
    by (intro lock_inv_put [OF assms(2) leave_create(2)])
      (use P leave_create count_pos [OF leave_create(2), of writes_catalog] rw_holds_unlock_wr in
        \<open>simp_all add: count_put catalog_release_def thread_ok_def\<close>)
next
  case (leave_table i s slot)
  show ?thesis unfolding leave_table(1) by (rule leave_table_inv [OF assms(2) leave_table(2-5)])
next
  case (leave_catalog i s)
  note P = lock_inv_parts [OF assms(2)]
  show ?thesis
    unfolding leave_catalog(1)
    by (rule lock_inv_put [OF assms(2) leave_catalog(2)])
      (use P leave_catalog count_pos [OF leave_catalog(2), of reads_catalog] rw_holds_unlock_rd in
        \<open>simp_all add: count_put catalog_release_def thread_ok_def\<close>)
qed

lemma lock_inv_init: "lock_init r \<Longrightarrow> lock_inv r"
proof -
  assume h: "lock_init r"
  have "count P (lr_threads r) = 0" if "\<And>s. \<not> P (Start s)" for P
    unfolding count_zero using h that by (auto simp: lock_init_def)
  then show ?thesis
    using h by (auto simp: lock_inv_def Let_def lock_init_def engine_lock_init_def rw_holds_def rw_free_def
        thread_ok_def)
qed

interpretation lk: step_system lock_init lock_step lock_inv
  by unfold_locales (auto intro: lock_inv_init lock_inv_step)

section \<open>Properties\<close>

lemma count_two: "i < length ts \<Longrightarrow> j < length ts \<Longrightarrow> i \<noteq> j \<Longrightarrow> P (ts ! i) \<Longrightarrow> P (ts ! j) \<Longrightarrow> 2 \<le> count P ts"
proof -
  assume "i < length ts" "j < length ts" "i \<noteq> j" "P (ts ! i)" "P (ts ! j)"
  then have "{i, j} \<subseteq> {k. k < length ts \<and> P (ts ! k)}" "card {i, j} = 2" by auto
  then show ?thesis
    unfolding count_def length_filter_conv_card using card_mono [of "{k. k < length ts \<and> P (ts ! k)}" "{i, j}"] by simp
qed

text \<open>Two threads that run conflicting statements; stated on the invariant.\<close>

lemma running_exclusive:
  assumes inv: "lock_inv r"
    and i: "i < length (lr_threads r)" "lr_threads r ! i = Running s p" "\<not> st_single s"
    and j: "j < length (lr_threads r)" "lr_threads r ! j = Running u q" "\<not> st_single u"
    and ij: "i \<noteq> j" and w: "is_write s"
  shows "st_type s \<noteq> QUERY_CREATE \<and> st_type u \<noteq> QUERY_CREATE \<and>
    (st_table u = st_table s \<longrightarrow> length (el_tables (lr_locks r)) = 64 \<and>
       registry_find_locked (el_tables (lr_locks r)) (st_table s) = None)"
proof -
  note P = lock_inv_parts [OF inv]
  have create: False
    if "k < length (lr_threads r)" "lr_threads r ! k = Running a x" "\<not> st_single a" "st_type a = QUERY_CREATE"
      "m < length (lr_threads r)" "lr_threads r ! m = Running b y" "\<not> st_single b" "k \<noteq> m" for k m a b x y
    using P(4) count_pos [OF that(1), of writes_catalog] count_pos [OF that(5), of reads_catalog]
      count_two [OF that(1,5,8), of writes_catalog] that
    by (cases "st_type b = QUERY_CREATE") (auto simp: rw_holds_def split: if_splits)
  then have nc: "st_type s \<noteq> QUERY_CREATE" "st_type u \<noteq> QUERY_CREATE"
    using i j ij by metis+
  have p: "registry_find_locked (el_tables (lr_locks r)) (st_table s) = p"
    "p = None \<longrightarrow> length (el_tables (lr_locks r)) = max_tables"
    and q: "registry_find_locked (el_tables (lr_locks r)) (st_table u) = q"
    using P(1) [OF i(1)] P(1) [OF j(1)] i j nc by (simp_all add: thread_ok_def)
  have "p = None" if same: "st_table u = st_table s"
  proof (rule ccontr)
    assume "p \<noteq> None"
    then obtain k where k: "p = Some k" by blast
    then have "q = Some k" using p(1) q same by simp
    moreover have "k < max_tables" using slot_bound [OF _ P(2)] p(1) k by simp
    ultimately show False
      using P(6) [of k] count_pos [OF i(1), of "writes_slot k"] count_pos [OF j(1), of "reads_slot k"]
        count_two [OF i(1) j(1) ij, of "writes_slot k"] i j k w
      by (cases "is_write u") (auto simp: rw_holds_def split: if_splits)
  qed
  then show ?thesis using nc p by (auto simp: max_tables_def)
qed

text \<open>C17: two statements that run at the same time under the table locks never conflict: when one
  of them writes, neither is a CREATE, and they name different tables, unless the 64 slots of
  the lock registry were already taken by other tables, in which case the table has no lock.\<close>

theorem lock_exclusion:
  assumes "reachable lock_init lock_step r"
    and i: "i < length (lr_threads r)" "lr_threads r ! i = Running s p" "\<not> st_single s"
    and j: "j < length (lr_threads r)" "lr_threads r ! j = Running u q" "\<not> st_single u"
    and ij: "i \<noteq> j" and w: "is_write s"
  shows "st_type s \<noteq> QUERY_CREATE \<and> st_type u \<noteq> QUERY_CREATE \<and>
    (st_table u = st_table s \<longrightarrow> length (el_tables (lr_locks r)) = 64 \<and>
       registry_find_locked (el_tables (lr_locks r)) (st_table s) = None)"
  using running_exclusive [OF lk.reachable_inv [OF assms(1)]] assms by blast

text \<open>Who may move: a thread inside a lock always, a thread at a table lock when nobody holds one, and
  a thread at the start when all locks are free.\<close>

lemma inside_moves:
  assumes "i < length (lr_threads r)"
    and "(\<exists>s p. lr_threads r ! i = Running s p) \<or> (\<exists>s. lr_threads r ! i = Releasing s) \<or> (\<exists>s. lr_threads r ! i = Catalog s)"
  shows "\<exists>r'. lock_step r r'"
proof -
  consider s p where "lr_threads r ! i = Running s p" | s where "lr_threads r ! i = Releasing s"
    | s where "lr_threads r ! i = Catalog s"
    using assms(2) by blast
  then show ?thesis
  proof cases
    case (1 s p)
    then show ?thesis
      using leave_single [OF assms(1)] leave_create [OF assms(1)] leave_table [OF assms(1)] by blast
  next
    case (2 s)
    then show ?thesis using leave_catalog [OF assms(1)] by blast
  next
    case (3 s)
    then show ?thesis using find_slot [OF assms(1)] by (metis surj_pair)
  qed
qed

lemma waiting_moves:
  assumes "lock_inv r" "i < length (lr_threads r)" "lr_threads r ! i = At_slot s p"
    and "\<And>k. count (reads_slot k) (lr_threads r) = 0" "\<And>k. count (writes_slot k) (lr_threads r) = 0"
  shows "\<exists>r'. lock_step r r'"
proof -
  note P = lock_inv_parts [OF assms(1)]
  have "can_lock_slot (lr_locks r) s p"
  proof (cases p)
    case (Some k)
    then have "registry_find_locked (el_tables (lr_locks r)) (st_table s) = Some k"
      using P(1) [OF assms(2)] assms(3) by (simp add: thread_ok_def)
    then have "k < max_tables" by (rule slot_bound [OF _ P(2)])
    then show ?thesis
      using P(6) [of k] assms(4) [of k] assms(5) [of k] Some
      by (auto simp: can_lock_slot_def can_read_def can_write_def rw_holds_def split: if_splits)
  qed (simp add: can_lock_slot_def)
  then show ?thesis using lock_table [OF assms(2,3)] by blast
qed

text \<open>C26: the locking order cannot deadlock: as long as some thread has not finished its
  statement, some thread can take its next step.\<close>

theorem lock_no_deadlock:
  assumes "reachable lock_init lock_step r" and "\<exists>t \<in> set (lr_threads r). t \<noteq> Done"
  shows "\<exists>r'. lock_step r r'"
proof (rule ccontr)
  assume stuck: "\<nexists>r'. lock_step r r'"
  have inv: "lock_inv r" by (rule lk.reachable_inv [OF assms(1)])
  note P = lock_inv_parts [OF inv]
  let ?ts = "lr_threads r"
  have idle: "(\<forall>s p. t \<noteq> Running s p) \<and> (\<forall>s. t \<noteq> Releasing s) \<and> (\<forall>s. t \<noteq> Catalog s)" if "t \<in> set ?ts" for t
    using that inside_moves stuck by (metis in_set_conv_nth)
  have none: "count (reads_slot k) ?ts = 0" "count (writes_slot k) ?ts = 0" "count writes_catalog ?ts = 0"
    "count holds_single ?ts = 0" for k
    unfolding count_zero by (metis idle reads_slot.elims(2), metis idle writes_slot.elims(2),
      metis idle writes_catalog.elims(2), metis idle holds_single.elims(2))
  have no_slot: "\<forall>s p. t \<noteq> At_slot s p" if "t \<in> set ?ts" for t
    using that waiting_moves [OF inv _ _ none(1,2)] stuck by (metis in_set_conv_nth)
  then have "count reads_catalog ?ts = 0"
    unfolding count_zero by (metis idle reads_catalog.elims(2))
  then have free: "can_write (el_catalog (lr_locks r))" "can_read (el_catalog (lr_locks r))"
      "\<not> el_single (lr_locks r)"
    using P(4,5) none by (auto simp: can_write_def can_read_def rw_holds_def split: if_splits)
  obtain i where i: "i < length ?ts" "?ts ! i \<noteq> Done" using assms(2) by (metis in_set_conv_nth)
  then obtain s where s: "?ts ! i = Start s"
    using idle [OF nth_mem [OF i(1)]] no_slot [OF nth_mem [OF i(1)]] by (cases "?ts ! i") auto
  show False
    using enter_single [OF i(1) s] enter_create [OF i(1) s] enter_catalog [OF i(1) s] free stuck by blast
qed

text \<open>Two threads on one table, one in single mode.\<close>

definition two_writers :: lock_run where
  "two_writers = \<lparr>lr_locks = engine_lock_init,
     lr_threads = [Start \<lparr>st_type = QUERY_INSERT, st_table = ''t'', st_single = True\<rparr>,
                   Start \<lparr>st_type = QUERY_UPDATE, st_table = ''t'', st_single = False\<rparr>]\<rparr>"

lemma two_writers_init: "lock_init two_writers"
  by (simp add: lock_init_def two_writers_def)

theorem lock_no_deadlock_witness: "\<exists>r'. lock_step two_writers r'"
  using lock_no_deadlock [OF reachable_init, of two_writers] two_writers_init by (simp add: two_writers_def)

text \<open>Single mode serialises only the statements that ask for it: a statement in single mode
  takes no table lock, so it can run at the same time as a writer of the same table that
  uses the table locks.\<close>

theorem single_mode_not_exclusive:
  "\<exists>r s u p q. reachable lock_init lock_step r \<and> lr_threads r = [Running s p, Running u q] \<and>
     is_write s \<and> is_write u \<and> st_table s = st_table u \<and> st_single s \<and> \<not> st_single u"
proof -
  let ?s = "\<lparr>st_type = QUERY_INSERT, st_table = ''t'', st_single = True\<rparr>"
  let ?u = "\<lparr>st_type = QUERY_UPDATE, st_table = ''t'', st_single = False\<rparr>"
  let ?l = engine_lock_init
  let ?l1 = "single_enter ?l"
  let ?l2 = "catalog_read ?l1"
  let ?l3 = "?l2\<lparr>el_tables := [''t'']\<rparr>"
  let ?r = "\<lambda>ts l. \<lparr>lr_locks = l, lr_threads = ts\<rparr>"
  have 1: "lock_step (?r [Start ?s, Start ?u] ?l) (?r [Running ?s None, Start ?u] ?l1)"
    using enter_single [of 0 "?r [Start ?s, Start ?u] ?l" ?s] by (simp add: put_def engine_lock_init_def)
  have 2: "lock_step (?r [Running ?s None, Start ?u] ?l1) (?r [Running ?s None, Catalog ?u] ?l2)"
    using enter_catalog [of 1 "?r [Running ?s None, Start ?u] ?l1" ?u]
    by (simp add: put_def engine_lock_init_def single_enter_def can_read_def rw_free_def)
  have 3: "lock_step (?r [Running ?s None, Catalog ?u] ?l2) (?r [Running ?s None, At_slot ?u (Some 0)] ?l3)"
    using find_slot [of 1 "?r [Running ?s None, Catalog ?u] ?l2" ?u "Some 0" "[''t'']"]
    by (simp add: put_def engine_lock_init_def single_enter_def catalog_read_def
        registry_get_or_create_locked_def max_tables_def)
  have 4: "lock_step (?r [Running ?s None, At_slot ?u (Some 0)] ?l3)
      (?r [Running ?s None, Running ?u (Some 0)] (lock_slot ?l3 ?u (Some 0)))"
    using lock_table [of 1 "?r [Running ?s None, At_slot ?u (Some 0)] ?l3" ?u "Some 0"]
    by (simp add: put_def engine_lock_init_def single_enter_def catalog_read_def can_lock_slot_def
        can_write_def is_write_def max_tables_def rw_free_def)
  have "reachable lock_init lock_step (?r [Start ?s, Start ?u] ?l)"
    using two_writers_init by (intro reachable_init) (simp add: two_writers_def)
  then have "reachable lock_init lock_step (?r [Running ?s None, Running ?u (Some 0)] (lock_slot ?l3 ?u (Some 0)))"
    using 1 2 3 4 by (blast intro: reachable_step)
  then show ?thesis
    by (intro exI [of _ "?r [Running ?s None, Running ?u (Some 0)] (lock_slot ?l3 ?u (Some 0))"] exI [of _ ?s] exI [of _ ?u]
          exI [of _ None] exI [of _ "Some 0"])
      (simp add: is_write_def)
qed

text \<open>Two readers of one table and a writer of another, all running.\<close>

theorem lock_exclusion_witness:
  "\<exists>r. reachable lock_init lock_step r \<and> (\<exists>s u p q. lr_threads r = [Running s p, Running u q] \<and> is_write s \<and>
     st_table u \<noteq> st_table s \<and> st_type u \<noteq> QUERY_CREATE)"
proof -
  let ?s = "\<lparr>st_type = QUERY_INSERT, st_table = ''a'', st_single = False\<rparr>"
  let ?u = "\<lparr>st_type = QUERY_SELECT, st_table = ''b'', st_single = False\<rparr>"
  let ?l = engine_lock_init
  let ?l1 = "catalog_read ?l"
  let ?l2 = "?l1\<lparr>el_tables := [''a'']\<rparr>"
  let ?l3 = "lock_slot ?l2 ?s (Some 0)"
  let ?l4 = "catalog_read ?l3"
  let ?l5 = "?l4\<lparr>el_tables := [''a'', ''b'']\<rparr>"
  let ?l6 = "lock_slot ?l5 ?u (Some 1)"
  let ?r = "\<lambda>ts l. \<lparr>lr_locks = l, lr_threads = ts\<rparr>"
  note defs = put_def engine_lock_init_def catalog_read_def can_read_def rw_free_def rd_lock_def
    registry_get_or_create_locked_def max_tables_def can_lock_slot_def can_write_def is_write_def lock_slot_def
    same_name_def
  have 1: "lock_step (?r [Start ?s, Start ?u] ?l) (?r [Catalog ?s, Start ?u] ?l1)"
    using enter_catalog [of 0 "?r [Start ?s, Start ?u] ?l" ?s] by (simp add: defs)
  have 2: "lock_step (?r [Catalog ?s, Start ?u] ?l1) (?r [At_slot ?s (Some 0), Start ?u] ?l2)"
    using find_slot [of 0 "?r [Catalog ?s, Start ?u] ?l1" ?s "Some 0" "[''a'']"] by (simp add: defs)
  have 3: "lock_step (?r [At_slot ?s (Some 0), Start ?u] ?l2) (?r [Running ?s (Some 0), Start ?u] ?l3)"
    using lock_table [of 0 "?r [At_slot ?s (Some 0), Start ?u] ?l2" ?s "Some 0"] by (simp add: defs)
  have 4: "lock_step (?r [Running ?s (Some 0), Start ?u] ?l3) (?r [Running ?s (Some 0), Catalog ?u] ?l4)"
    using enter_catalog [of 1 "?r [Running ?s (Some 0), Start ?u] ?l3" ?u] by (simp add: defs)
  have 5: "lock_step (?r [Running ?s (Some 0), Catalog ?u] ?l4) (?r [Running ?s (Some 0), At_slot ?u (Some 1)] ?l5)"
    using find_slot [of 1 "?r [Running ?s (Some 0), Catalog ?u] ?l4" ?u "Some 1" "[''a'', ''b'']"] by (simp add: defs)
  have 6: "lock_step (?r [Running ?s (Some 0), At_slot ?u (Some 1)] ?l5) (?r [Running ?s (Some 0), Running ?u (Some 1)] ?l6)"
    using lock_table [of 1 "?r [Running ?s (Some 0), At_slot ?u (Some 1)] ?l5" ?u "Some 1"] by (simp add: defs)
  have init: "reachable lock_init lock_step (?r [Start ?s, Start ?u] ?l)"
    by (intro reachable_init) (simp add: lock_init_def)
  note r1 = reachable_step [OF init, OF 1]
  note r2 = reachable_step [OF r1, OF 2]
  note r3 = reachable_step [OF r2, OF 3]
  note r4 = reachable_step [OF r3, OF 4]
  note r5 = reachable_step [OF r4, OF 5]
  note reach = reachable_step [OF r5, OF 6]
  have "st_type ?u \<noteq> QUERY_CREATE"
    using lock_exclusion [OF reach, of 0 ?s "Some 0" 1 ?u "Some 1"] by (simp add: is_write_def)
  then show ?thesis
    using reach by (intro exI [of _ "?r [Running ?s (Some 0), Running ?u (Some 1)] ?l6"] conjI exI [of _ ?s]
        exI [of _ ?u] exI [of _ "Some 0"] exI [of _ "Some 1"]) (simp_all add: is_write_def)
qed

end
