(* ===== verification/Csv.thy ===== *)
theory Csv
  imports Prelude
begin

text \<open>
  The CSV reader and writer of \<^verbatim>\<open>src/storage.c\<close>. A file is the string of its bytes; reading a
  record returns the bytes behind it. A record is a C string, so a NUL byte of the file ends
  it. The writer fails only when the disk does, which is not modelled.
\<close>

section \<open>Writing\<close>

definition dquote :: char where "dquote = CHR 0x22"
definition newline :: char where "newline = CHR 0x0A"
definition creturn :: char where "creturn = CHR 0x0D"
definition nul :: char where "nul = CHR 0x00"

definition csv_special :: "char \<Rightarrow> bool" where
  "csv_special c \<longleftrightarrow> c = CHR '','' \<or> c = dquote \<or> c = newline \<or> c = creturn"

fun escape_quotes :: "string \<Rightarrow> string" where
  "escape_quotes [] = []"
| "escape_quotes (c # cs) = (if c = dquote then [dquote, dquote] else [c]) @ escape_quotes cs"

definition write_csv_field :: "string \<Rightarrow> string" where
  "write_csv_field v = (if list_ex csv_special v then dquote # escape_quotes v @ [dquote] else v)"

fun write_csv_row :: "string list \<Rightarrow> string" where
  "write_csv_row [] = [newline]"
| "write_csv_row [v] = write_csv_field v @ [newline]"
| "write_csv_row (v # w # ws) = write_csv_field v @ CHR '','' # write_csv_row (w # ws)"

section \<open>Reading\<close>

datatype csv_read = Csv_record string string | Csv_eof | Csv_error

definition append_char :: "string \<Rightarrow> char \<Rightarrow> string" where
  "append_char buf c = buf @ [c]"

text \<open>The loop of \<^verbatim>\<open>read_csv_record\<close>: the quote flag, the buffer and the rest of the file at its end.\<close>

fun read_loop :: "bool \<Rightarrow> string \<Rightarrow> string \<Rightarrow> bool \<times> string \<times> string" where
  "read_loop q buf [] = (q, buf, [])"
| "read_loop q buf (c # cs) =
     (if \<not> q \<and> (c = newline \<or> c = creturn)
      then (q, buf, if c = creturn \<and> cs \<noteq> [] \<and> hd cs = newline then tl cs else cs)
      else if c = dquote
        then (if q
              then (case cs of
                      [] \<Rightarrow> (False, append_char buf c, [])
                    | d # ds \<Rightarrow> if d = dquote then read_loop True (append_char (append_char buf c) d) ds
                                else read_loop False (append_char buf c) (d # ds))
              else read_loop True (append_char buf c) cs)
      else read_loop q (append_char buf c) cs)"

definition read_csv_record :: "string \<Rightarrow> csv_read" where
  "read_csv_record fp =
     (if fp = [] then Csv_eof
      else let (in_quotes, buf, rest) = read_loop False [] fp
           in if in_quotes then Csv_error else Csv_record (takeWhile (\<lambda>c. c \<noteq> nul) buf) rest)"

definition push_field :: "string list \<Rightarrow> string \<Rightarrow> string list" where
  "push_field fields field = fields @ [field]"

fun fields_loop :: "bool \<Rightarrow> bool \<Rightarrow> string \<Rightarrow> string list \<Rightarrow> string \<Rightarrow> string list option" where
  "fields_loop in_quotes closed field fields [] = (if in_quotes then None else Some (push_field fields field))"
| "fields_loop in_quotes closed field fields (c # cs) =
     (if in_quotes
      then (if c = dquote
            then (case cs of
                    [] \<Rightarrow> fields_loop False True field fields []
                  | d # ds \<Rightarrow> if d = dquote then fields_loop True closed (append_char field dquote) fields ds
                              else fields_loop False True field fields (d # ds))
            else fields_loop True closed (append_char field c) fields cs)
      else if closed
        then (if c = CHR '','' then fields_loop False False [] (push_field fields field) cs else None)
      else if c = dquote
        then (if field \<noteq> [] then None else fields_loop True False field fields cs)
      else if c = CHR '','' then fields_loop False False [] (push_field fields field) cs
      else fields_loop False False (append_char field c) fields cs)"

definition parse_csv_record :: "string \<Rightarrow> string list option" where
  "parse_csv_record record = fields_loop False False [] [] record"

section \<open>The reader inverts the writer\<close>

definition nul_free :: "string \<Rightarrow> bool" where
  "nul_free s \<longleftrightarrow> nul \<notin> set s"

lemma read_loop_plain:
  "\<forall>c \<in> set v. \<not> csv_special c \<Longrightarrow> read_loop False buf (v @ rest) = read_loop False (buf @ v) rest"
  by (induction v arbitrary: buf) (auto simp: csv_special_def append_char_def)

lemma read_loop_quoted:
  "\<not> (rest \<noteq> [] \<and> hd rest = dquote) \<Longrightarrow>
   read_loop True buf (escape_quotes v @ dquote # rest) = read_loop False (buf @ escape_quotes v @ [dquote]) rest"
proof (induction v arbitrary: buf)
  case Nil
  then show ?case by (cases rest) (auto simp: append_char_def)
next
  case (Cons c v)
  then show ?case by (auto simp: append_char_def)
qed

lemma dquote_ne: "dquote \<noteq> newline" "dquote \<noteq> creturn" "dquote \<noteq> CHR '',''" "newline \<noteq> dquote"
  "CHR '','' \<noteq> dquote" "CHR '','' \<noteq> newline" "CHR '','' \<noteq> creturn" "CHR '','' \<noteq> nul"
  "dquote \<noteq> nul" "newline \<noteq> creturn" "nul \<noteq> dquote" "nul \<noteq> CHR '',''"
  by (simp_all add: dquote_def newline_def creturn_def nul_def)

lemma read_loop_field:
  assumes "rest = [] \<or> hd rest \<noteq> dquote"
  shows "read_loop False buf (write_csv_field v @ rest) = read_loop False (buf @ write_csv_field v) rest"
  using assms read_loop_quoted [of rest "buf @ [dquote]" v]
  by (auto simp: write_csv_field_def list_ex_iff append_char_def dquote_ne intro!: read_loop_plain)

fun csv_line :: "string list \<Rightarrow> string" where
  "csv_line [] = []"
| "csv_line [v] = write_csv_field v"
| "csv_line (v # w # ws) = write_csv_field v @ CHR '','' # csv_line (w # ws)"

lemma write_csv_row_line: "write_csv_row vs = csv_line vs @ [newline]"
  by (induction vs rule: csv_line.induct) auto

lemma read_loop_line:
  "read_loop False buf (csv_line vs @ newline # rest) = (False, buf @ csv_line vs, rest)"
proof (induction vs arbitrary: buf rule: csv_line.induct)
  case 1
  show ?case by (simp add: dquote_ne)
next
  case (2 v)
  show ?case using read_loop_field [of "newline # rest" buf v] by (simp add: dquote_ne)
next
  case (3 v w ws)
  show ?case
    using read_loop_field [of "CHR '','' # csv_line (w # ws) @ newline # rest" buf v] "3.IH" [of "buf @ write_csv_field v @ ['','' ! 0]"]
    by (simp add: dquote_ne append_char_def)
qed

lemma nul_free_field: "nul_free v \<Longrightarrow> nul_free (write_csv_field v)"
proof -
  have "nul_free v \<Longrightarrow> nul_free (escape_quotes v)"
    by (induction v) (auto simp: nul_free_def dquote_ne)
  then show "nul_free v \<Longrightarrow> nul_free (write_csv_field v)"
    by (auto simp: write_csv_field_def nul_free_def dquote_ne)
qed

lemma nul_free_line: "\<forall>v \<in> set vs. nul_free v \<Longrightarrow> nul_free (csv_line vs)"
  using nul_free_field by (induction vs rule: csv_line.induct) (simp_all add: nul_free_def dquote_ne)

lemma fields_loop_plain:
  "\<forall>c \<in> set v. \<not> csv_special c \<Longrightarrow>
   fields_loop False False fld fs (v @ rest) = fields_loop False False (fld @ v) fs rest"
  by (induction v arbitrary: fld) (auto simp: csv_special_def append_char_def)

lemma fields_loop_quoted:
  "\<not> (rest \<noteq> [] \<and> hd rest = dquote) \<Longrightarrow>
   fields_loop True k fld fs (escape_quotes v @ dquote # rest) = fields_loop False True (fld @ v) fs rest"
proof (induction v arbitrary: fld)
  case Nil
  then show ?case by (cases rest) auto
next
  case (Cons c v)
  then show ?case by (auto simp: append_char_def)
qed

lemma fields_loop_field:
  assumes "rest = [] \<or> hd rest = CHR '',''"
  shows "fields_loop False False [] fs (write_csv_field v @ rest) =
    (if rest = [] then Some (fs @ [v]) else fields_loop False False [] (fs @ [v]) (tl rest))"
proof (cases "list_ex csv_special v")
  case True
  then show ?thesis using assms fields_loop_quoted [of rest False "[]" fs v]
    by (cases rest) (auto simp: write_csv_field_def dquote_ne push_field_def)
next
  case False
  then show ?thesis using assms fields_loop_plain [of v "[]" fs rest]
    by (cases rest) (auto simp: write_csv_field_def list_ex_iff dquote_ne push_field_def)
qed

lemma fields_loop_line:
  "vs \<noteq> [] \<Longrightarrow> fields_loop False False [] fs (csv_line vs) = Some (fs @ vs)"
proof (induction vs arbitrary: fs rule: csv_line.induct)
  case 1
  then show ?case by simp
next
  case (2 v)
  show ?case using fields_loop_field [of "[]" fs v] by simp
next
  case (3 v w ws)
  then show ?case using fields_loop_field [of "CHR '','' # csv_line (w # ws)" fs v] by simp
qed

lemma parse_csv_line: "vs \<noteq> [] \<Longrightarrow> parse_csv_record (csv_line vs) = Some vs"
  by (simp add: parse_csv_record_def fields_loop_line)

lemma read_csv_row:
  assumes "\<forall>v \<in> set vs. nul_free v"
  shows "read_csv_record (write_csv_row vs @ rest) = Csv_record (csv_line vs) rest"
proof -
  have "takeWhile (\<lambda>c. c \<noteq> nul) (csv_line vs) = csv_line vs"
    using nul_free_line [OF assms] by (auto simp: nul_free_def takeWhile_eq_all_conv)
  then show ?thesis
    by (simp add: read_csv_record_def write_csv_row_line read_loop_line)
qed

text \<open>C31: writing a row and reading it back: whatever its fields hold (commas, quotes, line
  breaks; no NUL byte, which a C string cannot hold), \<^verbatim>\<open>read_csv_record\<close> takes exactly the bytes
  \<^verbatim>\<open>write_csv_row\<close> wrote and \<^verbatim>\<open>parse_csv_record\<close> returns the row.\<close>

theorem csv_row_roundtrip:
  assumes "row \<noteq> []" "\<forall>v \<in> set row. nul_free v"
  shows "\<exists>record. read_csv_record (write_csv_row row @ rest) = Csv_record record rest \<and>
    parse_csv_record record = Some row"
  using assms by (simp add: read_csv_row parse_csv_line)

theorem csv_row_roundtrip_witness:
  "\<exists>record. read_csv_record (write_csv_row [''a,b'', [dquote, CHR ''x'', newline], []] @ ''next'') =
      Csv_record record ''next'' \<and>
    parse_csv_record record = Some [''a,b'', [dquote, CHR ''x'', newline], []]"
  by (rule csv_row_roundtrip) (simp_all add: nul_free_def nul_def dquote_def newline_def)

section \<open>The reader on any file\<close>

lemma read_loop_rest: "length (snd (snd (read_loop q buf s))) \<le> length s"
proof (induction s arbitrary: q buf rule: length_induct)
  case (1 s)
  show ?case
  proof (cases s)
    case s: (Cons c cs)
    have IH: "length (snd (snd (read_loop p b t))) \<le> Suc (length cs)" if "length t \<le> length cs" for p b t
      using 1 that s by (meson impossible_Cons le_SucI le_trans linorder_not_less)
    show ?thesis
      unfolding s read_loop.simps(2) [of q buf c cs]
      using IH by (cases cs) (simp_all del: read_loop.simps)
  qed simp
qed

lemma read_loop_progress: "s \<noteq> [] \<Longrightarrow> length (snd (snd (read_loop q buf s))) < length s"
proof (cases s)
  case s: (Cons c cs)
  have IH: "length (snd (snd (read_loop p b t))) < Suc (length cs)" if "length t \<le> length cs" for p b t
    using read_loop_rest [of p b t] that by simp
  show ?thesis
    unfolding s read_loop.simps(2) [of q buf c cs]
    using IH by (cases cs) (simp_all del: read_loop.simps)
qed simp

lemma read_csv_record_progress:
  "read_csv_record fp = Csv_record r rest \<Longrightarrow> length rest < length fp"
  using read_loop_progress [of fp False "[]"]
  by (auto simp: read_csv_record_def split: if_splits prod.splits)

lemma fields_loop_nonempty: "fields_loop q k fld fs s = Some vs \<Longrightarrow> vs \<noteq> []"
  by (induction q k fld fs s rule: fields_loop.induct) (auto split: if_splits list.splits simp: push_field_def)

end
