(* ===== verification/C_Double.thy ===== *)
theory C_Double
  imports Prelude "HOL-Library.Log_Nat"
begin

text \<open>
  The part of C's \<^verbatim>\<open>double\<close> that the sources use: \<^verbatim>\<open>strtod\<close>, the conversion from
  \<^verbatim>\<open>long\<close>, addition, multiplication, division, comparison and \<^verbatim>\<open>"%.2f"\<close>. A finite double is
  its sign and its magnitude, a rational that results from rounding to 53 bits (nearest,
  ties to even). The sign of a NaN is not kept.
\<close>

section \<open>Values and rounding\<close>

datatype double = Finite_d bool rat | Infinite_d bool | NaN_d

fun d_value :: "double \<Rightarrow> rat" where
  "d_value (Finite_d neg m) = (if neg then - m else m)"
| "d_value _ = 0"

definition pow2 :: "int \<Rightarrow> rat" where
  "pow2 e = (if 0 \<le> e then 2 ^ nat e else 1 / 2 ^ nat (- e))"

definition half_even :: "rat \<Rightarrow> int" where
  "half_even x =
     (let f = \<lfloor>x\<rfloor>; d = x - of_int f
      in if d < 1 / 2 \<or> (d = 1 / 2 \<and> even f) then f else f + 1)"

text \<open>The exponent of the leading bit of a positive rational.\<close>

definition exponent_of :: "rat \<Rightarrow> int" where
  "exponent_of m =
     (let (p, q) = quotient_of m; k = bitlen p - bitlen q
      in if pow2 k \<le> m then k else k - 1)"

definition round_mag :: "rat \<Rightarrow> rat" where
  "round_mag m =
     (if m = 0 then 0
      else let u = max (exponent_of m - 52) (-1074)
           in of_int (half_even (m / pow2 u)) * pow2 u)"

definition make_double :: "bool \<Rightarrow> rat \<Rightarrow> double" where
  "make_double neg m =
     (let r = round_mag m in if pow2 1024 \<le> r then Infinite_d neg else Finite_d neg r)"

definition of_rat_d :: "rat \<Rightarrow> double" where
  "of_rat_d x = make_double (x < 0) \<bar>x\<bar>"

text \<open>The conversion \<^verbatim>\<open>(double)\<close> of a \<^verbatim>\<open>long\<close> or an \<^verbatim>\<open>int\<close>.\<close>

definition double_of_long :: "int \<Rightarrow> double" where
  "double_of_long n = of_rat_d (of_int n)"

fun d_sign :: "double \<Rightarrow> bool" where
  "d_sign (Finite_d neg _) = neg"
| "d_sign (Infinite_d neg) = neg"
| "d_sign NaN_d = False"

text \<open>Addition; an exact zero sum is positive unless both operands are negative zeros.\<close>

fun d_add :: "double \<Rightarrow> double \<Rightarrow> double" where
  "d_add NaN_d _ = NaN_d"
| "d_add _ NaN_d = NaN_d"
| "d_add (Infinite_d a) (Infinite_d b) = (if a = b then Infinite_d a else NaN_d)"
| "d_add (Infinite_d a) (Finite_d _ _) = Infinite_d a"
| "d_add (Finite_d _ _) (Infinite_d b) = Infinite_d b"
| "d_add (Finite_d a m) (Finite_d b n) =
     (let s = d_value (Finite_d a m) + d_value (Finite_d b n)
      in if s = 0 then Finite_d (a \<and> b) 0 else of_rat_d s)"

text \<open>Division by a positive row count.\<close>

fun d_div_count :: "double \<Rightarrow> nat \<Rightarrow> double" where
  "d_div_count (Finite_d a m) n = make_double a (m / d_value (double_of_long (int n)))"
| "d_div_count x n = x"

fun d_less :: "double \<Rightarrow> double \<Rightarrow> bool" where
  "d_less NaN_d _ = False"
| "d_less _ NaN_d = False"
| "d_less (Infinite_d a) y = (a \<and> y \<noteq> Infinite_d True)"
| "d_less x (Infinite_d b) = (\<not> b)"
| "d_less x y = (d_value x < d_value y)"

text \<open>Multiplication and division.\<close>

fun d_mul :: "double \<Rightarrow> double \<Rightarrow> double" where
  "d_mul NaN_d _ = NaN_d"
| "d_mul _ NaN_d = NaN_d"
| "d_mul (Finite_d a m) (Finite_d b n) = make_double (a \<noteq> b) (m * n)"
| "d_mul (Finite_d a m) (Infinite_d b) = (if m = 0 then NaN_d else Infinite_d (a \<noteq> b))"
| "d_mul (Infinite_d a) (Finite_d b n) = (if n = 0 then NaN_d else Infinite_d (a \<noteq> b))"
| "d_mul (Infinite_d a) (Infinite_d b) = Infinite_d (a \<noteq> b)"

fun d_div :: "double \<Rightarrow> double \<Rightarrow> double" where
  "d_div NaN_d _ = NaN_d"
| "d_div _ NaN_d = NaN_d"
| "d_div (Finite_d a m) (Finite_d b n) =
     (if n = 0 then (if m = 0 then NaN_d else Infinite_d (a \<noteq> b)) else make_double (a \<noteq> b) (m / n))"
| "d_div (Finite_d a m) (Infinite_d b) = Finite_d (a \<noteq> b) 0"
| "d_div (Infinite_d a) (Finite_d b n) = Infinite_d (a \<noteq> b)"
| "d_div (Infinite_d a) (Infinite_d b) = NaN_d"

definition d_int :: "int \<Rightarrow> double" where "d_int n = double_of_long n"
definition d_zero :: double where "d_zero = Finite_d False 0"

section \<open>\<^verbatim>\<open>strtod\<close>\<close>

definition hex_digit :: "char \<Rightarrow> bool" where
  "hex_digit c \<longleftrightarrow> is_digit c \<or> (97 \<le> code_of (to_lower c) \<and> code_of (to_lower c) \<le> 102)"

definition hex_val :: "char \<Rightarrow> int" where
  "hex_val c = (if is_digit c then digit_val c else int (code_of (to_lower c)) - 87)"

definition mantissa :: "int \<Rightarrow> (char \<Rightarrow> int) \<Rightarrow> string \<Rightarrow> int" where
  "mantissa base dv ds = foldl (\<lambda>a c. base * a + dv c) 0 ds"

definition split_point :: "(char \<Rightarrow> bool) \<Rightarrow> string \<Rightarrow> string \<times> string \<times> string" where
  "split_point dig s =
     (let a = takeWhile dig s; r = dropWhile dig s
      in case r of
           c # t \<Rightarrow> if c = CHR ''.'' then (a, takeWhile dig t, dropWhile dig t) else (a, [], r)
         | [] \<Rightarrow> (a, [], []))"

text \<open>An optional exponent part introduced by one of two letters.\<close>

definition exponent_part :: "string \<Rightarrow> string \<Rightarrow> int \<times> string" where
  "exponent_part marks r =
     (case r of
        [] \<Rightarrow> (0, [])
      | c # t \<Rightarrow>
          if c \<in> set marks
          then (let neg = (t \<noteq> [] \<and> hd t = CHR ''-'');
                    u = (if t \<noteq> [] \<and> (hd t = CHR ''-'' \<or> hd t = CHR ''+'') then tl t else t);
                    ds = takeWhile is_digit u
                in if ds = [] then (0, r)
                   else (if neg then - nat_of_digits ds else nat_of_digits ds, dropWhile is_digit u))
          else (0, r))"

definition scale :: "int \<Rightarrow> int \<Rightarrow> int \<Rightarrow> rat" where
  "scale base m e = (if 0 \<le> e then of_int (m * base ^ nat e) else of_int m / of_int (base ^ nat (- e)))"

text \<open>The rounded value with whether \<^verbatim>\<open>errno\<close> is set: overflow, or an inexact subnormal result.\<close>

definition ranged :: "bool \<Rightarrow> rat \<Rightarrow> double \<times> bool" where
  "ranged neg m =
     (let d = make_double neg m
      in (d, case d of Finite_d _ r \<Rightarrow> r \<noteq> m \<and> r < pow2 (-1022) | _ \<Rightarrow> True))"

definition starts_with :: "string \<Rightarrow> string \<Rightarrow> bool" where
  "starts_with w s \<longleftrightarrow> ieq (take (length w) s) w"

definition nan_rest :: "string \<Rightarrow> string" where
  "nan_rest s =
     (case s of
        c # t \<Rightarrow> (let r = dropWhile (\<lambda>x. is_alnum x \<or> x = CHR ''_'') t
                   in if c = CHR ''('' \<and> r \<noteq> [] \<and> hd r = CHR '')'' then tl r else s)
      | [] \<Rightarrow> [])"

definition strtod_hex :: "bool \<Rightarrow> string \<Rightarrow> (double \<times> string \<times> bool) option" where
  "strtod_hex neg s =
     (let (a, b, r) = split_point hex_digit s
      in if a @ b = [] then None
         else let (e, r1) = exponent_part ''pP'' r;
                  (d, er) = ranged neg (scale 2 (mantissa 16 hex_val (a @ b)) (e - 4 * int (length b)))
              in Some (d, r1, er))"

definition strtod_dec :: "bool \<Rightarrow> string \<Rightarrow> (double \<times> string \<times> bool) option" where
  "strtod_dec neg s =
     (let (a, b, r) = split_point is_digit s
      in if a @ b = [] then None
         else let (e, r1) = exponent_part ''eE'' r;
                  (d, er) = ranged neg (scale 10 (mantissa 10 digit_val (a @ b)) (e - int (length b)))
              in Some (d, r1, er))"

definition strtod :: "string \<Rightarrow> (double \<times> string \<times> bool) option" where
  "strtod s =
     (let s1 = dropWhile is_space s;
          neg = (s1 \<noteq> [] \<and> hd s1 = CHR ''-'');
          s2 = (if s1 \<noteq> [] \<and> (hd s1 = CHR ''-'' \<or> hd s1 = CHR ''+'') then tl s1 else s1)
      in if starts_with ''infinity'' s2 then Some (Infinite_d neg, drop 8 s2, False)
         else if starts_with ''inf'' s2 then Some (Infinite_d neg, drop 3 s2, False)
         else if starts_with ''nan'' s2 then Some (NaN_d, nan_rest (drop 3 s2), False)
         else if starts_with ''0x'' s2 \<and> strtod_hex neg (drop 2 s2) \<noteq> None then strtod_hex neg (drop 2 s2)
         else strtod_dec neg s2)"

section \<open>\<^verbatim>\<open>"%.2f"\<close>\<close>

definition show_mag2 :: "rat \<Rightarrow> string" where
  "show_mag2 m =
     (let c = nat (half_even (m * 100))
      in show_nat (c div 100) @ ''.'' @ [char_of (48 + c div 10 mod 10), char_of (48 + c mod 10)])"

fun show_double2 :: "double \<Rightarrow> string" where
  "show_double2 (Finite_d neg m) = (if neg then ''-'' else []) @ show_mag2 m"
| "show_double2 (Infinite_d neg) = (if neg then ''-inf'' else ''inf'')"
| "show_double2 NaN_d = ''nan''"

section \<open>\<^verbatim>\<open>"%g"\<close> and the IEEE encoding\<close>

text \<open>The decimal exponent of a positive rational.\<close>

definition decimal_exponent :: "rat \<Rightarrow> int" where
  "decimal_exponent m =
     (if 1 \<le> m then int (floorlog 10 (nat \<lfloor>m\<rfloor>)) - 1 else - int (floorlog 10 (nat (\<lceil>1 / m\<rceil> - 1))))"

definition strip_zeros :: "string \<Rightarrow> string" where
  "strip_zeros s =
     (if CHR ''.'' \<in> set s
      then (let t = dropWhile (\<lambda>c. c = CHR ''0'') (rev s)
            in rev (if hd t = CHR ''.'' then tl t else t))
      else s)"

definition show_fixed :: "nat \<Rightarrow> nat \<Rightarrow> string" where
  "show_fixed k n =
     (let ds = show_nat n; ds0 = replicate (Suc k - length ds) (CHR ''0'') @ ds
      in take (length ds0 - k) ds0 @ (if k = 0 then [] else CHR ''.'' # drop (length ds0 - k) ds0))"

definition show_mag_g :: "rat \<Rightarrow> string" where
  "show_mag_g m =
     (if m = 0 then ''0''
      else let x = decimal_exponent m;
               d = half_even (scale 10 1 (5 - x) * m);
               (x, d) = (if d = 1000000 then (x + 1, 100000) else (x, d))
           in if -4 \<le> x \<and> x < 6 then strip_zeros (show_fixed (nat (5 - x)) (nat d))
              else strip_zeros (show_fixed 5 (nat d)) @ ''e'' @ (if x < 0 then ''-'' else ''+'') @
                   (if \<bar>x\<bar> < 10 then ''0'' else []) @ show_nat (nat \<bar>x\<bar>))"

fun show_double_g :: "double \<Rightarrow> string" where
  "show_double_g (Finite_d neg m) = (if neg then ''-'' else []) @ show_mag_g m"
| "show_double_g d = show_double2 d"

definition double_of_bits :: "int \<Rightarrow> double" where
  "double_of_bits b =
     (let neg = (2 ^ 63 \<le> b); e = b div 2 ^ 52 mod 2048; f = b mod 2 ^ 52
      in if e = 2047 then (if f = 0 then Infinite_d neg else NaN_d)
         else if e = 0 then Finite_d neg (of_int f * pow2 (-1074))
         else Finite_d neg (of_int (2 ^ 52 + f) * pow2 (e - 1075)))"

section \<open>Order\<close>

lemma d_less_irrefl: "\<not> d_less x x"
  by (cases x) auto

lemma d_less_trans: "d_less x y \<Longrightarrow> d_less y z \<Longrightarrow> d_less x z"
  by (cases x; cases y; cases z) (auto split: if_splits)

lemma d_le_trans: "x \<noteq> NaN_d \<Longrightarrow> y \<noteq> NaN_d \<Longrightarrow> z \<noteq> NaN_d \<Longrightarrow> \<not> d_less y x \<Longrightarrow> \<not> d_less z y \<Longrightarrow> \<not> d_less z x"
  by (cases x; cases y; cases z) (auto split: if_splits)

lemma d_less_asym: "d_less x y \<Longrightarrow> \<not> d_less y x"
  using d_less_trans d_less_irrefl by blast

lemma pow2_pos: "0 < pow2 e"
  by (simp add: pow2_def)

lemma half_even_nonneg: "0 \<le> x \<Longrightarrow> 0 \<le> half_even x"
  by (simp add: half_even_def Let_def)

lemma round_mag_nonneg: "0 \<le> m \<Longrightarrow> 0 \<le> round_mag m"
  by (simp add: round_mag_def Let_def half_even_nonneg less_imp_le [OF pow2_pos])

end
