(* ===== verification/Row_Eval.thy ===== *)
theory Row_Eval
  imports Sql_Types C_Double "HOL-Library.Multiset"
begin

text \<open>
  The evaluation of a statement on rows in \<^verbatim>\<open>src/storage.c\<close>: typed comparison, LIKE, WHERE,
  the validation of DELETE and UPDATE, ORDER BY, column selection, LIMIT and the aggregates.
  A row is the list of its cells, a status with an output parameter is an option. Messages
  on standard error are not modelled.
\<close>

type_synonym row = "string list"
type_synonym schema = "col_def list"

section \<open>Literals\<close>

definition parse_long_value :: "string \<Rightarrow> int option" where
  "parse_long_value text =
     (case strtol text of
        None \<Rightarrow> None
      | Some (v, rest, erange) \<Rightarrow> if erange \<or> rest \<noteq> [] then None else Some v)"

definition parse_double_value :: "string \<Rightarrow> double option" where
  "parse_double_value text =
     (case strtod text of
        None \<Rightarrow> None
      | Some (v, rest, erange) \<Rightarrow> if erange \<or> rest \<noteq> [] then None else Some v)"

definition parse_boolean_value :: "string \<Rightarrow> bool option" where
  "parse_boolean_value text =
     (if ieq text ''true'' \<or> text = ''1'' then Some True
      else if ieq text ''false'' \<or> text = ''0'' then Some False
      else None)"

text \<open>The sign of \<^verbatim>\<open>strcmp\<close>, which is all that the callers use.\<close>

fun strcmp :: "string \<Rightarrow> string \<Rightarrow> int" where
  "strcmp [] [] = 0"
| "strcmp [] (b # bs) = -1"
| "strcmp (a # as) [] = 1"
| "strcmp (a # as) (b # bs) =
     (if a = b then strcmp as bs else if code_of a < code_of b then -1 else 1)"

section \<open>Comparison\<close>

definition compare_ordering_result :: "int \<Rightarrow> string \<Rightarrow> bool option" where
  "compare_ordering_result cmp opr =
     (if opr = ''='' then Some (cmp = 0)
      else if opr = ''!='' then Some (cmp \<noteq> 0)
      else if opr = ''>'' then Some (cmp > 0)
      else if opr = ''<'' then Some (cmp < 0)
      else if opr = ''>='' then Some (cmp \<ge> 0)
      else if opr = ''<='' then Some (cmp \<le> 0)
      else None)"

definition cmp_int :: "int \<Rightarrow> int \<Rightarrow> int" where
  "cmp_int a b = (if a > b then 1 else 0) - (if a < b then 1 else 0)"

definition cmp_double :: "double \<Rightarrow> double \<Rightarrow> int" where
  "cmp_double a b = (if d_less b a then 1 else 0) - (if d_less a b then 1 else 0)"

function like_match :: "string \<Rightarrow> string \<Rightarrow> bool"
  and like_tail :: "string \<Rightarrow> string \<Rightarrow> bool" where
  "like_match text [] \<longleftrightarrow> text = []"
| "like_match text (c # pattern) \<longleftrightarrow>
     (if c = CHR ''%''
      then (let rest = dropWhile (\<lambda>x. x = CHR ''%'') pattern in rest = [] \<or> like_tail text rest)
      else if c = CHR ''_'' then text \<noteq> [] \<and> like_match (tl text) pattern
      else text \<noteq> [] \<and> hd text = c \<and> like_match (tl text) pattern)"
| "like_tail [] rest \<longleftrightarrow> like_match [] rest"
| "like_tail (t # text) rest \<longleftrightarrow> like_match (t # text) rest \<or> like_tail text rest"
  by pat_completeness auto

termination
  by (relation "measures [\<lambda>x. case x of Inl (t, p) \<Rightarrow> length p | Inr (t, p) \<Rightarrow> length p,
      \<lambda>x. case x of Inl (t, p) \<Rightarrow> length t | Inr (t, p) \<Rightarrow> length t,
      \<lambda>x. case x of Inl _ \<Rightarrow> 0 | Inr _ \<Rightarrow> 1]")
    (auto simp: less_Suc_eq_le length_dropWhile_le)

section \<open>WHERE\<close>

definition is_supported_operator :: "string \<Rightarrow> bool" where
  "is_supported_operator opr \<longleftrightarrow> opr \<in> {''='', ''!='', ''>'', ''<'', ''>='', ''<='', ''LIKE''}"

fun is_supported_operator_for_type :: "column_type \<Rightarrow> string \<Rightarrow> bool" where
  "is_supported_operator_for_type TYPE_VARCHAR opr \<longleftrightarrow> True"
| "is_supported_operator_for_type TYPE_DATETIME opr \<longleftrightarrow> opr = ''='' \<or> opr = ''!=''"
| "is_supported_operator_for_type _ opr \<longleftrightarrow> opr \<noteq> ''LIKE''"

fun validate_literal_for_type :: "column_type \<Rightarrow> string \<Rightarrow> bool" where
  "validate_literal_for_type TYPE_INT value \<longleftrightarrow> parse_long_value value \<noteq> None"
| "validate_literal_for_type TYPE_FLOAT value \<longleftrightarrow> parse_double_value value \<noteq> None"
| "validate_literal_for_type TYPE_BOOLEAN value \<longleftrightarrow> parse_boolean_value value \<noteq> None"
| "validate_literal_for_type _ value \<longleftrightarrow> True"

definition validate_date_text :: "string \<Rightarrow> bool" where
  "validate_date_text text \<longleftrightarrow> length text = 10 \<and>
     list_all (\<lambda>i. if i = 4 \<or> i = 7 then text ! i = CHR ''-'' else is_digit (text ! i)) [0..<10] \<and>
     (let month = digit_val (text ! 5) * 10 + digit_val (text ! 6);
          day = digit_val (text ! 8) * 10 + digit_val (text ! 9)
      in 1 \<le> month \<and> month \<le> 12 \<and> 1 \<le> day \<and> day \<le> 31)"

fun validate_update_value_for_type :: "column_type \<Rightarrow> string \<Rightarrow> bool" where
  "validate_update_value_for_type TYPE_INT value \<longleftrightarrow> parse_long_value value \<noteq> None"
| "validate_update_value_for_type TYPE_FLOAT value \<longleftrightarrow> parse_double_value value \<noteq> None"
| "validate_update_value_for_type TYPE_BOOLEAN value \<longleftrightarrow> parse_boolean_value value \<noteq> None"
| "validate_update_value_for_type TYPE_DATE value \<longleftrightarrow> validate_date_text value"
| "validate_update_value_for_type _ value \<longleftrightarrow> True"

fun compare_value_by_type :: "column_type \<Rightarrow> string \<Rightarrow> string \<Rightarrow> string \<Rightarrow> bool option" where
  "compare_value_by_type TYPE_INT left opr right =
     (case (parse_long_value left, parse_long_value right) of
        (Some l, Some r) \<Rightarrow> compare_ordering_result (cmp_int l r) opr
      | _ \<Rightarrow> None)"
| "compare_value_by_type TYPE_FLOAT left opr right =
     (case (parse_double_value left, parse_double_value right) of
        (Some l, Some r) \<Rightarrow> compare_ordering_result (cmp_double l r) opr
      | _ \<Rightarrow> None)"
| "compare_value_by_type TYPE_BOOLEAN left opr right =
     (case (parse_boolean_value left, parse_boolean_value right) of
        (Some l, Some r) \<Rightarrow> compare_ordering_result (cmp_int (of_bool l) (of_bool r)) opr
      | _ \<Rightarrow> None)"
| "compare_value_by_type TYPE_DATE left opr right = compare_ordering_result (strcmp left right) opr"
| "compare_value_by_type TYPE_VARCHAR left opr right =
     (if opr = ''LIKE'' then Some (like_match left right)
      else compare_ordering_result (strcmp left right) opr)"
| "compare_value_by_type TYPE_DATETIME left opr right =
     (if opr = ''='' \<or> opr = ''!='' then compare_ordering_result (strcmp left right) opr else None)"

definition find_schema_index :: "schema \<Rightarrow> string \<Rightarrow> nat option" where
  "find_schema_index schema column = find_idx (\<lambda>c. ieq (cd_name c) column) schema"

definition evaluate_select_clause :: "schema \<Rightarrow> row \<Rightarrow> where_clause \<Rightarrow> bool option" where
  "evaluate_select_clause schema row clause =
     (case find_schema_index schema (w_column clause) of
        None \<Rightarrow> None
      | Some i \<Rightarrow>
          if length row \<le> i then None
          else let literal = strip_quotes 255 (w_value clause); ty = cd_type (schema ! i)
               in if \<not> is_supported_operator (w_op clause) then None
                  else if \<not> is_supported_operator_for_type ty (w_op clause) then None
                  else if \<not> validate_literal_for_type ty literal then None
                  else compare_value_by_type ty (row ! i) (w_op clause) literal)"

definition resolve_where_link :: "parsed_sql \<Rightarrow> nat \<Rightarrow> string" where
  "resolve_where_link sql i =
     (if i < length (sql_where_links sql) \<and> Suc i < length (sql_where sql) then sql_where_links sql ! i
      else if sql_where_logic sql \<noteq> [] then sql_where_logic sql
      else ''AND'')"

text \<open>The loop from condition \<open>index\<close> on, with the accumulated result and the current AND group.\<close>

fun match_loop :: "schema \<Rightarrow> row \<Rightarrow> parsed_sql \<Rightarrow> nat \<Rightarrow> where_clause list \<Rightarrow> bool \<Rightarrow> bool \<Rightarrow> bool option" where
  "match_loop schema row sql index [] out grp = Some (out \<or> grp)"
| "match_loop schema row sql index (w # ws) out grp =
     (case evaluate_select_clause schema row w of
        None \<Rightarrow> None
      | Some m \<Rightarrow>
          let link = resolve_where_link sql (index - 1)
          in if ieq link ''AND'' then match_loop schema row sql (Suc index) ws out (grp \<and> m)
             else if ieq link ''OR'' then match_loop schema row sql (Suc index) ws (out \<or> grp) m
             else None)"

definition row_matches_delete :: "schema \<Rightarrow> row \<Rightarrow> parsed_sql \<Rightarrow> bool option" where
  "row_matches_delete schema row sql =
     (case sql_where sql of
        [] \<Rightarrow> Some True
      | w # ws \<Rightarrow>
          case evaluate_select_clause schema row w of
            None \<Rightarrow> None
          | Some m \<Rightarrow> match_loop schema row sql 1 ws False m)"

definition row_matches_select :: "parsed_sql \<Rightarrow> schema \<Rightarrow> row \<Rightarrow> bool option" where
  "row_matches_select sql schema row = row_matches_delete schema row sql"

fun collect_matching_rows :: "parsed_sql \<Rightarrow> schema \<Rightarrow> row list \<Rightarrow> row list option" where
  "collect_matching_rows sql schema [] = Some []"
| "collect_matching_rows sql schema (r # rs) =
     (case row_matches_select sql schema r of
        None \<Rightarrow> None
      | Some m \<Rightarrow> map_option (\<lambda>t. if m then r # t else t) (collect_matching_rows sql schema rs))"

section \<open>Validation of DELETE and UPDATE\<close>

fun validate_conditions :: "schema \<Rightarrow> parsed_sql \<Rightarrow> nat \<Rightarrow> where_clause list \<Rightarrow> bool" where
  "validate_conditions schema sql index [] \<longleftrightarrow> True"
| "validate_conditions schema sql index (w # ws) \<longleftrightarrow>
     (case find_schema_index schema (w_column w) of
        None \<Rightarrow> False
      | Some i \<Rightarrow>
          is_supported_operator (w_op w) \<and>
          is_supported_operator_for_type (cd_type (schema ! i)) (w_op w) \<and>
          validate_literal_for_type (cd_type (schema ! i)) (w_value w)) \<and>
     (ws = [] \<or> ieq (resolve_where_link sql index) ''AND'' \<or> ieq (resolve_where_link sql index) ''OR'') \<and>
     validate_conditions schema sql (Suc index) ws"

definition validate_delete_clause :: "schema \<Rightarrow> parsed_sql \<Rightarrow> bool" where
  "validate_delete_clause schema sql \<longleftrightarrow> validate_conditions schema sql 0 (sql_where sql)"

fun set_indexes_loop :: "schema \<Rightarrow> set_clause list \<Rightarrow> nat list \<Rightarrow> nat list option" where
  "set_indexes_loop schema [] done_idx = Some done_idx"
| "set_indexes_loop schema (s # ss) done_idx =
     (if sc_column s = [] then None
      else case find_schema_index schema (sc_column s) of
             None \<Rightarrow> None
           | Some i \<Rightarrow>
               if i \<in> set done_idx then None
               else if \<not> validate_update_value_for_type (cd_type (schema ! i)) (sc_value s) then None
               else set_indexes_loop schema ss (done_idx @ [i]))"

definition validate_update_set_clause :: "schema \<Rightarrow> set_clause list \<Rightarrow> nat list option" where
  "validate_update_set_clause schema set_clauses = set_indexes_loop schema set_clauses []"

fun apply_update_to_row :: "row \<Rightarrow> set_clause list \<Rightarrow> nat list \<Rightarrow> row option" where
  "apply_update_to_row row (s # ss) (i # is) =
     (if length row \<le> i then None else apply_update_to_row (row[i := sc_value s]) ss is)"
| "apply_update_to_row row _ _ = Some row"

section \<open>ORDER BY\<close>

fun compare_cells_by_type :: "column_type \<Rightarrow> string \<Rightarrow> string \<Rightarrow> int option" where
  "compare_cells_by_type TYPE_INT left right =
     (case (parse_long_value (strip_quotes 255 left), parse_long_value (strip_quotes 255 right)) of
        (Some l, Some r) \<Rightarrow> Some (cmp_int l r)
      | _ \<Rightarrow> None)"
| "compare_cells_by_type TYPE_FLOAT left right =
     (case (parse_double_value (strip_quotes 255 left), parse_double_value (strip_quotes 255 right)) of
        (Some l, Some r) \<Rightarrow> Some (cmp_double l r)
      | _ \<Rightarrow> None)"
| "compare_cells_by_type TYPE_BOOLEAN left right =
     (case (parse_boolean_value (strip_quotes 255 left), parse_boolean_value (strip_quotes 255 right)) of
        (Some l, Some r) \<Rightarrow> Some (cmp_int (of_bool l) (of_bool r))
      | _ \<Rightarrow> None)"
| "compare_cells_by_type _ left right = Some (strcmp (strip_quotes 255 left) (strip_quotes 255 right))"

definition compare_rows_for_order :: "schema \<Rightarrow> nat \<Rightarrow> row \<Rightarrow> row \<Rightarrow> int" where
  "compare_rows_for_order schema i left right =
     (case compare_cells_by_type (cd_type (schema ! i)) (left ! i) (right ! i) of
        None \<Rightarrow> strcmp (left ! i) (right ! i)
      | Some cmp \<Rightarrow> cmp)"

text \<open>
  The two loops of \<^verbatim>\<open>sort_selection\<close>. \<open>exchange_pass\<close> is the inner loop: the row at
  \<^verbatim>\<open>row_index\<close> against each later row, exchanging the two when the comparison says so.
\<close>

fun exchange_pass :: "('a \<Rightarrow> 'a \<Rightarrow> int) \<Rightarrow> 'a \<Rightarrow> 'a list \<Rightarrow> 'a \<times> 'a list" where
  "exchange_pass cmp x [] = (x, [])"
| "exchange_pass cmp x (y # ys) =
     (if cmp x y > 0 then (let (m, r) = exchange_pass cmp y ys in (m, x # r))
      else (let (m, r) = exchange_pass cmp x ys in (m, y # r)))"

lemma exchange_pass_length: "length (snd (exchange_pass cmp x ys)) = length ys"
  by (induction ys arbitrary: x) (simp_all add: split_beta)

function exchange_sort :: "('a \<Rightarrow> 'a \<Rightarrow> int) \<Rightarrow> 'a list \<Rightarrow> 'a list" where
  "exchange_sort cmp [] = []"
| "exchange_sort cmp (x # xs) = (let p = exchange_pass cmp x xs in fst p # exchange_sort cmp (snd p))"
  by pat_completeness auto

termination
  by (relation "measure (\<lambda>(c, xs). length xs)") (auto simp: exchange_pass_length)

definition sort_selection :: "parsed_sql \<Rightarrow> schema \<Rightarrow> row list \<Rightarrow> row list option" where
  "sort_selection sql schema selection =
     (case sql_order_by sql of
        None \<Rightarrow> Some selection
      | Some ob \<Rightarrow>
          if ob_column ob = [] then Some selection
          else case find_schema_index schema (ob_column ob) of
                 None \<Rightarrow> None
               | Some i \<Rightarrow>
                   let multiplier = (if ob_asc ob then 1 else -1)
                   in Some (exchange_sort (\<lambda>l r. compare_rows_for_order schema i l r * multiplier) selection))"

section \<open>Columns and LIMIT\<close>

definition is_select_all :: "parsed_sql \<Rightarrow> bool" where
  "is_select_all sql \<longleftrightarrow> sql_columns sql = [] \<or> sql_columns sql = [''*'']"

fun column_indexes :: "schema \<Rightarrow> string list \<Rightarrow> nat list option" where
  "column_indexes schema [] = Some []"
| "column_indexes schema (c # cs) =
     (case find_schema_index schema c of
        None \<Rightarrow> None
      | Some i \<Rightarrow> map_option (\<lambda>is. i # is) (column_indexes schema cs))"

definition resolve_selected_columns :: "parsed_sql \<Rightarrow> schema \<Rightarrow> nat list option" where
  "resolve_selected_columns sql schema =
     (if is_select_all sql then Some [0..<length schema] else column_indexes schema (sql_columns sql))"

definition build_rowset_from_selection :: "parsed_sql \<Rightarrow> schema \<Rightarrow> row list \<Rightarrow> rowset option" where
  "build_rowset_from_selection sql schema selection =
     (case resolve_selected_columns sql schema of
        None \<Rightarrow> None
      | Some is \<Rightarrow>
          let n = length selection;
              limit = (if sql_limit sql < 0 \<or> sql_limit sql > int n then n else nat (sql_limit sql))
          in Some \<lparr>rs_col_names = map (\<lambda>i. cd_name (schema ! i)) is,
                   rs_rows = map (\<lambda>r. map (\<lambda>i. r ! i) is) (take limit selection)\<rparr>)"

section \<open>Aggregates\<close>

text \<open>
  \<open>strchr\<close> and \<open>strrchr\<close> on the column expression; the copies skip white space and stop when
  the 16 and 64 byte buffers are full.
\<close>

definition last_idx :: "('a \<Rightarrow> bool) \<Rightarrow> 'a list \<Rightarrow> nat option" where
  "last_idx P xs = map_option (\<lambda>i. length xs - 1 - i) (find_idx P (rev xs))"

definition squeeze :: "nat \<Rightarrow> string \<Rightarrow> string" where
  "squeeze n s = take n (filter (\<lambda>c. \<not> is_space c) s)"

definition parse_aggregate_call :: "string \<Rightarrow> (string \<times> string) option" where
  "parse_aggregate_call col_name =
     (case (find_idx (\<lambda>c. c = CHR ''('') col_name, last_idx (\<lambda>c. c = CHR '')'') col_name) of
        (Some i, Some j) \<Rightarrow>
          if j < i then None
          else let fn = map to_upper (squeeze 15 (take i col_name));
                   arg = squeeze 63 (take (j - Suc i) (drop (Suc i) col_name))
               in if fn = [] then None
                  else if fn \<notin> {''COUNT'', ''SUM'', ''AVG'', ''MIN'', ''MAX''} then None
                  else if arg = [] then None
                  else Some (fn, arg)
      | _ \<Rightarrow> None)"

text \<open>The comparison of MIN and MAX, with its fallback, and the loop over the rows.\<close>

definition compare_cells_or_text :: "column_type \<Rightarrow> string \<Rightarrow> string \<Rightarrow> int" where
  "compare_cells_or_text ty cur best =
     (case compare_cells_by_type ty cur best of None \<Rightarrow> strcmp cur best | Some c \<Rightarrow> c)"

fun best_loop :: "column_type \<Rightarrow> bool \<Rightarrow> string \<Rightarrow> string list \<Rightarrow> string" where
  "best_loop ty want_max best [] = best"
| "best_loop ty want_max best (cur # cs) =
     (let cmp = compare_cells_or_text ty cur best
      in best_loop ty want_max (if (want_max \<and> cmp > 0) \<or> (\<not> want_max \<and> cmp < 0) then cur else best) cs)"

fun sum_longs :: "string list \<Rightarrow> int \<Rightarrow> int option" where
  "sum_longs [] acc = Some acc"
| "sum_longs (c # cs) acc =
     (case parse_long_value c of None \<Rightarrow> None | Some v \<Rightarrow> sum_longs cs (wrap64 (acc + v)))"

fun sum_doubles :: "string list \<Rightarrow> double \<Rightarrow> double option" where
  "sum_doubles [] acc = Some acc"
| "sum_doubles (c # cs) acc =
     (case parse_double_value c of None \<Rightarrow> None | Some v \<Rightarrow> sum_doubles cs (d_add acc v))"

text \<open>The output buffer has 256 bytes.\<close>

definition evaluate_aggregate :: "string \<Rightarrow> nat option \<Rightarrow> column_type \<Rightarrow> row list \<Rightarrow> string option" where
  "evaluate_aggregate fn col ty selection =
     (if fn = ''COUNT'' then Some (show_int (int (length selection)))
      else case col of
             None \<Rightarrow> None
           | Some i \<Rightarrow>
               let cells = map (\<lambda>r. r ! i) selection; n = length selection
               in if fn = ''MIN'' \<or> fn = ''MAX'' then
                    (case cells of
                       [] \<Rightarrow> Some []
                     | c # cs \<Rightarrow> Some (take 255 (best_loop ty (fn = ''MAX'') c cs)))
                  else if fn = ''SUM'' \<or> fn = ''AVG'' then
                    (if ty \<noteq> TYPE_INT \<and> ty \<noteq> TYPE_FLOAT then None
                     else if n = 0 then Some ''0''
                     else if ty = TYPE_INT then
                       map_option (\<lambda>acc. if fn = ''SUM'' then show_int acc
                         else show_double2 (d_div_count (double_of_long acc) n)) (sum_longs cells 0)
                     else
                       map_option (\<lambda>acc. take 255 (show_double2 (if fn = ''SUM'' then acc else d_div_count acc n)))
                         (sum_doubles cells (Finite_d False 0)))
                  else None)"

definition build_rowset_for_aggregate :: "parsed_sql \<Rightarrow> schema \<Rightarrow> row list \<Rightarrow> rowset option" where
  "build_rowset_for_aggregate sql schema selection =
     (case parse_aggregate_call (sql_columns sql ! 0) of
        None \<Rightarrow> None
      | Some (fn, arg) \<Rightarrow>
          if arg \<noteq> ''*'' \<and> find_schema_index schema arg = None then None
          else let col = (if arg = ''*'' then None else find_schema_index schema arg);
                   ty = (case col of None \<Rightarrow> TYPE_VARCHAR | Some i \<Rightarrow> cd_type (schema ! i))
               in map_option (\<lambda>v. \<lparr>rs_col_names = [sql_columns sql ! 0], rs_rows = [[v]]\<rparr>)
                    (evaluate_aggregate fn col ty selection))"

section \<open>Output\<close>

fun bar_sep :: "string list \<Rightarrow> string" where
  "bar_sep [] = []"
| "bar_sep [c] = c"
| "bar_sep (c # d # cs) = c @ '' | '' @ bar_sep (d # cs)"

text \<open>The argument says whether the stream is a terminal.\<close>

definition print_rowset :: "bool \<Rightarrow> rowset \<Rightarrow> string" where
  "print_rowset tty rs =
     (let esc = CHR 0x1B; nl = [CHR 0x0A];
          head = (\<lambda>c. if tty then esc # ''[1;92m'' @ c @ esc # ''[0m'' else c)
      in bar_sep (map head (rs_col_names rs)) @ nl @
         concat (map (\<lambda>r. bar_sep r @ nl) (rs_rows rs)) @
         ''('' @ show_int (int (length (rs_rows rs))) @ '' rows)'' @ nl)"

end
