(* ===== verification/Row_Laws.thy ===== *)
theory Row_Laws
  imports Row_Eval "HOL-Library.Sublist"
begin

text \<open>
  The laws of row evaluation: LIKE against its meaning, WHERE as a disjunction of
  conjunctions, the exchange sort under a locale for comparison functions, the aggregates
  and SET.
\<close>

section \<open>LIKE\<close>

text \<open>The meaning of a pattern: \<^verbatim>\<open>%\<close> stands for any string, \<^verbatim>\<open>_\<close> for any character.\<close>

primrec like_sem :: "string \<Rightarrow> string \<Rightarrow> bool" where
  "like_sem [] t \<longleftrightarrow> t = []"
| "like_sem (c # p) t \<longleftrightarrow>
     (if c = CHR ''%'' then \<exists>u v. t = u @ v \<and> like_sem p v
      else if c = CHR ''_'' then \<exists>d v. t = d # v \<and> like_sem p v
      else \<exists>v. t = c # v \<and> like_sem p v)"

lemma like_sem_suffix: "like_sem (CHR ''%'' # p) t \<longleftrightarrow> (\<exists>v. suffix v t \<and> like_sem p v)"
  by (auto simp: suffix_def)

lemma like_sem_stars: "like_sem (CHR ''%'' # dropWhile (\<lambda>x. x = CHR ''%'') p) t \<longleftrightarrow> like_sem (CHR ''%'' # p) t"
proof (induction p)
  case (Cons c p)
  then show ?case
    unfolding like_sem_suffix
    by (cases "c = CHR ''%''") (auto simp: like_sem_suffix simp del: like_sem.simps intro: suffix_order.trans)
qed simp

lemma like_match_sem:
  "like_match t p \<longleftrightarrow> like_sem p t"
  "like_tail t p \<longleftrightarrow> like_sem (CHR ''%'' # p) t"
proof (induction t p and t p rule: like_match_like_tail.induct)
  case (2 t c p)
  consider "c = CHR ''%''" | "c = CHR ''_''" | "c \<noteq> CHR ''%''" "c \<noteq> CHR ''_''" by blast
  then show ?case
  proof cases
    case 1
    show ?thesis
    proof (cases "dropWhile (\<lambda>x. x = CHR ''%'') p = []")
      case True
      then have "like_sem (CHR ''%'' # p) t"
        unfolding like_sem_stars [of p t, symmetric] True by simp
      then show ?thesis using 1 True by simp
    next
      case False
      then have "like_tail t (dropWhile (\<lambda>x. x = CHR ''%'') p) \<longleftrightarrow> like_sem (CHR ''%'' # p) t"
        using "2.IH"(1) [OF 1 refl] like_sem_stars [of p t] by blast
      then show ?thesis
        unfolding 1 like_match.simps(2) Let_def by (simp only: False simp_thms if_True)
    qed
  next
    case 2
    then show ?thesis using "2.IH" by (cases t) auto
  next
    case 3
    then show ?thesis using "2.IH" by (cases t) auto
  qed
next
  case (4 a t p)
  then show ?case by (simp only: like_tail.simps like_sem_suffix suffix_Cons) auto
qed (auto simp: like_sem_suffix)

text \<open>C34: LIKE on every text and pattern is the meaning of the pattern: \<^verbatim>\<open>%\<close> matches any
  string, also the empty one, \<^verbatim>\<open>_\<close> exactly one character, and any other character itself.\<close>

theorem like_match_correct: "like_match text pattern \<longleftrightarrow> like_sem pattern text"
  by (rule like_match_sem)

definition plain_pattern :: "string \<Rightarrow> bool" where
  "plain_pattern w \<longleftrightarrow> CHR ''%'' \<notin> set w \<and> CHR ''_'' \<notin> set w"

lemma like_prefix: "plain_pattern w \<Longrightarrow> like_match t (w @ ''%'') \<longleftrightarrow> prefix w t"
  unfolding like_match_sem plain_pattern_def
proof (induction w arbitrary: t)
  case (Cons a w)
  then show ?case by (cases t) auto
qed auto

lemma like_exact: "plain_pattern w \<Longrightarrow> like_match t w \<longleftrightarrow> t = w"
  unfolding like_match_sem plain_pattern_def
  by (induction w arbitrary: t) auto

section \<open>WHERE\<close>

text \<open>The AND groups of the conditions: an OR closes the current group.\<close>

fun groups :: "'a list \<Rightarrow> (bool \<times> 'a) list \<Rightarrow> 'a list list" where
  "groups g [] = [g]"
| "groups g ((is_or, w) # ws) = (if is_or then g # groups [w] ws else groups (g @ [w]) ws)"

definition is_or_link :: "parsed_sql \<Rightarrow> nat \<Rightarrow> bool" where
  "is_or_link sql i \<longleftrightarrow> ieq (resolve_where_link sql i) ''OR''"

definition valid_link :: "parsed_sql \<Rightarrow> nat \<Rightarrow> bool" where
  "valid_link sql i \<longleftrightarrow> ieq (resolve_where_link sql i) ''AND'' \<or> ieq (resolve_where_link sql i) ''OR''"

definition linked :: "parsed_sql \<Rightarrow> nat \<Rightarrow> where_clause list \<Rightarrow> (bool \<times> where_clause) list" where
  "linked sql k ws = zip (map (is_or_link sql) [k..<k + length ws]) ws"

definition or_groups :: "parsed_sql \<Rightarrow> where_clause list list" where
  "or_groups sql = groups [hd (sql_where sql)] (linked sql 0 (tl (sql_where sql)))"

definition clause_holds :: "schema \<Rightarrow> row \<Rightarrow> where_clause \<Rightarrow> bool" where
  "clause_holds schema row w \<longleftrightarrow> evaluate_select_clause schema row w = Some True"

definition clause_fails :: "schema \<Rightarrow> row \<Rightarrow> where_clause \<Rightarrow> bool" where
  "clause_fails schema row w \<longleftrightarrow> evaluate_select_clause schema row w = None"

lemma linked_Cons: "linked sql k (w # ws) = (is_or_link sql k, w) # linked sql (Suc k) ws"
  by (simp add: linked_def upt_rec)

lemma link_exclusive: "ieq l ''AND'' \<Longrightarrow> \<not> ieq l ''OR''"
  using ieq_length [of l "''AND''"] ieq_length [of l "''OR''"] by auto

lemma match_loop_groups:
  "match_loop schema row sql (Suc k) ws out (list_all (clause_holds schema row) g) =
   (if list_ex (clause_fails schema row) ws \<or> \<not> list_all (valid_link sql) [k..<k + length ws] then None
    else Some (out \<or> list_ex (list_all (clause_holds schema row)) (groups g (linked sql k ws))))"
proof (induction ws arbitrary: k out g)
  case Nil
  then show ?case by (simp add: linked_def)
next
  case (Cons w ws)
  let ?P = "clause_holds schema row"
  have upt: "[k..<k + length (w # ws)] = k # [Suc k..<Suc k + length ws]"
    by (simp add: upt_rec)
  show ?case
  proof (cases "evaluate_select_clause schema row w")
    case None
    then show ?thesis by (simp add: clause_fails_def)
  next
    case (Some m)
    have m: "?P w = m" "\<not> clause_fails schema row w"
      using Some by (simp_all add: clause_holds_def clause_fails_def)
    consider "ieq (resolve_where_link sql k) ''AND''" "\<not> ieq (resolve_where_link sql k) ''OR''"
      | "\<not> ieq (resolve_where_link sql k) ''AND''" "ieq (resolve_where_link sql k) ''OR''"
      | "\<not> ieq (resolve_where_link sql k) ''AND''" "\<not> ieq (resolve_where_link sql k) ''OR''"
      using link_exclusive by blast
    then show ?thesis
    proof cases
      case 1
      have "list_all ?P (g @ [w]) = (list_all ?P g \<and> m)" using m by simp
      then show ?thesis
        using Cons [of "Suc k" out "g @ [w]"] 1 m Some
        unfolding upt linked_Cons by (simp add: valid_link_def is_or_link_def)
    next
      case 2
      have "list_all ?P [w] = m" using m by simp
      then show ?thesis
        using Cons [of "Suc k" "out \<or> list_all ?P g" "[w]"] 2 m Some
        unfolding upt linked_Cons by (simp add: valid_link_def is_or_link_def)
    next
      case 3
      then show ?thesis using Some unfolding upt by (simp add: valid_link_def)
    qed
  qed
qed

text \<open>C32: a WHERE with any number of conditions and connectives, AND binding tighter than OR:
  a row matches when every condition of one of the AND groups holds. The evaluation fails
  exactly when some condition cannot be evaluated on the row (unknown column, operator not
  allowed for the type, literal or cell of the wrong type), even where the result would not
  depend on it, or a connective is neither AND nor OR; without conditions every row matches.\<close>

theorem row_matches_groups:
  "row_matches_delete schema row sql =
     (if sql_where sql = [] then Some True
      else if list_ex (clause_fails schema row) (sql_where sql) then None
      else if list_all (valid_link sql) [0..<length (sql_where sql) - 1]
        then Some (list_ex (list_all (clause_holds schema row)) (or_groups sql)) else None)"
proof (cases "sql_where sql")
  case Nil
  then show ?thesis by (simp add: row_matches_delete_def)
next
  case (Cons w ws)
  show ?thesis
  proof (cases "evaluate_select_clause schema row w")
    case None
    then show ?thesis using Cons by (simp add: row_matches_delete_def clause_fails_def)
  next
    case (Some m)
    then show ?thesis
      using Cons match_loop_groups [of schema row sql 0 ws False "[w]"]
      by (simp add: row_matches_delete_def or_groups_def clause_holds_def clause_fails_def)
  qed
qed

lemma collect_matching_rows_filter:
  "collect_matching_rows sql schema rows =
   (if list_ex (\<lambda>r. row_matches_delete schema r sql = None) rows then None
    else Some (filter (\<lambda>r. row_matches_delete schema r sql = Some True) rows))"
  by (induction rows) (auto simp: row_matches_select_def split: option.splits)

section \<open>ORDER BY\<close>

text \<open>
  The contract of a comparison function on a set of items, and the exchange sort under it.
\<close>

locale comparison =
  fixes cmp :: "'a \<Rightarrow> 'a \<Rightarrow> int" and items :: "'a set"
  assumes flip: "x \<in> items \<Longrightarrow> y \<in> items \<Longrightarrow> 0 < cmp x y \<Longrightarrow> cmp y x \<le> 0"
    and trans: "x \<in> items \<Longrightarrow> y \<in> items \<Longrightarrow> z \<in> items \<Longrightarrow> cmp x y \<le> 0 \<Longrightarrow> cmp y z \<le> 0 \<Longrightarrow> cmp x z \<le> 0"
begin

lemma refl: "x \<in> items \<Longrightarrow> cmp x x \<le> 0"
  using flip [of x x] by force

lemma pass_least:
  "exchange_pass cmp x ys = (m, r) \<Longrightarrow> set (x # ys) \<subseteq> items \<Longrightarrow>
   m \<in> set (x # ys) \<and> cmp m x \<le> 0 \<and> (\<forall>z \<in> set r. cmp m z \<le> 0)"
proof (induction ys arbitrary: x m r)
  case Nil
  then show ?case using refl by simp
next
  case (Cons y ys)
  show ?case
  proof (cases "cmp x y > 0")
    case True
    then obtain r' where "exchange_pass cmp y ys = (m, r')" "r = x # r'"
      using Cons.prems(1) by (auto split: prod.splits)
    moreover from this Cons.IH [of y m r'] Cons.prems
    have "m \<in> set (y # ys)" "cmp m y \<le> 0" "\<forall>z \<in> set r'. cmp m z \<le> 0" by auto
    moreover have "cmp y x \<le> 0" using flip True Cons.prems by simp
    ultimately show ?thesis
      using trans [of m y x] Cons.prems by auto
  next
    case False
    then obtain r' where "exchange_pass cmp x ys = (m, r')" "r = y # r'"
      using Cons.prems(1) by (auto split: prod.splits)
    moreover from this Cons.IH [of x m r'] Cons.prems
    have "m \<in> set (x # ys)" "cmp m x \<le> 0" "\<forall>z \<in> set r'. cmp m z \<le> 0" by auto
    ultimately show ?thesis
      using trans [of m x y] False Cons.prems by auto
  qed
qed

end

lemma pass_mset: "exchange_pass cmp x ys = (m, r) \<Longrightarrow> add_mset m (mset r) = add_mset x (mset ys)"
proof (induction ys arbitrary: x m r)
  case (Cons y ys)
  obtain m1 r1 where 1: "exchange_pass cmp y ys = (m1, r1)" by fastforce
  obtain m2 r2 where 2: "exchange_pass cmp x ys = (m2, r2)" by fastforce
  show ?case
    using Cons.IH [OF 1] Cons.IH [OF 2] Cons.prems 1 2 by (auto split: if_splits)
qed simp

lemma exchange_sort_mset: "mset (exchange_sort cmp xs) = mset xs"
proof (induction cmp xs rule: exchange_sort.induct)
  case (2 cmp x xs)
  obtain m r where p: "exchange_pass cmp x xs = (m, r)" by fastforce
  then show ?case using 2 [OF refl] pass_mset [OF p] by simp
qed simp

lemma exchange_sort_set: "set (exchange_sort cmp xs) = set xs"
  using exchange_sort_mset by (metis set_mset_mset)

context comparison
begin

lemma exchange_sorted: "set xs \<subseteq> items \<Longrightarrow> sorted_wrt (\<lambda>x y. cmp x y \<le> 0) (exchange_sort cmp xs)"
proof (induction xs rule: length_induct)
  case (1 xs)
  show ?case
  proof (cases xs)
    case (Cons x ys)
    obtain m r where p: "exchange_pass cmp x ys = (m, r)" by fastforce
    have "length r < length xs"
      using exchange_pass_length [of cmp x ys] p Cons by simp
    moreover have "set (m # r) = set xs"
      using pass_mset [OF p] Cons by (metis mset.simps(2) set_mset_mset)
    then have "set r \<subseteq> items" using 1(2) by auto
    ultimately show ?thesis
      using 1 p pass_least [OF p] Cons by (simp add: exchange_sort_set)
  qed simp
qed

end

text \<open>The cells on which the typed comparison is an order: those that parse, and no NaN.\<close>

fun orderable :: "column_type \<Rightarrow> string \<Rightarrow> bool" where
  "orderable TYPE_INT cell \<longleftrightarrow> parse_long_value (strip_quotes 255 cell) \<noteq> None"
| "orderable TYPE_FLOAT cell \<longleftrightarrow> parse_double_value (strip_quotes 255 cell) \<notin> {None, Some NaN_d}"
| "orderable TYPE_BOOLEAN cell \<longleftrightarrow> parse_boolean_value (strip_quotes 255 cell) \<noteq> None"
| "orderable _ cell \<longleftrightarrow> True"

lemma strcmp_flip: "strcmp b a = - strcmp a b"
  by (induction a b rule: strcmp.induct) (auto simp: of_char_eq_iff linorder_neq_iff)

lemma strcmp_trans: "strcmp a b \<le> 0 \<Longrightarrow> strcmp b c \<le> 0 \<Longrightarrow> strcmp a c \<le> 0"
proof (induction a arbitrary: b c)
  case Nil
  then show ?case by (cases c) simp_all
next
  case (Cons x a)
  then obtain y b' where b: "b = y # b'" by (cases b) simp_all
  then obtain z c' where c: "c = z # c'" using Cons.prems(2) by (cases c) simp_all
  show ?case
    using Cons.prems Cons.IH [of b' c'] unfolding b c by (auto split: if_splits)
qed

lemma cmp_int_le: "cmp_int a b \<le> 0 \<longleftrightarrow> a \<le> b"
  by (simp add: cmp_int_def)

lemma cmp_int_flip: "cmp_int b a = - cmp_int a b"
  by (simp add: cmp_int_def)

lemma cmp_double_le: "cmp_double a b \<le> 0 \<longleftrightarrow> \<not> d_less b a"
  using d_less_asym by (simp add: cmp_double_def)

lemma cmp_double_flip: "cmp_double b a = - cmp_double a b"
  by (simp add: cmp_double_def)

text \<open>The comparison of two cells, with the fallback of \<^verbatim>\<open>compare_rows_for_order\<close>.\<close>

lemma compare_cells_flip:
  "compare_cells_by_type ty b a = map_option uminus (compare_cells_by_type ty a b)"
  by (cases ty)
    (auto simp: cmp_int_def cmp_double_def strcmp_flip [of "strip_quotes 255 b" "strip_quotes 255 a"]
      split: option.split)

lemma compare_cells_total: "orderable ty a \<Longrightarrow> orderable ty b \<Longrightarrow> \<exists>n. compare_cells_by_type ty a b = Some n"
  by (cases ty) auto

text \<open>On orderable cells the comparison never falls back.\<close>

definition cells_le :: "column_type \<Rightarrow> string \<Rightarrow> string \<Rightarrow> bool" where
  "cells_le ty a b \<longleftrightarrow> (\<exists>n \<le> 0. compare_cells_by_type ty a b = Some n)"

lemma cells_le_trans:
  assumes "orderable ty a" "orderable ty b" "orderable ty c" "cells_le ty a b" "cells_le ty b c"
  shows "cells_le ty a c"
proof (cases ty)
  case TYPE_INT
  then show ?thesis using assms by (auto simp: cells_le_def cmp_int_le)
next
  case TYPE_FLOAT
  then obtain x y z where
    "parse_double_value (strip_quotes 255 a) = Some x" "x \<noteq> NaN_d"
    "parse_double_value (strip_quotes 255 b) = Some y" "y \<noteq> NaN_d"
    "parse_double_value (strip_quotes 255 c) = Some z" "z \<noteq> NaN_d"
    using assms(1-3) by auto
  then show ?thesis using assms(4,5) TYPE_FLOAT d_le_trans [of x y z]
    by (simp add: cells_le_def cmp_double_le)
next
  case TYPE_BOOLEAN
  then show ?thesis using assms by (auto simp: cells_le_def cmp_int_le)
qed (use assms(4,5) strcmp_trans in \<open>force simp: cells_le_def\<close>)+

definition order_items :: "schema \<Rightarrow> nat \<Rightarrow> row set" where
  "order_items schema i = {r. orderable (cd_type (schema ! i)) (r ! i)}"

lemma compare_rows_flip:
  assumes "l \<in> order_items schema i" "r \<in> order_items schema i"
  shows "compare_rows_for_order schema i r l = - compare_rows_for_order schema i l r"
proof -
  obtain n where "compare_cells_by_type (cd_type (schema ! i)) (l ! i) (r ! i) = Some n"
    using compare_cells_total assms unfolding order_items_def by blast
  then show ?thesis
    using compare_cells_flip [of "cd_type (schema ! i)" "r ! i" "l ! i"]
    by (simp add: compare_rows_for_order_def)
qed

lemma compare_rows_le:
  assumes "l \<in> order_items schema i" "r \<in> order_items schema i"
  shows "compare_rows_for_order schema i l r \<le> 0 \<longleftrightarrow> cells_le (cd_type (schema ! i)) (l ! i) (r ! i)"
proof -
  obtain n where "compare_cells_by_type (cd_type (schema ! i)) (l ! i) (r ! i) = Some n"
    using compare_cells_total assms unfolding order_items_def by blast
  then show ?thesis
    by (simp add: compare_rows_for_order_def cells_le_def)
qed

lemma compare_rows_trans:
  assumes "x \<in> order_items schema i" "y \<in> order_items schema i" "z \<in> order_items schema i"
    and "compare_rows_for_order schema i x y \<le> 0" "compare_rows_for_order schema i y z \<le> 0"
  shows "compare_rows_for_order schema i x z \<le> 0"
proof -
  have "orderable (cd_type (schema ! i)) (x ! i)" "orderable (cd_type (schema ! i)) (y ! i)"
    "orderable (cd_type (schema ! i)) (z ! i)"
    using assms(1-3) by (simp_all add: order_items_def)
  then show ?thesis
    using assms(4,5) cells_le_trans
    unfolding compare_rows_le [OF assms(1,2)] compare_rows_le [OF assms(2,3)] compare_rows_le [OF assms(1,3)]
    by blast
qed

interpretation row_order: comparison
  "\<lambda>l r. compare_rows_for_order schema i l r * (if asc then 1 else -1)" "order_items schema i"
  for schema i asc
proof
  fix x y assume xy: "x \<in> order_items schema i" "y \<in> order_items schema i"
    and "0 < compare_rows_for_order schema i x y * (if asc then 1 else -1)"
  then show "compare_rows_for_order schema i y x * (if asc then 1 else -1) \<le> 0"
    unfolding compare_rows_flip [OF xy] by (cases asc) simp_all
next
  fix x y z assume h: "x \<in> order_items schema i" "y \<in> order_items schema i" "z \<in> order_items schema i"
    "compare_rows_for_order schema i x y * (if asc then 1 else -1) \<le> 0"
    "compare_rows_for_order schema i y z * (if asc then 1 else -1) \<le> 0"
  show "compare_rows_for_order schema i x z * (if asc then 1 else -1) \<le> 0"
  proof (cases asc)
    case True
    then show ?thesis using h(4,5) compare_rows_trans [OF h(1-3)] by simp
  next
    case False
    then have "compare_rows_for_order schema i z y \<le> 0" "compare_rows_for_order schema i y x \<le> 0"
      using h(4,5) unfolding compare_rows_flip [OF h(1,2)] compare_rows_flip [OF h(2,3)] by simp_all
    then have "compare_rows_for_order schema i z x \<le> 0"
      by (rule compare_rows_trans [OF h(3,2,1)])
    then show ?thesis
      using False unfolding compare_rows_flip [OF h(1,3)] by simp
  qed
qed

text \<open>C33: ORDER BY on a column of the schema whose cells are all values of its type: the exchange
  sort returns a permutation of the rows, every row at most (DESC: at least) each row behind
  it in the order of the column's type.\<close>

theorem sort_selection_sorted:
  assumes "sql_order_by sql = Some ob" "ob_column ob \<noteq> []"
    and "find_schema_index schema (ob_column ob) = Some i"
    and "list_all (\<lambda>r. orderable (cd_type (schema ! i)) (r ! i)) selection"
  shows "\<exists>out. sort_selection sql schema selection = Some out \<and> mset out = mset selection \<and>
    sorted_wrt (\<lambda>l r. if ob_asc ob then cells_le (cd_type (schema ! i)) (l ! i) (r ! i)
                     else cells_le (cd_type (schema ! i)) (r ! i) (l ! i)) out"
proof -
  let ?cmp = "\<lambda>l r. compare_rows_for_order schema i l r * (if ob_asc ob then 1 else -1)"
  let ?out = "exchange_sort ?cmp selection"
  have items: "set selection \<subseteq> order_items schema i"
    using assms(4) by (auto simp: order_items_def list_all_iff)
  have "sorted_wrt (\<lambda>x y. ?cmp x y \<le> 0) ?out"
    by (rule row_order.exchange_sorted [OF items])
  then have "sorted_wrt (\<lambda>l r. if ob_asc ob then cells_le (cd_type (schema ! i)) (l ! i) (r ! i)
      else cells_le (cd_type (schema ! i)) (r ! i) (l ! i)) ?out"
  proof (rule sorted_wrt_mono_rel [rotated])
    fix l r assume "l \<in> set ?out" "r \<in> set ?out" and le: "?cmp l r \<le> 0"
    then have lr: "l \<in> order_items schema i" "r \<in> order_items schema i"
      using items by (auto simp: exchange_sort_set)
    show "if ob_asc ob then cells_le (cd_type (schema ! i)) (l ! i) (r ! i)
      else cells_le (cd_type (schema ! i)) (r ! i) (l ! i)"
    proof (cases "ob_asc ob")
      case True
      then show ?thesis using le compare_rows_le [OF lr] by simp
    next
      case False
      then have "compare_rows_for_order schema i r l \<le> 0"
        using le unfolding compare_rows_flip [OF lr] by simp
      then show ?thesis using False compare_rows_le [OF lr(2,1)] by simp
    qed
  qed
  then show ?thesis
    using assms(1-3) by (simp add: sort_selection_def exchange_sort_mset)
qed

definition people :: schema where
  "people = [\<lparr>cd_name = ''id'', cd_type = TYPE_INT\<rparr>, \<lparr>cd_name = ''name'', cd_type = TYPE_VARCHAR\<rparr>,
     \<lparr>cd_name = ''age'', cd_type = TYPE_INT\<rparr>]"

definition by_age :: parsed_sql where
  "by_age = \<lparr>sql_type = QUERY_SELECT, sql_table = ''people'', sql_columns = [''*''], sql_values = [],
     sql_where = [], sql_where_logic = [], sql_where_links = [],
     sql_order_by = Some \<lparr>ob_column = ''AGE'', ob_asc = False\<rparr>, sql_limit = -1, sql_set = [], sql_col_defs = []\<rparr>"

theorem sort_selection_sorted_witness:
  "\<exists>out. sort_selection by_age people [[''1'', ''kim'', ''9''], [''2'', ''lee'', ''10'']] = Some out \<and>
    mset out = mset [[''1'', ''kim'', ''9''], [''2'', ''lee'', ''10'']] \<and>
    sorted_wrt (\<lambda>l r. if ob_asc \<lparr>ob_column = ''AGE'', ob_asc = False\<rparr>
      then cells_le (cd_type (people ! 2)) (l ! 2) (r ! 2) else cells_le (cd_type (people ! 2)) (r ! 2) (l ! 2)) out"
proof (rule sort_selection_sorted)
  show "find_schema_index people (ob_column \<lparr>ob_column = ''AGE'', ob_asc = False\<rparr>) = Some 2" by code_simp
  show "list_all (\<lambda>r. orderable (cd_type (people ! 2)) (r ! 2)) [[''1'', ''kim'', ''9''], [''2'', ''lee'', ''10'']]"
    by code_simp
qed (simp_all add: by_age_def)

section \<open>Aggregates\<close>

lemma wrap64_add: "wrap64 (wrap64 x + y) = wrap64 (x + y)"
proof -
  have "((x + 2 ^ 63) mod 2 ^ 64 + y) mod 2 ^ 64 = (x + 2 ^ 63 + y) mod (2 ^ 64 :: int)"
    by (rule mod_add_left_eq)
  moreover have "x + 2 ^ 63 + y = x + y + 2 ^ 63" by simp
  ultimately show ?thesis unfolding wrap64_def by (simp only: diff_add_eq add.commute add.left_commute) simp
qed

definition long_cell :: "string \<Rightarrow> int" where
  "long_cell c = (case parse_long_value c of Some v \<Rightarrow> v | None \<Rightarrow> 0)"

lemma sum_longs_sum:
  "sum_longs cs (wrap64 a) =
   (if list_all (\<lambda>c. parse_long_value c \<noteq> None) cs then Some (wrap64 (a + (\<Sum>c \<leftarrow> cs. long_cell c))) else None)"
proof (induction cs arbitrary: a)
  case (Cons c cs)
  show ?case
  proof (cases "parse_long_value c")
    case (Some v)
    then have "long_cell c = v" by (simp add: long_cell_def)
    then show ?thesis using Some Cons [of "a + v"] by (simp add: wrap64_add add.assoc)
  qed simp
qed simp

text \<open>SUM over an INT column is the sum of its cells, in 64-bit arithmetic, also over no
  rows, and it fails exactly when a cell is not a number; COUNT is the number of rows, and
  every aggregate but COUNT fails without a column.\<close>

theorem sum_count_correct:
  "evaluate_aggregate ''SUM'' (Some i) TYPE_INT rows =
     (if list_all (\<lambda>r. parse_long_value (r ! i) \<noteq> None) rows
      then Some (show_int (wrap64 (\<Sum>r \<leftarrow> rows. long_cell (r ! i)))) else None) \<and>
   evaluate_aggregate ''COUNT'' col ty rows = Some (show_int (int (length rows))) \<and>
   (fn = ''COUNT'' \<or> evaluate_aggregate fn None ty rows = None)"
proof -
  have w0: "wrap64 0 = 0" by (simp add: wrap64_def)
  have show0: "show_int 0 = ''0''" by code_simp
  have "sum_longs (map (\<lambda>r. r ! i) rows) 0 =
    (if list_all (\<lambda>r. parse_long_value (r ! i) \<noteq> None) rows
      then Some (wrap64 (\<Sum>r \<leftarrow> rows. long_cell (r ! i))) else None)"
    using sum_longs_sum [of "map (\<lambda>r. r ! i) rows" 0] by (simp add: w0 list.pred_map comp_def)
  moreover have "evaluate_aggregate ''SUM'' (Some i) TYPE_INT rows =
    (if rows = [] then Some ''0'' else map_option show_int (sum_longs (map (\<lambda>r. r ! i) rows) 0))"
    by (simp add: evaluate_aggregate_def)
  ultimately have "evaluate_aggregate ''SUM'' (Some i) TYPE_INT rows =
     (if list_all (\<lambda>r. parse_long_value (r ! i) \<noteq> None) rows
      then Some (show_int (wrap64 (\<Sum>r \<leftarrow> rows. long_cell (r ! i)))) else None)"
    using show0 w0 by (cases "rows = []") simp_all
  then show ?thesis
    by (simp add: evaluate_aggregate_def)
qed

lemma cells_le_refl: "orderable ty a \<Longrightarrow> cells_le ty a a"
  using compare_cells_flip [of ty a a] compare_cells_total [of ty a a] by (auto simp: cells_le_def)

lemma compare_cells_le:
  assumes "orderable ty a" "orderable ty b"
  shows "0 < compare_cells_or_text ty a b \<Longrightarrow> cells_le ty b a" "compare_cells_or_text ty a b < 0 \<Longrightarrow> cells_le ty a b"
    "\<not> 0 < compare_cells_or_text ty a b \<Longrightarrow> cells_le ty a b" "\<not> compare_cells_or_text ty a b < 0 \<Longrightarrow> cells_le ty b a"
  using compare_cells_total [OF assms] compare_cells_flip [of ty b a]
  by (auto simp: compare_cells_or_text_def cells_le_def)

definition extreme :: "bool \<Rightarrow> column_type \<Rightarrow> string \<Rightarrow> string \<Rightarrow> bool" where
  "extreme want_max ty m c = (if want_max then cells_le ty c m else cells_le ty m c)"

lemma extreme_trans:
  "orderable ty a \<Longrightarrow> orderable ty b \<Longrightarrow> orderable ty c \<Longrightarrow>
   extreme mx ty a b \<Longrightarrow> extreme mx ty b c \<Longrightarrow> extreme mx ty a c"
  using cells_le_trans unfolding extreme_def by (metis (full_types))

lemma best_loop_extreme:
  "list_all (orderable ty) (b # cs) \<Longrightarrow>
   best_loop ty mx b cs \<in> set (b # cs) \<and> list_all (extreme mx ty (best_loop ty mx b cs)) (b # cs)"
proof (induction cs arbitrary: b)
  case Nil
  then show ?case by (simp add: extreme_def cells_le_refl)
next
  case (Cons c cs)
  let ?k = "if (mx \<and> compare_cells_or_text ty c b > 0) \<or> (\<not> mx \<and> compare_cells_or_text ty c b < 0) then c else b"
  have ord: "orderable ty b" "orderable ty c" using Cons.prems by simp_all
  have k: "?k \<in> {b, c}" "extreme mx ty ?k b" "extreme mx ty ?k c"
    using compare_cells_le [OF ord(2,1)] ord cells_le_refl by (auto simp: extreme_def)
  then have kord: "orderable ty ?k" using ord by auto
  then have IH: "best_loop ty mx ?k cs \<in> set (?k # cs)" "list_all (extreme mx ty (best_loop ty mx ?k cs)) (?k # cs)"
    using Cons.IH [of ?k] Cons.prems by simp_all
  have "orderable ty (best_loop ty mx ?k cs)"
    using IH(1) kord Cons.prems by (auto simp: list_all_iff)
  then have "extreme mx ty (best_loop ty mx ?k cs) b" "extreme mx ty (best_loop ty mx ?k cs) c"
    using extreme_trans kord ord k(2,3) IH(2) unfolding list.pred_inject by blast+
  then show ?case
    using IH k(1) by (auto simp: Let_def)
qed

text \<open>MIN and MAX over a column whose cells are all values of its type and at most 255
  characters long return a cell of the column that is least, or greatest, in the order of
  the type; over no rows they return the empty text.\<close>

theorem min_max_correct:
  assumes "list_all (\<lambda>r. orderable ty (r ! i) \<and> length (r ! i) \<le> 255) rows"
    and "fn = (if want_max then ''MAX'' else ''MIN'')"
  shows "\<exists>v. evaluate_aggregate fn (Some i) ty rows = Some v \<and>
    (if rows = [] then v = [] else v \<in> (\<lambda>r. r ! i) ` set rows \<and> list_all (\<lambda>r. extreme want_max ty v (r ! i)) rows)"
proof (cases rows)
  case Nil
  then show ?thesis using assms(2) by (simp add: evaluate_aggregate_def)
next
  case (Cons r rs)
  let ?b = "best_loop ty want_max (r ! i) (map (\<lambda>r. r ! i) rs)"
  have "list_all (orderable ty) (r ! i # map (\<lambda>r. r ! i) rs)"
    using assms(1) Cons by (simp add: list_all_iff)
  note best = best_loop_extreme [OF this, of want_max]
  have mem: "?b \<in> (\<lambda>r. r ! i) ` set rows" using best Cons by auto
  then have "length ?b \<le> 255" using assms(1) by (auto simp: list_all_iff)
  moreover have "evaluate_aggregate fn (Some i) ty rows = Some (take 255 ?b)"
    using assms(2) Cons by (simp add: evaluate_aggregate_def)
  moreover have "list_all (\<lambda>r. extreme want_max ty ?b (r ! i)) rows"
    using best Cons by (simp add: list.pred_map comp_def)
  ultimately show ?thesis using Cons mem by simp
qed

theorem min_max_correct_witness:
  "\<exists>v. evaluate_aggregate ''MAX'' (Some 0) TYPE_INT [[''9''], [''10'']] = Some v \<and>
    (if [[''9''], [''10'']] = [] then v = []
     else v \<in> (\<lambda>r. r ! 0) ` set [[''9''], [''10'']] \<and> list_all (\<lambda>r. extreme True TYPE_INT v (r ! 0)) [[''9''], [''10'']])"
  by (rule min_max_correct) code_simp+

section \<open>SET\<close>

lemma set_indexes_loop_spec:
  "set_indexes_loop schema ss done_idx = Some is \<Longrightarrow> distinct done_idx \<Longrightarrow>
   \<exists>js. is = done_idx @ js \<and> length js = length ss \<and> distinct is \<and>
     (\<forall>k < length ss. find_schema_index schema (sc_column (ss ! k)) = Some (js ! k) \<and>
        validate_update_value_for_type (cd_type (schema ! (js ! k))) (sc_value (ss ! k)))"
proof (induction ss arbitrary: done_idx)
  case Nil
  then show ?case by simp
next
  case (Cons s ss)
  from Cons.prems(1) obtain i where i: "find_schema_index schema (sc_column s) = Some i" "i \<notin> set done_idx"
    "validate_update_value_for_type (cd_type (schema ! i)) (sc_value s)"
    "set_indexes_loop schema ss (done_idx @ [i]) = Some is"
    by (auto split: if_splits option.splits)
  obtain js where js: "is = (done_idx @ [i]) @ js" "length js = length ss" "distinct is"
    "\<forall>k < length ss. find_schema_index schema (sc_column (ss ! k)) = Some (js ! k) \<and>
        validate_update_value_for_type (cd_type (schema ! (js ! k))) (sc_value (ss ! k))"
    using Cons.IH [OF i(4)] i(2) Cons.prems(2) by auto
  show ?case
    using js i by (intro exI [of _ "i # js"]) (simp add: All_less_Suc2)
qed

lemma apply_update_spec:
  "length is = length ss \<Longrightarrow> distinct is \<Longrightarrow> \<forall>i \<in> set is. i < length row \<Longrightarrow>
   \<exists>row'. apply_update_to_row row ss is = Some row' \<and> length row' = length row \<and>
     (\<forall>k < length ss. row' ! (is ! k) = sc_value (ss ! k)) \<and> (\<forall>j. j \<notin> set is \<longrightarrow> row' ! j = row ! j)"
proof (induction ss arbitrary: "is" row)
  case Nil
  then show ?case by simp
next
  case (Cons s ss)
  then obtain i js where idx: "is = i # js" by (cases "is") auto
  obtain row' where r: "apply_update_to_row (row[i := sc_value s]) ss js = Some row'" "length row' = length row"
    "\<forall>k < length ss. row' ! (js ! k) = sc_value (ss ! k)" "\<forall>j. j \<notin> set js \<longrightarrow> row' ! j = row[i := sc_value s] ! j"
    using Cons.IH [of js "row[i := sc_value s]"] Cons.prems unfolding idx by auto
  have "row' ! i = sc_value s" using r(4) Cons.prems unfolding idx by simp
  then have "\<forall>k < length (s # ss). row' ! (is ! k) = sc_value ((s # ss) ! k)"
    using r(3) unfolding idx by (auto simp: less_Suc_eq_0_disj)
  moreover have "\<forall>j. j \<notin> set is \<longrightarrow> row' ! j = row ! j"
    using r(4) unfolding idx by simp
  ultimately show ?case using r(1,2) Cons.prems unfolding idx by simp
qed

lemma set_indexes_bounds:
  assumes "validate_update_set_clause schema ss = Some is"
  shows "length is = length ss \<and> distinct is \<and> (\<forall>i \<in> set is. i < length schema) \<and>
    (\<forall>k < length ss. find_schema_index schema (sc_column (ss ! k)) = Some (is ! k) \<and>
        validate_update_value_for_type (cd_type (schema ! (is ! k))) (sc_value (ss ! k)))"
proof -
  have len: "length is = length ss" and dist: "distinct is"
    and spec: "\<forall>k < length ss. find_schema_index schema (sc_column (ss ! k)) = Some (is ! k) \<and>
        validate_update_value_for_type (cd_type (schema ! (is ! k))) (sc_value (ss ! k))"
    using set_indexes_loop_spec [of schema ss "[]" "is"] assms by (auto simp: validate_update_set_clause_def)
  have "\<forall>i \<in> set is. i < length schema"
  proof
    fix i assume "i \<in> set is"
    then obtain k where "k < length ss" "i = is ! k" using len by (auto simp: in_set_conv_nth)
    then have "find_schema_index schema (sc_column (ss ! k)) = Some i" using spec by simp
    then show "i < length schema" by (simp add: find_schema_index_def find_idx_length)
  qed
  then show ?thesis using len dist spec by blast
qed

lemma update_row_some:
  assumes "validate_update_set_clause schema ss = Some is" "length row = length schema"
  shows "\<exists>row'. apply_update_to_row row ss is = Some row' \<and> length row' = length row \<and>
    (\<forall>k < length ss. row' ! (is ! k) = sc_value (ss ! k)) \<and> (\<forall>j. j \<notin> set is \<longrightarrow> row' ! j = row ! j)"
  using set_indexes_bounds [OF assms(1)] assms(2) by (intro apply_update_spec) simp_all

lemma apply_update_cells:
  "apply_update_to_row row ss is = Some row' \<Longrightarrow> list_all P row \<Longrightarrow> list_all (\<lambda>s. P (sc_value s)) ss \<Longrightarrow> list_all P row'"
proof (induction row ss "is" rule: apply_update_to_row.induct)
  case (1 row s ss i js)
  have "list_all P (row[i := sc_value s])"
    using 1(3,4) set_update_subset_insert [of row i "sc_value s"] by (auto simp: list_all_iff)
  then show ?case using 1 by (auto split: if_splits)
qed auto

text \<open>A validated SET on a row of the schema's width: every assignment names a column of
  the schema and a value of its type, no column twice; the update changes exactly those
  cells to those values.\<close>

theorem update_row_correct:
  assumes "validate_update_set_clause schema ss = Some is" "length row = length schema"
  shows "\<exists>row'. apply_update_to_row row ss is = Some row' \<and> length row' = length row \<and> distinct is \<and>
    list_all2 (\<lambda>s i. find_schema_index schema (sc_column s) = Some i \<and>
       validate_update_value_for_type (cd_type (schema ! i)) (sc_value s) \<and> row' ! i = sc_value s) ss is \<and>
    (\<forall>j. j \<notin> set is \<longrightarrow> row' ! j = row ! j)"
proof -
  note idx = set_indexes_bounds [OF assms(1)]
  from update_row_some [OF assms] obtain row' where
    "apply_update_to_row row ss is = Some row'" "length row' = length row"
    "\<forall>k < length ss. row' ! (is ! k) = sc_value (ss ! k)" "\<forall>j. j \<notin> set is \<longrightarrow> row' ! j = row ! j" by blast
  then show ?thesis
    using idx by (intro exI [of _ row']) (auto simp: list_all2_conv_all_nth)
qed

theorem update_row_correct_witness:
  "\<exists>row'. apply_update_to_row [''1'', ''kim'', ''9''] [\<lparr>sc_column = ''Age'', sc_value = ''10''\<rparr>] [2] = Some row' \<and>
    length row' = length [''1'', ''kim'', ''9''] \<and> distinct [2 :: nat] \<and>
    list_all2 (\<lambda>s i. find_schema_index people (sc_column s) = Some i \<and>
       validate_update_value_for_type (cd_type (people ! i)) (sc_value s) \<and> row' ! i = sc_value s)
      [\<lparr>sc_column = ''Age'', sc_value = ''10''\<rparr>] [2] \<and>
    (\<forall>j. j \<notin> set [2] \<longrightarrow> row' ! j = [''1'', ''kim'', ''9''] ! j)"
proof (rule update_row_correct)
  show "validate_update_set_clause people [\<lparr>sc_column = ''Age'', sc_value = ''10''\<rparr>] = Some [2]" by code_simp
  show "length [''1'', ''kim'', ''9''] = length people" by (simp add: people_def)
qed

end
