(* ===== verification/Storage_Files.thy ===== *)
theory Storage_Files
  imports Csv Row_Eval Index_Registry
begin

text \<open>
  The files and the process-wide caches of \<^verbatim>\<open>src/storage.c\<close>: path resolution, schema files,
  the scans of a CSV file, the fixed-width binary files, and the caches for paths, schemas,
  append handles, ids and rebuilt indexes, with their 16 slots. The file system is a map
  from paths to contents with a list of directories; creating a file needs its directory,
  and nothing else fails. An append is written at once and flushing does nothing
  (\<^verbatim>\<open>Write_Behind\<close> shows that the buffers of the handles make no difference), and an append handle is the
  path it was opened for.
\<close>

section \<open>State\<close>

record meta_entry =
  me_table :: string
  me_next_id :: int
  me_next_row :: int

record path_entry =
  pe_table :: string
  pe_schema :: "string option"
  pe_csv :: "string option"

record storage =
  st_files :: "string \<Rightarrow> string option"
  st_dirs :: "string list"
  st_append :: "string list"
  st_schemas :: "(string \<times> schema) list"
  st_paths :: "path_entry list"
  st_meta :: "meta_entry list"
  st_rebuilt :: "string list"
  st_index :: registry

definition cache_max :: nat where "cache_max = 16"
definition path_max :: nat where "path_max = 512"

definition fits :: "string \<Rightarrow> bool" where
  "fits p \<longleftrightarrow> length p < path_max"

definition path_exists :: "storage \<Rightarrow> string \<Rightarrow> bool" where
  "path_exists s p \<longleftrightarrow> p \<noteq> [] \<and> st_files s p \<noteq> None"

definition dirname :: "string \<Rightarrow> string" where
  "dirname p = rev (tl (dropWhile (\<lambda>c. c \<noteq> CHR ''/'') (rev p)))"

text \<open>Whether \<^verbatim>\<open>fopen\<close> for writing or appending succeeds.\<close>

definition can_create :: "storage \<Rightarrow> string \<Rightarrow> bool" where
  "can_create s p \<longleftrightarrow> st_files s p \<noteq> None \<or> dirname p \<in> set (st_dirs s)"

definition set_file :: "string \<Rightarrow> string option \<Rightarrow> storage \<Rightarrow> storage" where
  "set_file p c s = s\<lparr>st_files := (st_files s)(p := c)\<rparr>"

definition ensure_storage_directories :: "storage \<Rightarrow> storage" where
  "ensure_storage_directories s = s\<lparr>st_dirs := [''data'', ''data/schema'', ''data/tables''] @ st_dirs s\<rparr>"

section \<open>Paths\<close>

definition storage_path_cache_entry :: "storage \<Rightarrow> string \<Rightarrow> nat option" where
  "storage_path_cache_entry s table = find_idx (\<lambda>e. pe_table e = table) (st_paths s)"

text \<open>The entry to fill: the one found, else a new one while there is room.\<close>

definition path_slot :: "string \<Rightarrow> storage \<Rightarrow> nat option \<times> storage" where
  "path_slot table s =
     (case storage_path_cache_entry s table of
        Some i \<Rightarrow> (Some i, s)
      | None \<Rightarrow>
          if length (st_paths s) < cache_max
          then (Some (length (st_paths s)),
                s\<lparr>st_paths := st_paths s @ [\<lparr>pe_table = take 63 table, pe_schema = None, pe_csv = None\<rparr>]\<rparr>)
          else (None, s))"

definition cached_path :: "(path_entry \<Rightarrow> string option) \<Rightarrow> storage \<Rightarrow> string \<Rightarrow> string option" where
  "cached_path field s table =
     (case storage_path_cache_entry s table of None \<Rightarrow> None | Some i \<Rightarrow> field (st_paths s ! i))"

definition remember_path :: "(path_entry \<Rightarrow> path_entry) \<Rightarrow> string \<Rightarrow> storage \<Rightarrow> storage" where
  "remember_path upd table s =
     (case path_slot table s of
        (None, s1) \<Rightarrow> s1
      | (Some i, s1) \<Rightarrow> s1\<lparr>st_paths := (st_paths s1)[i := upd (st_paths s1 ! i)]\<rparr>)"

definition nested_schema :: "string \<Rightarrow> string" where "nested_schema table = ''data/schema/'' @ table @ ''.schema''"
definition legacy_schema :: "string \<Rightarrow> string" where "legacy_schema table = ''data/'' @ table @ ''.schema''"
definition nested_csv :: "string \<Rightarrow> string" where "nested_csv table = ''data/tables/'' @ table @ ''.csv''"
definition legacy_csv :: "string \<Rightarrow> string" where "legacy_csv table = ''data/'' @ table @ ''.csv''"

text \<open>The paths when the cache has none: the nested place, unless only the legacy one exists.\<close>

definition fresh_schema_path :: "string \<Rightarrow> storage \<Rightarrow> string option" where
  "fresh_schema_path table s =
     (if \<not> fits (nested_schema table) \<or> \<not> fits (legacy_schema table) then None
      else if \<not> path_exists s (nested_schema table) \<and> path_exists s (legacy_schema table)
        then Some (legacy_schema table)
      else Some (nested_schema table))"

definition fresh_table_path :: "string \<Rightarrow> storage \<Rightarrow> string option" where
  "fresh_table_path table s =
     (if \<not> fits (nested_csv table) \<or> \<not> fits (legacy_csv table) \<or> \<not> fits (nested_schema table) then None
      else if \<not> (path_exists s (nested_csv table) \<or> path_exists s (nested_schema table)) \<and>
              path_exists s (legacy_csv table)
        then Some (legacy_csv table)
      else Some (nested_csv table))"

definition build_schema_path :: "string \<Rightarrow> storage \<Rightarrow> string option \<times> storage" where
  "build_schema_path table s =
     (case cached_path pe_schema s table of
        Some p \<Rightarrow> (if fits p then Some p else None, s)
      | None \<Rightarrow>
          (case fresh_schema_path table s of
             None \<Rightarrow> (None, s)
           | Some p \<Rightarrow> (Some p, remember_path (\<lambda>e. e\<lparr>pe_schema := Some p\<rparr>) table s)))"

definition build_table_path :: "string \<Rightarrow> storage \<Rightarrow> string option \<times> storage" where
  "build_table_path table s =
     (case cached_path pe_csv s table of
        Some p \<Rightarrow> (if fits p then Some p else None, s)
      | None \<Rightarrow>
          (case fresh_table_path table s of
             None \<Rightarrow> (None, s)
           | Some p \<Rightarrow> (Some p, remember_path (\<lambda>e. e\<lparr>pe_csv := Some p\<rparr>) table s)))"

definition build_temp_path :: "string \<Rightarrow> storage \<Rightarrow> string option" where
  "build_temp_path table s =
     (let out = ''data/tables/'' @ table @ ''.csv.tmp''; flat = ''data/'' @ table @ ''.csv.tmp''
      in if \<not> fits out \<or> \<not> fits (legacy_csv table) \<or> \<not> fits (nested_csv table) \<or> \<not> fits (nested_schema table) then None
         else if \<not> path_exists s (nested_csv table) \<and> \<not> path_exists s (nested_schema table) \<and>
                 path_exists s (legacy_csv table)
           then (if fits flat then Some flat else None)
         else Some out)"

definition build_bin_path :: "string \<Rightarrow> string option" where
  "build_bin_path table = (let p = ''data/tables/'' @ table @ ''.bin'' in if fits p then Some p else None)"

text \<open>Removing one entry and shifting the rest down.\<close>

definition remove_at :: "nat option \<Rightarrow> 'a list \<Rightarrow> 'a list" where
  "remove_at i xs = (case i of None \<Rightarrow> xs | Some k \<Rightarrow> take k xs @ drop (Suc k) xs)"

definition storage_path_cache_invalidate :: "string \<Rightarrow> storage \<Rightarrow> storage" where
  "storage_path_cache_invalidate table s =
     s\<lparr>st_paths := remove_at (find_idx (\<lambda>e. pe_table e = table) (st_paths s)) (st_paths s)\<rparr>"

section \<open>Schemas\<close>

definition parse_column_type :: "string \<Rightarrow> column_type option" where
  "parse_column_type text =
     (if ieq text ''INT'' then Some TYPE_INT
      else if ieq text ''VARCHAR'' then Some TYPE_VARCHAR
      else if ieq text ''FLOAT'' then Some TYPE_FLOAT
      else if ieq text ''BOOLEAN'' then Some TYPE_BOOLEAN
      else if ieq text ''DATE'' then Some TYPE_DATE
      else if ieq text ''DATETIME'' then Some TYPE_DATETIME
      else None)"

text \<open>Name and type of a definition; both empty for a blank or comment line.\<close>

definition parse_schema_definition :: "string \<Rightarrow> (string \<times> string) option" where
  "parse_schema_definition text =
     (let trimmed = trim_ws (take 511 text)
      in if trimmed = [] \<or> hd trimmed = CHR ''#'' then Some ([], [])
         else let is_sep = (if CHR '','' \<in> set trimmed then (\<lambda>c. c = CHR '','')
                            else (\<lambda>c. c = CHR '' '' \<or> c = CHR 0x09));
                  name = takeWhile (\<lambda>c. \<not> is_sep c) trimmed; rest = dropWhile (\<lambda>c. \<not> is_sep c) trimmed
              in if rest = [] then None
                 else let column = trim_ws name; type_text = trim_ws (tl rest)
                      in if column = [] \<or> type_text = [] then None
                         else if 64 \<le> length column \<or> 64 \<le> length type_text then None
                         else Some (column, type_text))"

text \<open>\<^verbatim>\<open>fgets\<close> with the 512 byte line buffer.\<close>

definition fgets :: "string \<Rightarrow> string" where
  "fgets s =
     (let a = takeWhile (\<lambda>c. c \<noteq> newline) s
      in take 511 (if length a < length s then a @ [newline] else a))"

lemma fgets_progress: "s \<noteq> [] \<Longrightarrow> 0 < length (fgets s)"
  by (cases s) (auto simp: fgets_def Let_def)

function load_schema_loop :: "string \<Rightarrow> schema \<Rightarrow> schema option" where
  "load_schema_loop fp schema =
     (if fp = [] then Some schema
      else let line = takeWhile (\<lambda>c. c \<noteq> nul) (fgets fp); rest = drop (length (fgets fp)) fp
           in case parse_schema_definition line of
                None \<Rightarrow> None
              | Some (column, type_text) \<Rightarrow>
                  if column = [] then load_schema_loop rest schema
                  else case parse_column_type type_text of
                         None \<Rightarrow> None
                       | Some ty \<Rightarrow> load_schema_loop rest (schema @ [\<lparr>cd_name = column, cd_type = ty\<rparr>]))"
  by pat_completeness auto

termination
  by (relation "measure (\<lambda>(fp, _). length fp)") (auto intro!: diff_less fgets_progress [simplified])

definition load_schema :: "storage \<Rightarrow> string \<Rightarrow> schema option" where
  "load_schema s path =
     (case st_files s path of
        None \<Rightarrow> None
      | Some fp \<Rightarrow>
          (case load_schema_loop fp [] of
             None \<Rightarrow> None
           | Some schema \<Rightarrow> if schema = [] then None else Some schema))"

definition storage_schema_cache_get :: "string \<Rightarrow> storage \<Rightarrow> schema option \<times> storage" where
  "storage_schema_cache_get path s =
     (case find_idx (\<lambda>e. fst e = path) (st_schemas s) of
        Some i \<Rightarrow> (Some (snd (st_schemas s ! i)), s)
      | None \<Rightarrow>
          (case load_schema s path of
             None \<Rightarrow> (None, s)
           | Some schema \<Rightarrow>
               (Some schema,
                if length (st_schemas s) < cache_max \<and> schema \<noteq> []
                then s\<lparr>st_schemas := st_schemas s @ [(path, schema)]\<rparr> else s)))"

definition storage_schema_cache_invalidate :: "string \<Rightarrow> storage \<Rightarrow> storage" where
  "storage_schema_cache_invalidate path s =
     s\<lparr>st_schemas := remove_at (find_idx (\<lambda>e. fst e = path) (st_schemas s)) (st_schemas s)\<rparr>"

section \<open>Append handles\<close>

definition storage_append_fp_is_open :: "storage \<Rightarrow> string \<Rightarrow> bool" where
  "storage_append_fp_is_open s path \<longleftrightarrow> path \<in> set (st_append s)"

text \<open>The handle with the state, or \<open>False\<close> when the file cannot be opened; a full table drops its
  oldest entry.\<close>

definition storage_append_fp_get :: "string \<Rightarrow> storage \<Rightarrow> bool \<times> storage" where
  "storage_append_fp_get path s =
     (if path \<in> set (st_append s) then (True, s)
      else let s1 = (if cache_max \<le> length (st_append s) then s\<lparr>st_append := tl (st_append s)\<rparr> else s)
           in if \<not> can_create s1 path then (False, s1)
              else (True, s1\<lparr>st_append := st_append s1 @ [path],
                             st_files := (st_files s1)(path := Some (case st_files s1 path of None \<Rightarrow> [] | Some c \<Rightarrow> c))\<rparr>))"

definition storage_append_fp_invalidate :: "string \<Rightarrow> storage \<Rightarrow> storage" where
  "storage_append_fp_invalidate path s =
     s\<lparr>st_append := remove_at (find_idx (\<lambda>p. p = path) (st_append s)) (st_append s)\<rparr>"

definition append_csv_row :: "string \<Rightarrow> row \<Rightarrow> storage \<Rightarrow> bool \<times> storage" where
  "append_csv_row path row s =
     (case storage_append_fp_get path s of
        (False, s1) \<Rightarrow> (False, s1)
      | (True, s1) \<Rightarrow>
          (True, set_file path (Some ((case st_files s1 path of None \<Rightarrow> [] | Some c \<Rightarrow> c) @ write_csv_row row)) s1))"

section \<open>Scans\<close>

text \<open>The records \<^verbatim>\<open>read_csv_record\<close> returns until it first returns something else than 1.\<close>

function csv_records :: "string \<Rightarrow> string list" where
  "csv_records fp = (case read_csv_record fp of Csv_record r rest \<Rightarrow> r # csv_records rest | _ \<Rightarrow> [])"
  by pat_completeness auto

termination
  by (relation "measure length") (auto dest: read_csv_record_progress)

definition count_csv_rows :: "storage \<Rightarrow> string \<Rightarrow> int" where
  "count_csv_rows s path = (case st_files s path of None \<Rightarrow> 0 | Some fp \<Rightarrow> int (length (csv_records fp)))"

text \<open>The id cell of a record as \<^verbatim>\<open>atoi\<close> reads it, when the record parses and has the column.\<close>

definition record_id :: "nat \<Rightarrow> string \<Rightarrow> int option" where
  "record_id col record =
     (case parse_csv_record record of
        None \<Rightarrow> None
      | Some cells \<Rightarrow> if col < length cells then Some (atoi (cells ! col)) else None)"

fun max_id_loop :: "nat \<Rightarrow> string list \<Rightarrow> int \<Rightarrow> int" where
  "max_id_loop col [] max_id = max_id"
| "max_id_loop col (r # rs) max_id =
     max_id_loop col rs (case record_id col r of None \<Rightarrow> max_id | Some v \<Rightarrow> if v > max_id then v else max_id)"

definition scan_csv_meta :: "storage \<Rightarrow> string \<Rightarrow> nat \<Rightarrow> int \<times> int" where
  "scan_csv_meta s path col =
     (case st_files s path of
        None \<Rightarrow> (0, 0)
      | Some fp \<Rightarrow> (max_id_loop col (csv_records fp) 0, int (length (csv_records fp))))"

text \<open>Inserting the positive ids with their row numbers into the tree at a slot.\<close>

fun index_loop :: "nat \<Rightarrow> nat \<Rightarrow> int \<Rightarrow> string list \<Rightarrow> registry \<Rightarrow> registry" where
  "index_loop col slot row_idx [] reg = reg"
| "index_loop col slot row_idx (r # rs) reg =
     index_loop col slot (row_idx + 1) rs
       (case record_id col r of
          Some v \<Rightarrow> if v > 0 then tree_insert reg slot v row_idx else reg
        | None \<Rightarrow> reg)"

fun load_rows_loop :: "nat \<Rightarrow> string list \<Rightarrow> row list option" where
  "load_rows_loop n [] = Some []"
| "load_rows_loop n (r # rs) =
     (case parse_csv_record r of
        None \<Rightarrow> None
      | Some row \<Rightarrow> if length row \<noteq> n then None else map_option (\<lambda>t. row # t) (load_rows_loop n rs))"

text \<open>Whether the scan ends at the end of the file, not at an unterminated quote.\<close>

function csv_complete :: "string \<Rightarrow> bool" where
  "csv_complete fp = (case read_csv_record fp of Csv_record r rest \<Rightarrow> csv_complete rest | Csv_eof \<Rightarrow> True | Csv_error \<Rightarrow> False)"
  by pat_completeness auto

termination
  by (relation "measure length") (auto dest: read_csv_record_progress)

definition load_table_rows :: "storage \<Rightarrow> string \<Rightarrow> nat \<Rightarrow> row list option" where
  "load_table_rows s path n =
     (case st_files s path of
        None \<Rightarrow> None
      | Some fp \<Rightarrow> if csv_complete fp then load_rows_loop n (csv_records fp) else None)"

function load_row_loop :: "nat \<Rightarrow> nat \<Rightarrow> string \<Rightarrow> row list option" where
  "load_row_loop n i fp =
     (case read_csv_record fp of
        Csv_eof \<Rightarrow> Some []
      | Csv_error \<Rightarrow> None
      | Csv_record r rest \<Rightarrow>
          (case parse_csv_record r of
             None \<Rightarrow> None
           | Some row \<Rightarrow>
               if length row \<noteq> n then None
               else if i = 0 then Some [row]
               else load_row_loop n (i - 1) rest))"
  by pat_completeness auto

termination
  by (relation "measure (\<lambda>(n, i, fp). length fp)") (auto dest: read_csv_record_progress)

definition load_row_at_index :: "storage \<Rightarrow> string \<Rightarrow> nat \<Rightarrow> int \<Rightarrow> row list option" where
  "load_row_at_index s path n row_index =
     (if row_index < 0 then Some []
      else case st_files s path of
             None \<Rightarrow> None
           | Some fp \<Rightarrow> load_row_loop n (nat row_index) fp)"

section \<open>Binary files\<close>

fun bin_column_size :: "column_type \<Rightarrow> nat" where
  "bin_column_size TYPE_INT = 4"
| "bin_column_size TYPE_FLOAT = 8"
| "bin_column_size TYPE_BOOLEAN = 1"
| "bin_column_size TYPE_VARCHAR = 32"
| "bin_column_size TYPE_DATE = 16"
| "bin_column_size TYPE_DATETIME = 24"

definition bin_row_size :: "schema \<Rightarrow> nat" where
  "bin_row_size schema = (\<Sum>c \<leftarrow> schema. bin_column_size (cd_type c))"

fun little_endian :: "string \<Rightarrow> int" where
  "little_endian [] = 0"
| "little_endian (b # bs) = int (code_of b) + 256 * little_endian bs"

fun decode_cell :: "column_type \<Rightarrow> string \<Rightarrow> string" where
  "decode_cell TYPE_INT b = show_int (wrap32 (little_endian b))"
| "decode_cell TYPE_FLOAT b = take 63 (show_double_g (double_of_bits (little_endian b)))"
| "decode_cell TYPE_BOOLEAN b = (if little_endian b \<noteq> 0 then ''1'' else ''0'')"
| "decode_cell _ b = takeWhile (\<lambda>c. c \<noteq> nul) b"

fun decode_binary_row :: "schema \<Rightarrow> string \<Rightarrow> row" where
  "decode_binary_row [] buf = []"
| "decode_binary_row (c # cs) buf =
     decode_cell (cd_type c) (take (bin_column_size (cd_type c)) buf) #
     decode_binary_row cs (drop (bin_column_size (cd_type c)) buf)"

fun load_binary_loop :: "schema \<Rightarrow> string \<Rightarrow> int list \<Rightarrow> row list" where
  "load_binary_loop schema fp [] = []"
| "load_binary_loop schema fp (ri # ris) =
     (if ri < 0 then load_binary_loop schema fp ris
      else let buf = take (bin_row_size schema) (drop (nat ri * bin_row_size schema) fp)
           in if length buf < bin_row_size schema then []
              else decode_binary_row schema buf # load_binary_loop schema fp ris)"

definition load_binary_rows_by_indices :: "storage \<Rightarrow> string \<Rightarrow> schema \<Rightarrow> int list \<Rightarrow> row list option" where
  "load_binary_rows_by_indices s path schema ris =
     (if bin_row_size schema = 0 then None
      else case st_files s path of None \<Rightarrow> None | Some fp \<Rightarrow> Some (load_binary_loop schema fp ris))"

text \<open>The loop of \<^verbatim>\<open>storage_ensure_index\<close> over a binary file: tree, largest id and row count.\<close>

function bin_index_loop :: "nat \<Rightarrow> nat \<Rightarrow> nat \<Rightarrow> int \<Rightarrow> int \<Rightarrow> string \<Rightarrow> registry \<Rightarrow> registry \<times> int \<times> int" where
  "bin_index_loop rsize off slot row_idx max_id fp reg =
     (if rsize = 0 \<or> length fp < rsize then (reg, max_id, row_idx)
      else let v = wrap32 (little_endian (take 4 (drop off fp)))
           in bin_index_loop rsize off slot (row_idx + 1) (if v > 0 \<and> v > max_id then v else max_id) (drop rsize fp)
                (if v > 0 then tree_insert reg slot v row_idx else reg))"
  by pat_completeness auto

termination
  by (relation "measure (\<lambda>(rsize, off, slot, row_idx, max_id, fp, reg). length fp)") auto

end
