(* ===== verification/Storage.thy ===== *)
theory Storage
  imports Storage_Files
begin

text \<open>
  The operations of \<^verbatim>\<open>src/storage.c\<close>: index building, INSERT, DELETE, UPDATE, SELECT by scan,
  by row and by rows, and CREATE. A status is a truth value (\<open>True\<close> for 0); every operation
  returns the state with it, also when it fails. A \<^verbatim>\<open>NULL\<close> column list of an INSERT is the empty
  list, as the parser produces it; when the list is shorter than the values the code reads
  past its end, and so does \<^const>\<open>nth\<close>, of which nothing is claimed.
\<close>

section \<open>The id cache and the index\<close>

definition meta_index :: "storage \<Rightarrow> string \<Rightarrow> nat option" where
  "meta_index s table = find_idx (\<lambda>e. me_table e = table) (st_meta s)"

definition set_meta :: "nat \<Rightarrow> int \<Rightarrow> int \<Rightarrow> storage \<Rightarrow> storage" where
  "set_meta i next_id next_row s =
     s\<lparr>st_meta := (st_meta s)[i := (st_meta s ! i)\<lparr>me_next_id := next_id, me_next_row := next_row\<rparr>]\<rparr>"

text \<open>The entry of a table, scanned from its file when it is new; \<open>None\<close> when there is no room.\<close>

definition meta_ensure :: "string \<Rightarrow> string \<Rightarrow> nat \<Rightarrow> storage \<Rightarrow> nat option \<times> storage" where
  "meta_ensure table path col s =
     (case meta_index s table of
        Some i \<Rightarrow> (Some i, s)
      | None \<Rightarrow>
          if length (st_meta s) < cache_max
          then (let (max_id, rows) = scan_csv_meta s path col
                in (Some (length (st_meta s)),
                    s\<lparr>st_meta := st_meta s @
                       [\<lparr>me_table = take 63 table, me_next_id = wrap32 (max_id + 1), me_next_row = rows\<rparr>]\<rparr>))
          else (None, s))"

definition meta_store :: "string \<Rightarrow> int \<Rightarrow> int \<Rightarrow> storage \<Rightarrow> storage" where
  "meta_store table next_id next_row s =
     (case meta_index s table of
        Some i \<Rightarrow> set_meta i next_id next_row s
      | None \<Rightarrow>
          if length (st_meta s) < cache_max
          then s\<lparr>st_meta := st_meta s @ [\<lparr>me_table = take 63 table, me_next_id = next_id, me_next_row = next_row\<rparr>]\<rparr>
          else s)"

definition invalidate_meta_cache :: "string \<Rightarrow> storage \<Rightarrow> storage" where
  "invalidate_meta_cache table s = (case meta_index s table of None \<Rightarrow> s | Some i \<Rightarrow> set_meta i 0 0 s)"

definition mark_rebuilt :: "string \<Rightarrow> storage \<Rightarrow> storage" where
  "mark_rebuilt table s =
     (if length (st_rebuilt s) < cache_max then s\<lparr>st_rebuilt := st_rebuilt s @ [take 63 table]\<rparr> else s)"

definition rebuild_index :: "string \<Rightarrow> string \<Rightarrow> nat option \<Rightarrow> storage \<Rightarrow> storage" where
  "rebuild_index table path id_col s =
     (case id_col of
        None \<Rightarrow> s
      | Some col \<Rightarrow>
          (case index_registry_get_or_create (index_registry_destroy_all (st_index s)) table 128 of
             (None, reg) \<Rightarrow> s\<lparr>st_index := reg\<rparr>
           | (Some slot, reg) \<Rightarrow>
               (case st_files s path of
                  None \<Rightarrow> s\<lparr>st_index := reg\<rparr>
                | Some fp \<Rightarrow> s\<lparr>st_index := index_loop col slot 0 (csv_records fp) reg\<rparr>)))"

text \<open>The part of \<^verbatim>\<open>storage_ensure_index\<close> that fills the tree at \<open>slot\<close>.\<close>

definition fill_index :: "string \<Rightarrow> string \<Rightarrow> schema \<Rightarrow> nat \<Rightarrow> nat \<Rightarrow> storage \<Rightarrow> storage" where
  "fill_index table path schema col slot s =
     (case (case build_bin_path table of Some b \<Rightarrow> if path_exists s b then st_files s b else None | None \<Rightarrow> None) of
        Some bin \<Rightarrow>
          (let off = bin_row_size (take col schema);
               (reg, max_id, rows) = bin_index_loop (bin_row_size schema) off slot 0 0 bin (st_index s)
           in meta_store table (wrap32 (max_id + 1)) rows (s\<lparr>st_index := reg\<rparr>))
      | None \<Rightarrow>
          (case st_files s path of
             None \<Rightarrow> s
           | Some fp \<Rightarrow>
               meta_store table (wrap32 (max_id_loop col (csv_records fp) 0 + 1)) (int (length (csv_records fp)))
                 (s\<lparr>st_index := index_loop col slot 0 (csv_records fp) (st_index s)\<rparr>)))"

definition storage_ensure_index :: "string \<Rightarrow> storage \<Rightarrow> storage" where
  "storage_ensure_index table s =
     (if table = [] \<or> table \<in> set (st_rebuilt s) then s
      else case build_schema_path table s of
        (None, s1) \<Rightarrow> s1
      | (Some schema_path, s1) \<Rightarrow>
          (case build_table_path table s1 of
             (None, s2) \<Rightarrow> s2
           | (Some path, s2) \<Rightarrow>
               (case storage_schema_cache_get schema_path s2 of
                  (None, s3) \<Rightarrow> s3
                | (Some schema, s3) \<Rightarrow>
                    (case find_schema_index schema ''id'' of
                       None \<Rightarrow> mark_rebuilt table s3
                     | Some col \<Rightarrow>
                         (case index_registry_get_or_create (st_index s3) table 128 of
                            (None, reg) \<Rightarrow> s3\<lparr>st_index := reg\<rparr>
                          | (Some slot, reg) \<Rightarrow>
                              mark_rebuilt table (fill_index table path schema col slot (s3\<lparr>st_index := reg\<rparr>)))))))"

definition storage_reset_internal_caches :: "storage \<Rightarrow> storage" where
  "storage_reset_internal_caches s =
     s\<lparr>st_append := [], st_schemas := [], st_paths := [], st_meta := [], st_rebuilt := []\<rparr>"

section \<open>INSERT\<close>

fun place_values :: "schema \<Rightarrow> string list \<Rightarrow> string list \<Rightarrow> string option list \<Rightarrow> string option list option" where
  "place_values schema (c # cs) (v # vs) cells =
     (if c = [] then None
      else case find_schema_index schema c of
             None \<Rightarrow> None
           | Some i \<Rightarrow> if cells ! i \<noteq> None then None else place_values schema cs vs (cells[i := Some v]))"
| "place_values schema _ _ cells = Some cells"

definition build_row_in_schema_order :: "schema \<Rightarrow> string list \<Rightarrow> string list \<Rightarrow> row option" where
  "build_row_in_schema_order schema columns vals =
     (if length vals \<noteq> length schema then None
      else if columns = [] then Some vals
      else case place_values schema (map (\<lambda>i. columns ! i) [0..<length vals]) vals (replicate (length schema) None) of
             None \<Rightarrow> None
           | Some cells \<Rightarrow> if None \<in> set cells then None else Some (map the cells))"

text \<open>The automatic id: its value and the state, \<open>None\<close> when the id cache is full. An entry whose
  file is gone or empty while no append handle is open starts again at 1.\<close>

definition take_auto_id :: "string \<Rightarrow> string \<Rightarrow> nat \<Rightarrow> storage \<Rightarrow> int option \<times> storage" where
  "take_auto_id table path col s =
     (let s1 = (case meta_index s table of
                  Some i \<Rightarrow>
                    if me_next_row (st_meta s ! i) > 0 \<and> \<not> storage_append_fp_is_open s path \<and>
                       (st_files s path = None \<or> st_files s path = Some [])
                    then set_meta i 1 0 s else s
                | None \<Rightarrow> s)
      in case meta_ensure table path col s1 of
           (None, s2) \<Rightarrow> (None, s2)
         | (Some i, s2) \<Rightarrow> (Some (me_next_id (st_meta s2 ! i)), s2))"

text \<open>After the row is appended: the id for the index, the tree and the id cache.\<close>

definition index_new_row :: "string \<Rightarrow> nat \<Rightarrow> int option \<Rightarrow> row \<Rightarrow> int \<Rightarrow> storage \<Rightarrow> bool \<times> storage" where
  "index_new_row table col auto_id row row_idx s =
     (case (case auto_id of
              Some a \<Rightarrow> Some a
            | None \<Rightarrow> (case strtol (row ! col) of
                         None \<Rightarrow> None
                       | Some (v, _, erange) \<Rightarrow> if erange then None else Some (wrap32 v))) of
        None \<Rightarrow> (False, s)
      | Some new_id \<Rightarrow>
          (let (slot, reg) = index_registry_get_or_create (st_index s) table 128;
               reg' = (case slot of None \<Rightarrow> reg | Some p \<Rightarrow> tree_insert reg p new_id row_idx);
               s1 = s\<lparr>st_index := reg'\<rparr>
           in (True,
               case meta_index s1 table of
                 None \<Rightarrow> s1
               | Some i \<Rightarrow>
                   set_meta i (if auto_id = None then me_next_id (st_meta s1 ! i) else wrap32 (me_next_id (st_meta s1 ! i) + 1))
                     (me_next_row (st_meta s1 ! i) + 1) s1)))"

text \<open>Building the row, appending it and indexing it.\<close>

definition write_new_row ::
    "string \<Rightarrow> string \<Rightarrow> schema \<Rightarrow> nat option \<Rightarrow> int option \<Rightarrow> string list \<Rightarrow> string list \<Rightarrow> storage \<Rightarrow> bool \<times> storage" where
  "write_new_row table path schema id_col auto_id columns vals s =
     (case build_row_in_schema_order schema columns vals of
        None \<Rightarrow> (False, s)
      | Some row \<Rightarrow>
          let row_idx = (case meta_index s table of Some i \<Rightarrow> me_next_row (st_meta s ! i) | None \<Rightarrow> count_csv_rows s path)
          in case append_csv_row path row s of
               (False, s1) \<Rightarrow> (False, s1)
             | (True, s1) \<Rightarrow>
                 (case id_col of
                    None \<Rightarrow> (True, s1)
                  | Some col \<Rightarrow> index_new_row table col auto_id row row_idx s1))"

definition storage_insert :: "string \<Rightarrow> string list \<Rightarrow> string list \<Rightarrow> storage \<Rightarrow> bool \<times> storage" where
  "storage_insert table columns vals s =
     (if table = [] \<or> vals = [] then (False, s)
      else case build_schema_path table s of
        (None, s1) \<Rightarrow> (False, s1)
      | (Some schema_path, s1) \<Rightarrow>
          (case build_table_path table s1 of
             (None, s2) \<Rightarrow> (False, s2)
           | (Some path, s2) \<Rightarrow>
               (case storage_schema_cache_get schema_path s2 of
                  (None, s3) \<Rightarrow> (False, s3)
                | (Some schema, s3) \<Rightarrow>
                    (case find_schema_index schema ''id'' of
                       None \<Rightarrow> write_new_row table path schema None None columns vals s3
                     | Some col \<Rightarrow>
                         let s4 = snd (meta_ensure table path col s3)
                         in if columns = [] \<or> list_ex (\<lambda>i. ieq (columns ! i) ''id'') [0..<length vals]
                            then write_new_row table path schema (Some col) None columns vals s4
                            else (case take_auto_id table path col s4 of
                                    (None, s5) \<Rightarrow> (False, s5)
                                  | (Some a, s5) \<Rightarrow>
                                      write_new_row table path schema (Some col) (Some a)
                                        (''id'' # map (\<lambda>i. columns ! i) [0..<length vals]) (show_int a # vals) s5)))))"

section \<open>DELETE and UPDATE\<close>

definition conditions_named :: "parsed_sql \<Rightarrow> bool" where
  "conditions_named sql \<longleftrightarrow> list_all (\<lambda>w. w_column w \<noteq> [] \<and> w_op w \<noteq> []) (sql_where sql)"

definition validate_delete_input :: "string \<Rightarrow> parsed_sql \<Rightarrow> bool" where
  "validate_delete_input table sql \<longleftrightarrow> table \<noteq> [] \<and> conditions_named sql"

definition validate_update_input :: "string \<Rightarrow> parsed_sql \<Rightarrow> bool" where
  "validate_update_input table sql \<longleftrightarrow> table \<noteq> [] \<and> sql_set sql \<noteq> [] \<and> conditions_named sql"

text \<open>The loop over the records: what is written to the temporary file, \<open>None\<close> on any failure.\<close>

fun rewrite_loop :: "(row \<Rightarrow> string option) \<Rightarrow> nat \<Rightarrow> string list \<Rightarrow> string option" where
  "rewrite_loop f n [] = Some []"
| "rewrite_loop f n (r # rs) =
     (case parse_csv_record r of
        None \<Rightarrow> None
      | Some row \<Rightarrow>
          if length row \<noteq> n then None
          else case f row of
                 None \<Rightarrow> None
               | Some out \<Rightarrow> map_option (\<lambda>t. out @ t) (rewrite_loop f n rs))"

definition replace_table_file :: "string \<Rightarrow> string \<Rightarrow> storage \<Rightarrow> storage" where
  "replace_table_file path temp s =
     (let s1 = storage_append_fp_invalidate path s
      in s1\<lparr>st_files := (st_files s1)(path := st_files s1 temp, temp := None)\<rparr>)"

definition rewrite_table :: "(row \<Rightarrow> string option) \<Rightarrow> string \<Rightarrow> string \<Rightarrow> schema \<Rightarrow> storage \<Rightarrow> bool \<times> storage" where
  "rewrite_table f path temp schema s =
     (let s0 = set_file temp None s
      in case st_files s0 path of
           None \<Rightarrow> (False, s0)
         | Some fp \<Rightarrow>
             if \<not> can_create s0 temp then (False, s0)
             else case (if csv_complete fp then rewrite_loop f (length schema) (csv_records fp) else None) of
                    None \<Rightarrow> (False, s0)
                  | Some out \<Rightarrow> (True, replace_table_file path temp (set_file temp (Some out) s0)))"

definition delete_row :: "schema \<Rightarrow> parsed_sql \<Rightarrow> row \<Rightarrow> string option" where
  "delete_row schema sql row =
     map_option (\<lambda>m. if m then [] else write_csv_row row) (row_matches_delete schema row sql)"

definition delete_rows_from_table :: "string \<Rightarrow> string \<Rightarrow> schema \<Rightarrow> parsed_sql \<Rightarrow> storage \<Rightarrow> bool \<times> storage" where
  "delete_rows_from_table path temp schema sql s = rewrite_table (delete_row schema sql) path temp schema s"

definition update_row :: "schema \<Rightarrow> parsed_sql \<Rightarrow> nat list \<Rightarrow> row \<Rightarrow> string option" where
  "update_row schema sql idxs row =
     (case row_matches_delete schema row sql of
        None \<Rightarrow> None
      | Some m \<Rightarrow> map_option write_csv_row (if m then apply_update_to_row row (sql_set sql) idxs else Some row))"

definition update_rows_from_table :: "string \<Rightarrow> string \<Rightarrow> schema \<Rightarrow> parsed_sql \<Rightarrow> nat list \<Rightarrow> storage \<Rightarrow> bool \<times> storage" where
  "update_rows_from_table path temp schema sql idxs s = rewrite_table (update_row schema sql idxs) path temp schema s"

definition storage_delete :: "string \<Rightarrow> parsed_sql \<Rightarrow> storage \<Rightarrow> bool \<times> storage" where
  "storage_delete table sql s =
     (if \<not> validate_delete_input table sql then (False, s)
      else case build_schema_path table s of
        (None, s1) \<Rightarrow> (False, s1)
      | (Some schema_path, s1) \<Rightarrow>
          (case build_table_path table s1 of
             (None, s2) \<Rightarrow> (False, s2)
           | (Some path, s2) \<Rightarrow>
               (case (build_temp_path table s2, load_schema s2 schema_path) of
                  (Some temp, Some schema) \<Rightarrow>
                    if \<not> validate_delete_clause schema sql then (False, s2)
                    else (case delete_rows_from_table path temp schema sql s2 of
                            (False, s3) \<Rightarrow> (False, s3)
                          | (True, s3) \<Rightarrow>
                              (True, rebuild_index table path (find_schema_index schema ''id'') (invalidate_meta_cache table s3)))
                | _ \<Rightarrow> (False, s2))))"

definition storage_update :: "string \<Rightarrow> parsed_sql \<Rightarrow> storage \<Rightarrow> bool \<times> storage" where
  "storage_update table sql s =
     (if \<not> validate_update_input table sql then (False, s)
      else case build_schema_path table s of
        (None, s1) \<Rightarrow> (False, s1)
      | (Some schema_path, s1) \<Rightarrow>
          (case build_table_path table s1 of
             (None, s2) \<Rightarrow> (False, s2)
           | (Some path, s2) \<Rightarrow>
               (case (build_temp_path table s2, load_schema s2 schema_path) of
                  (Some temp, Some schema) \<Rightarrow>
                    (case validate_update_set_clause schema (sql_set sql) of
                       None \<Rightarrow> (False, s2)
                     | Some idxs \<Rightarrow>
                         if \<not> validate_delete_clause schema sql then (False, s2)
                         else (case update_rows_from_table path temp schema sql idxs s2 of
                                 (False, s3) \<Rightarrow> (False, s3)
                               | (True, s3) \<Rightarrow>
                                   (True, rebuild_index table path (find_schema_index schema ''id'')
                                            (invalidate_meta_cache table s3))))
                | _ \<Rightarrow> (False, s2))))"

section \<open>CREATE\<close>

fun schema_text :: "string list \<Rightarrow> string option" where
  "schema_text [] = Some []"
| "schema_text (d # ds) =
     (case parse_schema_definition d of
        None \<Rightarrow> None
      | Some (column, type_text) \<Rightarrow> map_option (\<lambda>t. column @ '','' @ type_text @ newline # t) (schema_text ds))"

definition storage_create :: "string \<Rightarrow> string list \<Rightarrow> storage \<Rightarrow> bool \<times> storage" where
  "storage_create table col_defs s =
     (if table = [] \<or> col_defs = [] then (False, s)
      else let s0 = ensure_storage_directories s
           in case build_schema_path table s0 of
                (None, s1) \<Rightarrow> (False, s1)
              | (Some schema_path, s1) \<Rightarrow>
                  (case build_table_path table s1 of
                     (None, s2) \<Rightarrow> (False, s2)
                   | (Some path, s2) \<Rightarrow>
                       let s3 = storage_path_cache_invalidate table
                                  (storage_append_fp_invalidate path (storage_schema_cache_invalidate schema_path s2))
                       in if \<not> can_create s3 schema_path then (False, set_file schema_path None s3)
                          else case schema_text col_defs of
                                 None \<Rightarrow> (False, set_file schema_path None s3)
                               | Some text \<Rightarrow>
                                   let s4 = set_file schema_path (Some text) s3
                                   in if \<not> can_create s4 path then (False, set_file schema_path None s4)
                                      else (True, set_file path (Some (case st_files s4 path of None \<Rightarrow> [] | Some c \<Rightarrow> c)) s4)))"

section \<open>SELECT\<close>

text \<open>Sorting, then the aggregate of a single aggregate column or the projected rows.\<close>

definition finish_select :: "parsed_sql \<Rightarrow> schema \<Rightarrow> row list \<Rightarrow> rowset option" where
  "finish_select sql schema selection =
     (case sort_selection sql schema selection of
        None \<Rightarrow> None
      | Some ordered \<Rightarrow>
          if length (sql_columns sql) = 1 \<and> parse_aggregate_call (sql_columns sql ! 0) \<noteq> None
          then build_rowset_for_aggregate sql schema ordered
          else build_rowset_from_selection sql schema ordered)"

text \<open>The paths and the schema of a table, as every SELECT resolves them.\<close>

definition open_table :: "string \<Rightarrow> storage \<Rightarrow> (string \<times> schema) option \<times> storage" where
  "open_table table s =
     (if table = [] then (None, s)
      else case build_schema_path table s of
        (None, s1) \<Rightarrow> (None, s1)
      | (Some schema_path, s1) \<Rightarrow>
          (case build_table_path table s1 of
             (None, s2) \<Rightarrow> (None, s2)
           | (Some path, s2) \<Rightarrow> (map_option (\<lambda>schema. (path, schema)) (load_schema s2 schema_path), s2)))"

definition scan_select :: "string \<Rightarrow> schema \<Rightarrow> parsed_sql \<Rightarrow> storage \<Rightarrow> rowset option" where
  "scan_select path schema sql s =
     (case load_table_rows s path (length schema) of
        None \<Rightarrow> None
      | Some rows \<Rightarrow>
          if list_ex (\<lambda>w. find_schema_index schema (w_column w) = None) (sql_where sql) then None
          else case collect_matching_rows sql schema rows of
                 None \<Rightarrow> None
               | Some selection \<Rightarrow> finish_select sql schema selection)"

definition storage_select_result :: "string \<Rightarrow> parsed_sql \<Rightarrow> storage \<Rightarrow> rowset option \<times> storage" where
  "storage_select_result table sql s =
     (case open_table table s of
        (None, s1) \<Rightarrow> (None, s1)
      | (Some (path, schema), s1) \<Rightarrow> (scan_select path schema sql s1, s1))"

definition storage_select_result_by_row_index :: "string \<Rightarrow> parsed_sql \<Rightarrow> int \<Rightarrow> storage \<Rightarrow> rowset option \<times> storage" where
  "storage_select_result_by_row_index table sql row_index s =
     (case open_table table s of
        (None, s1) \<Rightarrow> (None, s1)
      | (Some (path, schema), s1) \<Rightarrow>
          (case load_row_at_index s1 path (length schema) row_index of
             None \<Rightarrow> (None, s1)
           | Some selection \<Rightarrow> (finish_select sql schema selection, s1)))"

definition rows_at :: "row list \<Rightarrow> int list \<Rightarrow> row list" where
  "rows_at rows ris = map (\<lambda>i. rows ! nat i) (filter (\<lambda>i. 0 \<le> i \<and> i < int (length rows)) ris)"

definition storage_select_result_by_row_indices :: "string \<Rightarrow> parsed_sql \<Rightarrow> int list \<Rightarrow> storage \<Rightarrow> rowset option \<times> storage" where
  "storage_select_result_by_row_indices table sql ris s =
     (case open_table table s of
        (None, s1) \<Rightarrow> (None, s1)
      | (Some (path, schema), s1) \<Rightarrow>
          (case (case build_bin_path table of
                   Some b \<Rightarrow> if path_exists s1 b then load_binary_rows_by_indices s1 b schema ris else None
                 | None \<Rightarrow> None) of
             Some selection \<Rightarrow> (finish_select sql schema selection, s1)
           | None \<Rightarrow>
               (case load_table_rows s1 path (length schema) of
                  None \<Rightarrow> (None, s1)
                | Some rows \<Rightarrow> (finish_select sql schema (rows_at rows ris), s1))))"

text \<open>\<^verbatim>\<open>storage_select\<close>: the text printed, \<open>None\<close> on failure.\<close>

definition storage_select :: "bool \<Rightarrow> string \<Rightarrow> parsed_sql \<Rightarrow> storage \<Rightarrow> string option \<times> storage" where
  "storage_select tty table sql s =
     (case storage_select_result table sql s of (rs, s1) \<Rightarrow> (map_option (print_rowset tty) rs, s1))"

end
