(* ===== verification/Storage_Laws.thy ===== *)
theory Storage_Laws
  imports Storage Row_Laws
begin

text \<open>
  What the storage operations do to a table seen as its schema and its list of rows: the
  file is the concatenation of the written rows, INSERT appends one, DELETE and UPDATE
  filter and map them or leave the table as it was, SELECT is a function of them.
\<close>

section \<open>Path resolution\<close>

definition res_schema :: "storage \<Rightarrow> string \<Rightarrow> string option" where
  "res_schema s table = fst (build_schema_path table s)"

definition res_table :: "storage \<Rightarrow> string \<Rightarrow> string option" where
  "res_table s table = fst (build_table_path table s)"

lemma remember_path_only: "remember_path upd table s = s\<lparr>st_paths := st_paths (remember_path upd table s)\<rparr>"
  by (auto simp: remember_path_def path_slot_def split: option.splits prod.splits)

lemma build_schema_only: "snd (build_schema_path table s) = s\<lparr>st_paths := st_paths (snd (build_schema_path table s))\<rparr>"
  using remember_path_only by (auto simp: build_schema_path_def split: option.splits)

lemma build_table_only: "snd (build_table_path table s) = s\<lparr>st_paths := st_paths (snd (build_table_path table s))\<rparr>"
  using remember_path_only by (auto simp: build_table_path_def split: option.splits)

text \<open>The fresh paths depend only on which files exist.\<close>

definition same_files :: "storage \<Rightarrow> storage \<Rightarrow> bool" where
  "same_files s s' \<longleftrightarrow> (\<forall>p. p = [] \<or> last p \<noteq> CHR ''p'' \<longrightarrow> path_exists s p = path_exists s' p)"

lemma path_kinds [simp]:
  "last (nested_schema t) = CHR ''a''" "last (legacy_schema t) = CHR ''a''"
  "last (nested_csv t) = CHR ''v''" "last (legacy_csv t) = CHR ''v''"
  by (simp_all add: nested_schema_def legacy_schema_def nested_csv_def legacy_csv_def)

lemma fresh_cong:
  assumes "same_files s s'"
  shows "fresh_schema_path table s = fresh_schema_path table s'" "fresh_table_path table s = fresh_table_path table s'"
    "build_temp_path table s = build_temp_path table s'"
proof -
  have "path_exists s (nested_schema t) = path_exists s' (nested_schema t)"
    "path_exists s (legacy_schema t) = path_exists s' (legacy_schema t)"
    "path_exists s (nested_csv t) = path_exists s' (nested_csv t)"
    "path_exists s (legacy_csv t) = path_exists s' (legacy_csv t)" for t
    using assms by (auto simp: same_files_def)
  then show "fresh_schema_path table s = fresh_schema_path table s'" "fresh_table_path table s = fresh_table_path table s'"
    "build_temp_path table s = build_temp_path table s'"
    by (simp_all only: fresh_schema_path_def fresh_table_path_def build_temp_path_def)
qed

lemma same_files_paths: "same_files (s\<lparr>st_paths := x\<rparr>) s"
  by (simp add: same_files_def path_exists_def)

lemma fresh_remember [simp]:
  "fresh_schema_path t (remember_path u table s) = fresh_schema_path t s"
  "fresh_table_path t (remember_path u table s) = fresh_table_path t s"
  using fresh_cong [OF same_files_paths] by (subst remember_path_only, simp)+

text \<open>What the cache says of a table after an entry is filled.\<close>

lemma cached_remember:
  assumes "length table \<le> 63" "\<And>e. pe_table (upd e) = pe_table e"
  shows "cached_path f (remember_path upd table s) table =
    (if storage_path_cache_entry s table = None \<and> cache_max \<le> length (st_paths s) then None
     else f (upd (case storage_path_cache_entry s table of
        Some i \<Rightarrow> st_paths s ! i | None \<Rightarrow> \<lparr>pe_table = table, pe_schema = None, pe_csv = None\<rparr>)))"
proof (cases "storage_path_cache_entry s table")
  case None
  then have "find_idx (\<lambda>e. pe_table e = table) (st_paths s) = None"
    by (simp add: storage_path_cache_entry_def)
  then show ?thesis
    using None assms
    by (simp add: remember_path_def path_slot_def cached_path_def storage_path_cache_entry_def find_idx_append
        list_update_append)
next
  case (Some i)
  then have i: "i < length (st_paths s)" "pe_table (st_paths s ! i) = table"
    using find_idx_Some by (auto simp: storage_path_cache_entry_def)
  have same: "map pe_table ((st_paths s)[i := upd (st_paths s ! i)]) = map pe_table (st_paths s)"
    using assms(2) i by (simp add: map_update list_update_same_conv)
  have find: "find_idx (\<lambda>e. pe_table e = table) es = find_idx (\<lambda>n. n = table) (map pe_table es)" for es
    by (induction es) auto
  have "find_idx (\<lambda>e. pe_table e = table) ((st_paths s)[i := upd (st_paths s ! i)]) = Some i"
    using Some unfolding storage_path_cache_entry_def find same .
  then have "storage_path_cache_entry (remember_path upd table s) table = Some i"
    using Some by (simp add: remember_path_def path_slot_def storage_path_cache_entry_def)
  then show ?thesis
    using Some i by (simp add: cached_path_def) (simp add: remember_path_def path_slot_def)
qed

lemma cached_unfold:
  "cached_path f s table = (case storage_path_cache_entry s table of None \<Rightarrow> None | Some i \<Rightarrow> f (st_paths s ! i))"
  by (simp add: cached_path_def)

lemma cached_other_field:
  assumes "length table \<le> 63"
  shows "cached_path pe_csv (remember_path (\<lambda>e. e\<lparr>pe_schema := Some p\<rparr>) table s) table = cached_path pe_csv s table"
    and "cached_path pe_schema (remember_path (\<lambda>e. e\<lparr>pe_csv := Some p\<rparr>) table s) table = cached_path pe_schema s table"
  using assms by (simp_all add: cached_remember, simp_all add: cached_unfold split: option.split)

lemma cached_same_field:
  assumes "length table \<le> 63"
  shows "cached_path pe_schema (remember_path (\<lambda>e. e\<lparr>pe_schema := Some p\<rparr>) table s) table \<in> {None, Some p}"
    and "cached_path pe_csv (remember_path (\<lambda>e. e\<lparr>pe_csv := Some p\<rparr>) table s) table \<in> {None, Some p}"
  using assms by (simp_all add: cached_remember)

lemma fresh_fits: "fresh_schema_path t s = Some p \<Longrightarrow> fits p" "fresh_table_path t s = Some p \<Longrightarrow> fits p"
  by (auto simp: fresh_schema_path_def fresh_table_path_def split: if_splits)

text \<open>Resolving once more, in either order, gives the same paths.\<close>

lemma res_stable:
  assumes "length table \<le> 63"
  shows "res_table (snd (build_schema_path table s)) table = res_table s table"
    "res_schema (snd (build_schema_path table s)) table = res_schema s table"
    "res_schema (snd (build_table_path table s)) table = res_schema s table"
    "res_table (snd (build_table_path table s)) table = res_table s table"
proof -
  have 1: "res_table (snd (build_schema_path table s)) table = res_table s table \<and>
      res_schema (snd (build_schema_path table s)) table = res_schema s table"
  proof (cases "cached_path pe_schema s table = None \<and> (\<exists>p. fresh_schema_path table s = Some p)")
    case True
    then obtain p where p: "cached_path pe_schema s table = None" "fresh_schema_path table s = Some p" by blast
    then show ?thesis
      using cached_same_field(1) [OF assms, of p s] fresh_fits(1) [OF p(2)]
      by (elim insertE emptyE)
        (simp_all add: res_table_def res_schema_def build_schema_path_def build_table_path_def cached_other_field [OF assms]
          split: option.split)
  next
    case False
    then have "snd (build_schema_path table s) = s"
      by (auto simp: build_schema_path_def split: option.split)
    then show ?thesis by simp
  qed
  have 2: "res_table (snd (build_table_path table s)) table = res_table s table \<and>
      res_schema (snd (build_table_path table s)) table = res_schema s table"
  proof (cases "cached_path pe_csv s table = None \<and> (\<exists>p. fresh_table_path table s = Some p)")
    case True
    then obtain p where p: "cached_path pe_csv s table = None" "fresh_table_path table s = Some p" by blast
    then show ?thesis
      using cached_same_field(2) [OF assms, of p s] fresh_fits(2) [OF p(2)]
      by (elim insertE emptyE)
        (simp_all add: res_table_def res_schema_def build_schema_path_def build_table_path_def cached_other_field [OF assms]
          split: option.split)
  next
    case False
    then have "snd (build_table_path table s) = s"
      by (auto simp: build_table_path_def split: option.split)
    then show ?thesis by simp
  qed
  show "res_table (snd (build_schema_path table s)) table = res_table s table"
    "res_schema (snd (build_schema_path table s)) table = res_schema s table"
    "res_schema (snd (build_table_path table s)) table = res_schema s table"
    "res_table (snd (build_table_path table s)) table = res_table s table"
    using 1 2 by blast+
qed

lemma res_cong:
  assumes "st_paths s' = st_paths s" "same_files s' s"
  shows "res_schema s' table = res_schema s table" "res_table s' table = res_table s table"
proof -
  have "cached_path f s' table = cached_path f s table" for f
    using assms(1) by (simp add: cached_unfold storage_path_cache_entry_def split: option.split)
  then show "res_schema s' table = res_schema s table" "res_table s' table = res_table s table"
    using fresh_cong [OF assms(2)]
    by (simp_all add: res_schema_def res_table_def build_schema_path_def build_table_path_def split: option.split)
qed

section \<open>Tables as rows\<close>

definition file_of :: "row list \<Rightarrow> string" where
  "file_of rows = concat (map write_csv_row rows)"

definition row_ok :: "schema \<Rightarrow> row \<Rightarrow> bool" where
  "row_ok schema r \<longleftrightarrow> length r = length schema \<and> list_all nul_free r"

text \<open>
  The state holds a table: its paths resolve to a schema file and a CSV file, the schema
  file and the schema cache give its schema, the CSV file is the text of its rows.
\<close>

definition holds :: "storage \<Rightarrow> string \<Rightarrow> string \<Rightarrow> string \<Rightarrow> schema \<Rightarrow> row list \<Rightarrow> bool" where
  "holds s table sp tp schema rows \<longleftrightarrow>
     table \<noteq> [] \<and> length table \<le> 63 \<and> res_schema s table = Some sp \<and> res_table s table = Some tp \<and>
     sp \<noteq> [] \<and> tp \<noteq> [] \<and> last sp = CHR ''a'' \<and> last tp = CHR ''v'' \<and>
     schema \<noteq> [] \<and> load_schema s sp = Some schema \<and> fst (storage_schema_cache_get sp s) = Some schema \<and>
     st_files s tp = Some (file_of rows) \<and> list_all (row_ok schema) rows"

lemma read_file:
  assumes "list_all (row_ok schema) rows" "schema \<noteq> []"
  shows "csv_records (file_of rows) = map csv_line rows \<and> csv_complete (file_of rows)"
  using assms
proof (induction rows)
  case Nil
  have "read_csv_record [] = Csv_eof" by (simp add: read_csv_record_def)
  then show ?case
    using csv_records.simps [of "[]"] csv_complete.simps [of "[]"] by (simp add: file_of_def)
next
  case (Cons r rows)
  have "read_csv_record (file_of (r # rows)) = Csv_record (csv_line r) (file_of rows)"
    using Cons.prems read_csv_row [of r "file_of rows"] by (simp add: file_of_def row_ok_def list_all_iff)
  then show ?case
    using Cons csv_records.simps [of "file_of (r # rows)"] csv_complete.simps [of "file_of (r # rows)"] by simp
qed

lemma row_ok_parse: "row_ok schema r \<Longrightarrow> schema \<noteq> [] \<Longrightarrow> parse_csv_record (csv_line r) = Some r"
  by (intro parse_csv_line) (auto simp: row_ok_def)

lemma load_rows_lines:
  "list_all (row_ok schema) rows \<Longrightarrow> schema \<noteq> [] \<Longrightarrow> load_rows_loop (length schema) (map csv_line rows) = Some rows"
  by (induction rows) (auto simp: row_ok_parse, simp add: row_ok_def)

lemma holds_load:
  assumes "holds s table sp tp schema rows"
  shows "load_table_rows s tp (length schema) = Some rows"
  using assms read_file [of schema rows] load_rows_lines [of schema rows]
  by (simp add: holds_def load_table_rows_def)

lemma holds_transfer:
  assumes "holds s table sp tp schema rows" "st_paths s' = st_paths s" "same_files s' s"
    "st_files s' sp = st_files s sp" "st_schemas s' = st_schemas s"
    "st_files s' tp = Some (file_of rows')" "list_all (row_ok schema) rows'"
  shows "holds s' table sp tp schema rows'"
proof -
  have "load_schema s' sp = load_schema s sp"
    using assms(4) by (simp add: load_schema_def)
  moreover from this have "fst (storage_schema_cache_get sp s') = fst (storage_schema_cache_get sp s)"
    using assms(5) by (simp add: storage_schema_cache_get_def split: option.split)
  ultimately show ?thesis
    using assms res_cong [OF assms(2,3)] by (simp add: holds_def)
qed

text \<open>Resolving the paths changes the path cache only, and the table is still held.\<close>

lemma holds_paths:
  assumes "holds s table sp tp schema rows" "s' = s\<lparr>st_paths := x\<rparr>"
    "res_schema s' table = Some sp" "res_table s' table = Some tp"
  shows "holds s' table sp tp schema rows"
proof -
  have "load_schema s' sp = load_schema s sp"
    using assms(2) by (simp add: load_schema_def)
  moreover from this have "fst (storage_schema_cache_get sp s') = fst (storage_schema_cache_get sp s)"
    using assms(2) by (simp add: storage_schema_cache_get_def split: option.split)
  ultimately show ?thesis using assms by (simp add: holds_def)
qed

lemma holds_open:
  assumes "holds s table sp tp schema rows"
  obtains s1 s2 where "build_schema_path table s = (Some sp, s1)" "build_table_path table s1 = (Some tp, s2)"
    "holds s2 table sp tp schema rows" "s2 = s\<lparr>st_paths := st_paths s2\<rparr>"
proof -
  let ?s1 = "snd (build_schema_path table s)"
  let ?s2 = "snd (build_table_path table ?s1)"
  have len: "length table \<le> 63" and res: "res_schema s table = Some sp" "res_table s table = Some tp"
    using assms by (simp_all add: holds_def)
  have 1: "build_schema_path table s = (Some sp, ?s1)"
    using res(1) by (simp add: res_schema_def prod_eq_iff)
  have r1: "res_table ?s1 table = Some tp" "res_schema ?s1 table = Some sp"
    using res_stable [OF len] res by simp_all
  have 2: "build_table_path table ?s1 = (Some tp, ?s2)"
    using r1(1) by (simp add: res_table_def prod_eq_iff)
  have h1: "holds ?s1 table sp tp schema rows"
    by (rule holds_paths [OF assms build_schema_only r1(2,1)])
  have h2: "holds ?s2 table sp tp schema rows"
    by (rule holds_paths [OF h1 build_table_only]) (simp_all add: res_stable [OF len] r1 res)
  have "?s2 = s\<lparr>st_paths := st_paths ?s2\<rparr>"
    by (subst build_table_only, subst build_schema_only) simp
  then show thesis using that 1 2 h2 by blast
qed

section \<open>SELECT\<close>

definition select_rows :: "schema \<Rightarrow> parsed_sql \<Rightarrow> row list \<Rightarrow> rowset option" where
  "select_rows schema sql rows =
     (if list_ex (\<lambda>w. find_schema_index schema (w_column w) = None) (sql_where sql) then None
      else if list_ex (\<lambda>r. row_matches_delete schema r sql = None) rows then None
      else finish_select sql schema (filter (\<lambda>r. row_matches_delete schema r sql = Some True) rows))"

lemma select_holds:
  assumes "holds s table sp tp schema rows"
  shows "fst (storage_select_result table sql s) = select_rows schema sql rows \<and>
    holds (snd (storage_select_result table sql s)) table sp tp schema rows"
proof -
  from holds_open [OF assms] obtain s1 s2 where o: "build_schema_path table s = (Some sp, s1)"
    "build_table_path table s1 = (Some tp, s2)" "holds s2 table sp tp schema rows" by blast
  then have "open_table table s = (Some (tp, schema), s2)"
    using assms by (simp add: open_table_def holds_def)
  then show ?thesis
    using o(3) holds_load [OF o(3)]
    by (simp add: storage_select_result_def scan_select_def select_rows_def collect_matching_rows_filter)
qed

text \<open>C2: a full-scan SELECT on a table is a function of the table's schema and rows: it fails
  for an unknown column of the WHERE or a row it cannot be evaluated on, otherwise it returns
  what sorting, LIMIT, projection or the aggregate make of the matching rows in file order;
  and it leaves the table as it was.\<close>

theorem select_refines:
  assumes "holds s table sp tp schema rows"
  shows "fst (storage_select_result table sql s) = select_rows schema sql rows \<and>
    holds (snd (storage_select_result table sql s)) table sp tp schema rows"
  by (rule select_holds [OF assms])

section \<open>DELETE and UPDATE\<close>

lemma rewrite_lines:
  assumes "list_all (row_ok schema) rows" "schema \<noteq> []"
  shows "rewrite_loop f (length schema) (map csv_line rows) =
    (if list_ex (\<lambda>r. f r = None) rows then None else Some (concat (map (\<lambda>r. the (f r)) rows)))"
  using assms
proof (induction rows)
  case (Cons r rows)
  then have "parse_csv_record (csv_line r) = Some r" "length r = length schema"
    using row_ok_parse [of schema r] by (simp_all add: row_ok_def)
  then show ?case using Cons by (cases "f r") auto
qed simp

lemma temp_last: "build_temp_path table s = Some temp \<Longrightarrow> temp \<noteq> [] \<and> last temp = CHR ''p''"
  by (auto simp: build_temp_path_def Let_def split: if_splits)

text \<open>Rewriting a held table: the new rows, or the old ones when some row cannot be processed.\<close>

lemma rewrite_table_holds:
  assumes h: "holds s table sp tp schema rows"
    and temp: "build_temp_path table s = Some temp" "dirname temp \<in> set (st_dirs s)"
    and f: "\<forall>r \<in> set rows. f r \<noteq> None \<longrightarrow> the (f r) = file_of (g r)" "\<forall>r \<in> set rows. f r \<noteq> None \<longrightarrow> list_all (row_ok schema) (g r)"
  shows "\<exists>s'. rewrite_table f tp temp schema s = (\<not> list_ex (\<lambda>r. f r = None) rows, s') \<and>
    holds s' table sp tp schema (if list_ex (\<lambda>r. f r = None) rows then rows else concat (map g rows)) \<and>
    st_dirs s' = st_dirs s"
proof -
  note H = h [unfolded holds_def]
  have t: "temp \<noteq> []" "last temp = CHR ''p''" "temp \<noteq> tp" "temp \<noteq> sp" using temp_last [OF temp(1)] H by auto
  let ?s0 = "set_file temp None s"
  have s0: "st_files ?s0 tp = Some (file_of rows)" "can_create ?s0 temp"
    using H t temp(2) by (simp_all add: set_file_def can_create_def)
  have rows: "csv_records (file_of rows) = map csv_line rows" "csv_complete (file_of rows)"
    using read_file [of schema rows] H by simp_all
  have loop: "rewrite_loop f (length schema) (map csv_line rows) =
      (if list_ex (\<lambda>r. f r = None) rows then None else Some (concat (map (\<lambda>r. the (f r)) rows)))"
    using rewrite_lines [of schema rows f] H by simp
  show ?thesis
  proof (cases "list_ex (\<lambda>r. f r = None) rows")
    case True
    then have "rewrite_table f tp temp schema s = (False, ?s0)"
      using s0 rows loop by (simp add: rewrite_table_def)
    moreover have "holds ?s0 table sp tp schema rows"
      by (rule holds_transfer [OF h]) (use H t in \<open>auto simp: set_file_def same_files_def path_exists_def\<close>)
    ultimately show ?thesis using True by (simp add: set_file_def)
  next
    case False
    let ?out = "concat (map (\<lambda>r. the (f r)) rows)"
    let ?s' = "replace_table_file tp temp (set_file temp (Some ?out) ?s0)"
    have out: "?out = file_of (concat (map g rows))"
      using f(1) False by (induction rows) (auto simp: file_of_def)
    have "rewrite_table f tp temp schema s = (True, ?s')"
      using s0 rows loop False by (simp add: rewrite_table_def)
    moreover have "list_all (row_ok schema) (concat (map g rows))"
      using f(2) False by (auto simp: list_all_iff list_ex_iff)
    then have "holds ?s' table sp tp schema (concat (map g rows))"
      by (intro holds_transfer [OF h])
        (use H t out in \<open>auto simp: set_file_def replace_table_file_def storage_append_fp_invalidate_def same_files_def path_exists_def\<close>)
    ultimately show ?thesis
      using False by (simp add: replace_table_file_def set_file_def storage_append_fp_invalidate_def)
  qed
qed

lemma meta_only: "invalidate_meta_cache table s = s\<lparr>st_meta := st_meta (invalidate_meta_cache table s)\<rparr>"
  by (simp add: invalidate_meta_cache_def set_meta_def split: option.split)

lemma rebuild_only: "rebuild_index table path col s = s\<lparr>st_index := st_index (rebuild_index table path col s)\<rparr>"
  by (auto simp: rebuild_index_def split: option.split prod.split)

lemma holds_cong:
  assumes "st_files s' = st_files s" "st_paths s' = st_paths s" "st_schemas s' = st_schemas s" "same_files s' s"
  shows "holds s' table sp tp schema rows = holds s table sp tp schema rows"
proof -
  have load: "load_schema s' sp = load_schema s sp"
    using assms(1) by (simp add: load_schema_def)
  have "fst (storage_schema_cache_get sp s') = fst (storage_schema_cache_get sp s)"
    using assms(3) load by (simp add: storage_schema_cache_get_def split: option.split)
  then show ?thesis
    using load assms(1) res_cong [OF assms(2,4)] by (simp add: holds_def)
qed

lemma holds_index_meta [simp]:
  "holds (s\<lparr>st_index := x\<rparr>) table sp tp schema rows = holds s table sp tp schema rows"
  "holds (s\<lparr>st_meta := y\<rparr>) table sp tp schema rows = holds s table sp tp schema rows"
  "holds (s\<lparr>st_rebuilt := z\<rparr>) table sp tp schema rows = holds s table sp tp schema rows"
  by (rule holds_cong; simp add: same_files_def path_exists_def)+

lemma holds_after_write:
  "holds s table sp tp schema rows \<Longrightarrow> holds (rebuild_index t path col (invalidate_meta_cache t s)) table sp tp schema rows"
  by (subst rebuild_only, subst (2) meta_only) simp

text \<open>Where a rewriting statement can put its temporary file.\<close>

definition temp_ready :: "storage \<Rightarrow> string \<Rightarrow> bool" where
  "temp_ready s table \<longleftrightarrow>
     (case build_temp_path table s of None \<Rightarrow> False | Some temp \<Rightarrow> dirname temp \<in> set (st_dirs s))"

lemma open_temp:
  assumes "temp_ready s table" "s2 = s\<lparr>st_paths := x\<rparr>"
  obtains temp where "build_temp_path table s2 = Some temp" "dirname temp \<in> set (st_dirs s2)"
proof -
  have "build_temp_path table s2 = build_temp_path table s"
    unfolding assms(2) by (rule fresh_cong(3) [OF same_files_paths])
  then show thesis using assms that by (auto simp: temp_ready_def split: option.splits)
qed

lemma storage_delete_holds:
  assumes "holds s table sp tp schema rows" "temp_ready s table" "storage_delete table sql s = (ok, s')"
  shows "(ok \<longleftrightarrow> conditions_named sql \<and> validate_delete_clause schema sql \<and>
      \<not> list_ex (\<lambda>r. row_matches_delete schema r sql = None) rows) \<and>
    holds s' table sp tp schema (if ok then filter (\<lambda>r. row_matches_delete schema r sql \<noteq> Some True) rows else rows)"
proof (cases "conditions_named sql \<and> validate_delete_clause schema sql")
  case invalid: False
  from holds_open [OF assms(1)] obtain s1 s2 where o: "build_schema_path table s = (Some sp, s1)"
    "build_table_path table s1 = (Some tp, s2)" "holds s2 table sp tp schema rows" by blast
  then have "load_schema s2 sp = Some schema" by (simp add: holds_def)
  then have "\<not> ok \<and> (s' = s \<or> s' = s2)"
    using invalid assms(3) o(1,2)
    by (auto simp: storage_delete_def validate_delete_input_def split: if_splits option.splits)
  then show ?thesis using invalid o(3) assms(1) by auto
next
  case valid: True
  from holds_open [OF assms(1)] obtain s1 s2 where o: "build_schema_path table s = (Some sp, s1)"
    "build_table_path table s1 = (Some tp, s2)" "holds s2 table sp tp schema rows" "s2 = s\<lparr>st_paths := st_paths s2\<rparr>" by blast
  from open_temp [OF assms(2) o(4)] obtain temp
    where temp: "build_temp_path table s2 = Some temp" "dirname temp \<in> set (st_dirs s2)" .
  let ?bad = "list_ex (\<lambda>r. row_matches_delete schema r sql = None) rows"
  let ?g = "\<lambda>r. if row_matches_delete schema r sql = Some True then [] else [r]"
  have bad: "list_ex (\<lambda>r. delete_row schema sql r = None) rows = ?bad"
    by (simp add: delete_row_def)
  have ok: "\<forall>r \<in> set rows. row_ok schema r" using assms(1) by (simp add: holds_def list_all_iff)
  have f: "\<forall>r \<in> set rows. delete_row schema sql r \<noteq> None \<longrightarrow> the (delete_row schema sql r) = file_of (?g r)"
    "\<forall>r \<in> set rows. delete_row schema sql r \<noteq> None \<longrightarrow> list_all (row_ok schema) (?g r)"
    using ok by (auto simp: delete_row_def file_of_def)
  obtain s3 where s3: "delete_rows_from_table tp temp schema sql s2 = (\<not> ?bad, s3)"
    "holds s3 table sp tp schema (if ?bad then rows else concat (map ?g rows))"
    using rewrite_table_holds [OF o(3) temp f] unfolding bad delete_rows_from_table_def by blast
  have g: "concat (map ?g rows) = filter (\<lambda>r. row_matches_delete schema r sql \<noteq> Some True) rows"
    by (induction rows) auto
  have "storage_delete table sql s = (\<not> ?bad, if ?bad then s3 else
      rebuild_index table tp (find_schema_index schema ''id'') (invalidate_meta_cache table s3))"
    using o valid temp(1) s3(1)
    by (auto simp: storage_delete_def validate_delete_input_def holds_def split: option.splits)
  then show ?thesis
    using assms(3) valid s3(2) holds_after_write by (auto simp: g)
qed

text \<open>C4: DELETE on a table: when its conditions are valid and can be evaluated on every row, it
  succeeds and exactly the rows that do not match remain, in their order; otherwise it fails
  and the table keeps its rows.\<close>

theorem delete_refines:
  assumes "holds s table sp tp schema rows" "temp_ready s table" "storage_delete table sql s = (ok, s')"
  shows "(ok \<longleftrightarrow> conditions_named sql \<and> validate_delete_clause schema sql \<and>
      \<not> list_ex (\<lambda>r. row_matches_delete schema r sql = None) rows) \<and>
    holds s' table sp tp schema (if ok then filter (\<lambda>r. row_matches_delete schema r sql \<noteq> Some True) rows else rows)"
  using assms by (rule storage_delete_holds)

definition updated_row :: "schema \<Rightarrow> parsed_sql \<Rightarrow> row \<Rightarrow> row" where
  "updated_row schema sql r =
     (if row_matches_delete schema r sql = Some True
      then the (apply_update_to_row r (sql_set sql) (the (validate_update_set_clause schema (sql_set sql)))) else r)"

lemma apply_update_ok:
  assumes "validate_update_set_clause schema ss = Some idxs" "row_ok schema r" "list_all (\<lambda>s. nul_free (sc_value s)) ss"
  shows "\<exists>r'. apply_update_to_row r ss idxs = Some r' \<and> row_ok schema r'"
proof -
  have len: "length r = length schema" using assms(2) by (simp add: row_ok_def)
  from update_row_some [OF assms(1) len] obtain r' where r': "apply_update_to_row r ss idxs = Some r'" "length r' = length r"
    by blast
  have "list_all nul_free r'"
    using r'(1) assms(2,3) by (intro apply_update_cells [of r ss idxs r' nul_free]) (simp_all add: row_ok_def)
  then show ?thesis using r' len by (simp add: row_ok_def)
qed

lemma storage_update_holds:
  assumes "holds s table sp tp schema rows" "temp_ready s table"
    and "list_all (\<lambda>c. nul_free (sc_value c)) (sql_set sql)" "storage_update table sql s = (ok, s')"
  shows "(ok \<longleftrightarrow> sql_set sql \<noteq> [] \<and> conditions_named sql \<and> validate_update_set_clause schema (sql_set sql) \<noteq> None \<and>
      validate_delete_clause schema sql \<and> \<not> list_ex (\<lambda>r. row_matches_delete schema r sql = None) rows) \<and>
    holds s' table sp tp schema (if ok then map (updated_row schema sql) rows else rows)"
proof (cases "sql_set sql \<noteq> [] \<and> conditions_named sql \<and> validate_update_set_clause schema (sql_set sql) \<noteq> None \<and>
    validate_delete_clause schema sql")
  case invalid: False
  from holds_open [OF assms(1)] obtain s1 s2 where o: "build_schema_path table s = (Some sp, s1)"
    "build_table_path table s1 = (Some tp, s2)" "holds s2 table sp tp schema rows" by blast
  then have "load_schema s2 sp = Some schema" by (simp add: holds_def)
  then have "\<not> ok \<and> (s' = s \<or> s' = s2)"
    using invalid assms(4) o(1,2)
    by (auto simp: storage_update_def validate_update_input_def split: if_splits option.splits)
  then show ?thesis using invalid o(3) assms(1) by auto
next
  case valid: True
  then obtain idxs where idxs: "validate_update_set_clause schema (sql_set sql) = Some idxs" by blast
  from holds_open [OF assms(1)] obtain s1 s2 where o: "build_schema_path table s = (Some sp, s1)"
    "build_table_path table s1 = (Some tp, s2)" "holds s2 table sp tp schema rows" "s2 = s\<lparr>st_paths := st_paths s2\<rparr>" by blast
  from open_temp [OF assms(2) o(4)] obtain temp
    where temp: "build_temp_path table s2 = Some temp" "dirname temp \<in> set (st_dirs s2)" .
  let ?bad = "list_ex (\<lambda>r. row_matches_delete schema r sql = None) rows"
  let ?f = "update_row schema sql idxs"
  let ?g = "\<lambda>r. [updated_row schema sql r]"
  have ok: "\<forall>r \<in> set rows. row_ok schema r" using assms(1) by (simp add: holds_def list_all_iff)
  have applied: "\<exists>r'. apply_update_to_row r (sql_set sql) idxs = Some r' \<and> row_ok schema r'" if "r \<in> set rows" for r
    using apply_update_ok [OF idxs _ assms(3)] ok that by blast
  have f0: "?f r = (case row_matches_delete schema r sql of None \<Rightarrow> None | Some m \<Rightarrow> Some (write_csv_row (updated_row schema sql r)))"
    if "r \<in> set rows" for r
    using applied [OF that] idxs by (auto simp: update_row_def updated_row_def split: option.split)
  have upd_ok: "row_ok schema (updated_row schema sql r)" if "r \<in> set rows" for r
    using applied [OF that] ok that idxs by (auto simp: updated_row_def)
  have f: "\<forall>r \<in> set rows. ?f r \<noteq> None \<longrightarrow> the (?f r) = file_of (?g r)"
    "\<forall>r \<in> set rows. ?f r \<noteq> None \<longrightarrow> list_all (row_ok schema) (?g r)"
    using f0 upd_ok by (auto simp: file_of_def split: option.splits)
  have bad: "list_ex (\<lambda>r. ?f r = None) rows = ?bad"
    using f0 by (auto simp: list_ex_iff split: option.splits)
  obtain s3 where s3: "update_rows_from_table tp temp schema sql idxs s2 = (\<not> ?bad, s3)"
    "holds s3 table sp tp schema (if ?bad then rows else concat (map ?g rows))"
    using rewrite_table_holds [OF o(3) temp f] unfolding bad update_rows_from_table_def by blast
  have "storage_update table sql s = (\<not> ?bad, if ?bad then s3 else
      rebuild_index table tp (find_schema_index schema ''id'') (invalidate_meta_cache table s3))"
    using o valid temp(1) s3(1) idxs
    by (auto simp: storage_update_def validate_update_input_def holds_def split: option.splits)
  then show ?thesis
    using assms(4) valid s3(2) holds_after_write by auto
qed

text \<open>C5: UPDATE on a table: when its SET and conditions are valid and the conditions can be
  evaluated on every row, it succeeds and exactly the matching rows are updated, in place;
  otherwise it fails and the table keeps its rows.\<close>

theorem update_refines:
  assumes "holds s table sp tp schema rows" "temp_ready s table"
    and "list_all (\<lambda>c. nul_free (sc_value c)) (sql_set sql)" "storage_update table sql s = (ok, s')"
  shows "(ok \<longleftrightarrow> sql_set sql \<noteq> [] \<and> conditions_named sql \<and> validate_update_set_clause schema (sql_set sql) \<noteq> None \<and>
      validate_delete_clause schema sql \<and> \<not> list_ex (\<lambda>r. row_matches_delete schema r sql = None) rows) \<and>
    holds s' table sp tp schema (if ok then map (updated_row schema sql) rows else rows)"
  using assms by (rule storage_update_holds)

section \<open>INSERT\<close>

lemma place_values_spec:
  "place_values schema cs vs cells = Some out \<Longrightarrow> length cs = length vs \<Longrightarrow> length cells = length schema \<Longrightarrow>
   length out = length cells \<and> (\<forall>k. cells ! k \<noteq> None \<longrightarrow> out ! k = cells ! k) \<and>
   (\<forall>i < length vs. \<exists>k. find_schema_index schema (cs ! i) = Some k \<and> out ! k = Some (vs ! i)) \<and>
   set out \<subseteq> set cells \<union> Some ` set vs"
proof (induction schema cs vs cells rule: place_values.induct)
  case (1 schema c cs v vs cells)
  then obtain i where i: "find_schema_index schema c = Some i" "cells ! i = None"
    "place_values schema cs vs (cells[i := Some v]) = Some out" "c \<noteq> []"
    by (auto split: if_splits option.splits)
  have lt: "i < length cells"
    using i(1) 1(4) find_idx_length by (simp add: find_schema_index_def)
  have IH: "length out = length cells" "\<forall>k. (cells[i := Some v]) ! k \<noteq> None \<longrightarrow> out ! k = (cells[i := Some v]) ! k"
    "\<forall>j < length vs. \<exists>k. find_schema_index schema (cs ! j) = Some k \<and> out ! k = Some (vs ! j)"
    "set out \<subseteq> set (cells[i := Some v]) \<union> Some ` set vs"
    using 1(1) [OF i(4,1)] i(2,3) 1(3,4) by simp_all
  have "out ! k = cells ! k" if "cells ! k \<noteq> None" for k
    using IH(2) i(2) lt that by (cases "k = i") auto
  moreover have "\<exists>k. find_schema_index schema ((c # cs) ! j) = Some k \<and> out ! k = Some ((v # vs) ! j)"
    if "j < length (v # vs)" for j
    using that IH(2,3) i(1) lt by (cases j) (auto dest: spec [of _ i])
  moreover have "set (cells[i := Some v]) \<subseteq> insert (Some v) (set cells)"
    by (rule set_update_subset_insert)
  ultimately show ?case using IH(1,4) by auto
qed simp_all

text \<open>What the row of an INSERT is: the values in schema order, or each value in its named column.\<close>

definition placed :: "schema \<Rightarrow> string list \<Rightarrow> string list \<Rightarrow> row \<Rightarrow> bool" where
  "placed schema columns vals row \<longleftrightarrow>
     (if columns = [] then row = vals
      else \<forall>i < length vals. \<exists>k. find_schema_index schema (columns ! i) = Some k \<and> row ! k = vals ! i)"

lemma build_row_spec:
  assumes "build_row_in_schema_order schema columns vals = Some row" "list_all nul_free vals"
  shows "row_ok schema row \<and> placed schema columns vals row"
proof (cases "columns = []")
  case True
  then show ?thesis using assms by (auto simp: build_row_in_schema_order_def row_ok_def placed_def split: if_splits)
next
  case False
  let ?cs = "map (\<lambda>i. columns ! i) [0..<length vals]"
  from assms(1) False obtain cells where c: "length vals = length schema" "None \<notin> set cells" "row = map the cells"
    "place_values schema ?cs vals (replicate (length schema) None) = Some cells"
    by (auto simp: build_row_in_schema_order_def split: if_splits option.splits)
  from place_values_spec [OF c(4)] have p: "length cells = length schema"
    "\<forall>i < length vals. \<exists>k. find_schema_index schema (columns ! i) = Some k \<and> cells ! k = Some (vals ! i)"
    "set cells \<subseteq> {None} \<union> Some ` set vals"
    by (auto split: if_splits)
  have "find_schema_index schema n = Some k \<Longrightarrow> k < length cells" for n k
    using p(1) find_idx_length by (simp add: find_schema_index_def)
  then have "placed schema columns vals row"
    using False p(2) c(3) unfolding placed_def by (metis nth_map option.sel)
  moreover have "list_all nul_free row"
    using p(3) c(2,3) assms(2) by (force simp: list_all_iff)
  ultimately show ?thesis using p(1) c(3) by (simp add: row_ok_def)
qed

lemma append_holds:
  assumes h: "holds s table sp tp schema rows" and ok: "row_ok schema row"
  shows "\<exists>s'. append_csv_row tp row s = (True, s') \<and> holds s' table sp tp schema (rows @ [row]) \<and>
    s' = s\<lparr>st_files := (st_files s)(tp := Some (file_of (rows @ [row]))), st_append := st_append s'\<rparr>"
proof -
  note H = h [unfolded holds_def]
  have get: "\<exists>l. storage_append_fp_get tp s = (True, s\<lparr>st_append := l\<rparr>)"
  proof (cases "tp \<in> set (st_append s)")
    case True
    then show ?thesis by (auto simp: storage_append_fp_get_def intro: exI [of _ "st_append s"])
  next
    case False
    have "st_files s = (st_files s)(tp := Some (file_of rows))" using H by (simp add: fun_upd_idem)
    then show ?thesis using H False by (auto simp: storage_append_fp_get_def can_create_def fun_upd_idem)
  qed
  then obtain l where l: "storage_append_fp_get tp s = (True, s\<lparr>st_append := l\<rparr>)" by blast
  let ?s' = "set_file tp (Some (file_of (rows @ [row]))) (s\<lparr>st_append := l\<rparr>)"
  have "append_csv_row tp row s = (True, ?s')"
    using l H by (simp add: append_csv_row_def file_of_def)
  moreover have "holds ?s' table sp tp schema (rows @ [row])"
    by (rule holds_transfer [OF h]) (use H ok in \<open>auto simp: set_file_def same_files_def path_exists_def\<close>)
  ultimately show ?thesis by (auto simp: set_file_def)
qed

lemma index_new_row_holds [simp]:
  "holds (snd (index_new_row t col a row k s)) table sp tp schema rows = holds s table sp tp schema rows"
  by (simp add: index_new_row_def set_meta_def Let_def split_beta split: option.split)

lemma meta_ensure_holds [simp]:
  "holds (snd (meta_ensure t p col s)) table sp tp schema rows = holds s table sp tp schema rows"
  by (simp add: meta_ensure_def split_beta split: option.split)

lemma take_auto_id_holds [simp]:
  "holds (snd (take_auto_id t p col s)) table sp tp schema rows = holds s table sp tp schema rows"
proof -
  let ?s1 = "case meta_index s t of
      Some i \<Rightarrow> if me_next_row (st_meta s ! i) > 0 \<and> \<not> storage_append_fp_is_open s p \<and>
          (st_files s p = None \<or> st_files s p = Some []) then set_meta i 1 0 s else s
    | None \<Rightarrow> s"
  have "snd (take_auto_id t p col s) = snd (meta_ensure t p col ?s1)"
    unfolding take_auto_id_def Let_def
    by (cases "meta_ensure t p col ?s1", cases "fst (meta_ensure t p col ?s1)") simp_all
  moreover have "holds ?s1 table sp tp schema rows = holds s table sp tp schema rows"
    by (simp add: set_meta_def split: option.split)
  ultimately show ?thesis by simp
qed

lemma schema_cache_holds:
  assumes "holds s table sp tp schema rows"
  shows "\<exists>s'. storage_schema_cache_get sp s = (Some schema, s') \<and> holds s' table sp tp schema rows \<and>
    s' = s\<lparr>st_schemas := st_schemas s'\<rparr>"
proof -
  let ?s' = "snd (storage_schema_cache_get sp s)"
  have only: "?s' = s\<lparr>st_schemas := st_schemas ?s'\<rparr>"
    by (simp add: storage_schema_cache_get_def split: option.split)
  have again: "fst (storage_schema_cache_get sp ?s') = fst (storage_schema_cache_get sp s)"
    by (auto simp: storage_schema_cache_get_def find_idx_append load_schema_def nth_append split: option.split)
  have files: "st_files ?s' = st_files s" "st_paths ?s' = st_paths s" "same_files ?s' s"
    by (subst only, simp add: same_files_def path_exists_def)+
  have "holds ?s' table sp tp schema rows"
    using assms again res_cong [OF files(2,3)] files(1) by (simp add: holds_def load_schema_def)
  then show ?thesis
    using assms only by (auto simp: holds_def prod_eq_iff)
qed

lemma nul_free_show_int: "nul_free (show_int n)"
proof -
  have "\<not> is_digit nul" by code_simp
  then have "nul_free (show_nat k)" for k
    using show_nat_digits [of k] by (auto simp: nul_free_def)
  then show ?thesis by (auto simp: show_int_def nul_free_def nul_def)
qed

definition bad_id :: "schema \<Rightarrow> row \<Rightarrow> bool" where
  "bad_id schema row \<longleftrightarrow> (case find_schema_index schema ''id'' of None \<Rightarrow> False
     | Some c \<Rightarrow> (case strtol (row ! c) of None \<Rightarrow> True | Some (_, _, erange) \<Rightarrow> erange))"

lemma write_new_row_holds:
  assumes "holds s table sp tp schema rows" "list_all nul_free vals"
    and "id_col = None \<or> id_col = find_schema_index schema ''id''"
    and "write_new_row table tp schema id_col auto_id columns vals s = (ok, s')"
  shows "(\<exists>row. row_ok schema row \<and> placed schema columns vals row \<and> holds s' table sp tp schema (rows @ [row]) \<and>
      (ok \<or> bad_id schema row)) \<or> (\<not> ok \<and> holds s' table sp tp schema rows)"
proof (cases "build_row_in_schema_order schema columns vals")
  case None
  then show ?thesis using assms by (simp add: write_new_row_def)
next
  case (Some row)
  note row = build_row_spec [OF Some assms(2)]
  obtain s1 where s1: "append_csv_row tp row s = (True, s1)" "holds s1 table sp tp schema (rows @ [row])"
    using append_holds [OF assms(1), of row] row by blast
  have "holds s' table sp tp schema (rows @ [row])"
  proof (cases id_col)
    case None
    then show ?thesis using assms(4) Some s1 by (simp add: write_new_row_def)
  next
    case (Some col)
    let ?k = "case meta_index s table of Some i \<Rightarrow> me_next_row (st_meta s ! i) | None \<Rightarrow> count_csv_rows s tp"
    have "s' = snd (index_new_row table col auto_id row ?k s1)"
      using assms(4) \<open>build_row_in_schema_order schema columns vals = Some row\<close> s1 Some
      by (simp add: write_new_row_def)
    then show ?thesis using s1(2) by simp
  qed
  moreover have "ok \<or> bad_id schema row"
    using assms(3,4) Some s1(1)
    by (auto simp: write_new_row_def Let_def index_new_row_def bad_id_def split: option.splits prod.splits if_splits) metis+
  ultimately show ?thesis using row by blast
qed

text \<open>The branch with an automatic id, which is put in front of the columns and the values.\<close>

lemma insert_auto_id_holds:
  assumes h: "holds s table sp tp schema rows" and nul: "list_all nul_free vals" and "columns \<noteq> []"
    and col: "find_schema_index schema ''id'' = Some col"
    and branch: "(case take_auto_id table tp col s of (None, s5) \<Rightarrow> (False, s5)
        | (Some a, s5) \<Rightarrow> write_new_row table tp schema (Some col) (Some a)
            (''id'' # map (\<lambda>i. columns ! i) [0..<length vals]) (show_int a # vals) s5) = (ok, s')"
  shows "(\<exists>row. row_ok schema row \<and> placed schema columns vals row \<and> holds s' table sp tp schema (rows @ [row]) \<and>
      (ok \<or> bad_id schema row)) \<or> (\<not> ok \<and> holds s' table sp tp schema rows)"
proof -
  obtain a s5 where t: "take_auto_id table tp col s = (a, s5)" by fastforce
  have h5: "holds s5 table sp tp schema rows"
    using h take_auto_id_holds [of table tp col s table sp tp schema rows] t by simp
  show ?thesis
  proof (cases a)
    case None
    then show ?thesis using branch t h5 by auto
  next
    case (Some n)
    let ?cs = "''id'' # map (\<lambda>i. columns ! i) [0..<length vals]"
    have w: "write_new_row table tp schema (Some col) (Some n) ?cs (show_int n # vals) s5 = (ok, s')"
      using branch t Some by simp
    have nf: "list_all nul_free (show_int n # vals)" using nul nul_free_show_int by simp
    have placed: "placed schema columns vals row" if p: "placed schema ?cs (show_int n # vals) row" for row
    proof -
      have "\<exists>k. find_schema_index schema (columns ! i) = Some k \<and> row ! k = vals ! i" if "i < length vals" for i
        using p that unfolding placed_def by (auto dest!: spec [of _ "Suc i"])
      then show ?thesis using assms(3) by (simp add: placed_def)
    qed
    from write_new_row_holds [OF h5 nf _ w] show ?thesis using col placed by auto
  qed
qed

text \<open>C3: INSERT on a table: when it succeeds the table has one row more, at the end, whose width
  is the schema's and whose cells are the given values in their columns. When it fails the
  table keeps its rows, except that a row whose explicit id is not a number stays appended.\<close>

theorem insert_refines:
  assumes "holds s table sp tp schema rows" "list_all nul_free vals" "storage_insert table columns vals s = (ok, s')"
  shows "(\<exists>row. row_ok schema row \<and> placed schema columns vals row \<and> holds s' table sp tp schema (rows @ [row]) \<and>
      (ok \<or> bad_id schema row)) \<or> (\<not> ok \<and> holds s' table sp tp schema rows)"
proof (cases "vals = []")
  case True
  then show ?thesis using assms by (simp add: storage_insert_def)
next
  case False
  from holds_open [OF assms(1)] obtain s1 s2 where o: "build_schema_path table s = (Some sp, s1)"
    "build_table_path table s1 = (Some tp, s2)" "holds s2 table sp tp schema rows" by blast
  from schema_cache_holds [OF o(3)] obtain s3 where s3: "storage_schema_cache_get sp s2 = (Some schema, s3)"
    "holds s3 table sp tp schema rows" by blast
  have table: "table \<noteq> []" using assms(1) by (simp add: holds_def)
  show ?thesis
  proof (cases "find_schema_index schema ''id''")
    case None
    then have "write_new_row table tp schema None None columns vals s3 = (ok, s')"
      using assms(3) False table o s3(1) by (simp add: storage_insert_def)
    from write_new_row_holds [OF s3(2) assms(2) _ this] show ?thesis by simp
  next
    case (Some col)
    let ?s4 = "snd (meta_ensure table tp col s3)"
    have h: "holds ?s4 table sp tp schema rows" using s3(2) by simp
    show ?thesis
    proof (cases "columns = [] \<or> list_ex (\<lambda>i. ieq (columns ! i) ''id'') [0..<length vals]")
      case True
      then have "write_new_row table tp schema (Some col) None columns vals ?s4 = (ok, s')"
        using assms(3) False table o s3(1) Some by (simp add: storage_insert_def)
      from write_new_row_holds [OF h assms(2) _ this] show ?thesis using Some by simp
    next
      case auto_id: False
      show ?thesis
        by (rule insert_auto_id_holds [OF h assms(2) _ Some])
          (use assms(3) False table o s3(1) Some auto_id in \<open>simp_all add: storage_insert_def\<close>)
    qed
  qed
qed

section \<open>A small database\<close>

definition two_rows :: "row list" where
  "two_rows = [[''1'', ''kim''], [''2'', ''lee'']]"

definition two_columns :: schema where
  "two_columns = [\<lparr>cd_name = ''id'', cd_type = TYPE_INT\<rparr>, \<lparr>cd_name = ''name'', cd_type = TYPE_VARCHAR\<rparr>]"

definition small :: storage where
  "small = \<lparr>st_files = [''data/schema/t.schema'' \<mapsto> ''id,INT'' @ newline # ''name,VARCHAR'' @ [newline],
       ''data/tables/t.csv'' \<mapsto> file_of two_rows],
     st_dirs = [''data'', ''data/schema'', ''data/tables''], st_append = [], st_schemas = [], st_paths = [],
     st_meta = [], st_rebuilt = [], st_index = []\<rparr>"

lemma small_holds: "holds small ''t'' ''data/schema/t.schema'' ''data/tables/t.csv'' two_columns two_rows"
  by code_simp

lemma small_temp: "temp_ready small ''t''"
  by code_simp

definition named :: "query_type \<Rightarrow> string \<Rightarrow> parsed_sql" where
  "named q v = \<lparr>sql_type = q, sql_table = ''t'', sql_columns = [''id''], sql_values = [],
     sql_where = [\<lparr>w_column = ''name'', w_op = ''='', w_value = v, w_value_to = []\<rparr>], sql_where_logic = [],
     sql_where_links = [], sql_order_by = None, sql_limit = -1,
     sql_set = [\<lparr>sc_column = ''name'', sc_value = ''park''\<rparr>], sql_col_defs = []\<rparr>"

theorem select_refines_witness:
  "fst (storage_select_result ''t'' (named QUERY_SELECT ''lee'') small) =
     Some \<lparr>rs_col_names = [''id''], rs_rows = [[''2'']]\<rparr> \<and>
   holds (snd (storage_select_result ''t'' (named QUERY_SELECT ''lee'') small))
     ''t'' ''data/schema/t.schema'' ''data/tables/t.csv'' two_columns two_rows"
proof -
  have "select_rows two_columns (named QUERY_SELECT ''lee'') two_rows = Some \<lparr>rs_col_names = [''id''], rs_rows = [[''2'']]\<rparr>"
    by code_simp
  then show ?thesis using select_refines [OF small_holds, of "named QUERY_SELECT ''lee''"] by simp
qed

theorem delete_refines_witness:
  "fst (storage_delete ''t'' (named QUERY_DELETE ''lee'') small) \<and>
   holds (snd (storage_delete ''t'' (named QUERY_DELETE ''lee'') small))
     ''t'' ''data/schema/t.schema'' ''data/tables/t.csv'' two_columns [[''1'', ''kim'']]"
proof -
  have "conditions_named (named QUERY_DELETE ''lee'') \<and> validate_delete_clause two_columns (named QUERY_DELETE ''lee'') \<and>
      \<not> list_ex (\<lambda>r. row_matches_delete two_columns r (named QUERY_DELETE ''lee'') = None) two_rows" by code_simp
  moreover have "filter (\<lambda>r. row_matches_delete two_columns r (named QUERY_DELETE ''lee'') \<noteq> Some True) two_rows = [[''1'', ''kim'']]"
    by code_simp
  ultimately show ?thesis
    using delete_refines [OF small_holds small_temp, OF prod.collapse [symmetric], of "named QUERY_DELETE ''lee''"] by (simp cong: conj_cong)
qed

theorem update_refines_witness:
  "fst (storage_update ''t'' (named QUERY_UPDATE ''lee'') small) \<and>
   holds (snd (storage_update ''t'' (named QUERY_UPDATE ''lee'') small))
     ''t'' ''data/schema/t.schema'' ''data/tables/t.csv'' two_columns [[''1'', ''kim''], [''2'', ''park'']]"
proof -
  let ?q = "named QUERY_UPDATE ''lee''"
  have "sql_set ?q \<noteq> [] \<and> conditions_named ?q \<and> validate_update_set_clause two_columns (sql_set ?q) \<noteq> None \<and>
      validate_delete_clause two_columns ?q \<and> \<not> list_ex (\<lambda>r. row_matches_delete two_columns r ?q = None) two_rows" by code_simp
  moreover have "map (updated_row two_columns ?q) two_rows = [[''1'', ''kim''], [''2'', ''park'']]" by code_simp
  moreover have "list_all (\<lambda>c. nul_free (sc_value c)) (sql_set ?q)" by code_simp
  ultimately show ?thesis
    using update_refines [OF small_holds small_temp, OF _ prod.collapse [symmetric], of ?q] by (simp cong: conj_cong)
qed

theorem insert_refines_witness:
  "fst (storage_insert ''t'' [''name''] [''choi''] small) \<and>
   (\<exists>row. row_ok two_columns row \<and> placed two_columns [''name''] [''choi''] row \<and>
     holds (snd (storage_insert ''t'' [''name''] [''choi''] small))
       ''t'' ''data/schema/t.schema'' ''data/tables/t.csv'' two_columns (two_rows @ [row]))"
proof -
  have ok: "fst (storage_insert ''t'' [''name''] [''choi''] small)" by code_simp
  have "list_all nul_free [''choi'']" by code_simp
  from insert_refines [OF small_holds this prod.collapse [symmetric], of "[''name'']"] ok show ?thesis by blast
qed

end
