(* ===== verification/Engine.thy ===== *)
theory Engine
  imports Storage Trie_Index Sql_Parser
begin

text \<open>
  The engine of \<^verbatim>\<open>src/engine.c\<close>: splitting a text into statements, executing each through the
  storage with the id index or the dictionary trie where the statement allows it, and the
  JSON of the response. The JSON buffer is the text appended to it; allocation does not fail.
  The two timings of a response, read from the clock, are parameters (the printed
  milliseconds). Statements run one after the other here; which of them may overlap, and the
  locks around them, are in \<open>Engine_Lock\<close>.
\<close>

section \<open>State\<close>

text \<open>
  \<open>en_heap n text\<close> is what the parser's arrays hold before it stores the conditions of a text,
  in a request that comes after \<open>n\<close> executed statements: nothing of the code determines it.
\<close>

record engine =
  en_storage :: storage
  en_trie :: "trie_node option"
  en_trie_ready :: bool
  en_ready :: bool
  en_total :: nat
  en_heap :: "nat \<Rightarrow> string \<Rightarrow> heap"

record engine_result =
  er_ok :: bool
  er_json :: string
  er_index_used :: bool
  er_nodes :: int

definition engine_parse :: "string \<Rightarrow> engine \<Rightarrow> parsed_sql option" where
  "engine_parse text en = parse_sql (en_heap en (en_total en) text) text"

definition trie_max_rows :: int where "trie_max_rows = 4096"

section \<open>JSON text\<close>

definition jq :: string where "jq = [CHR 0x22]"

definition hex_digit :: "nat \<Rightarrow> char" where
  "hex_digit n = (if n < 10 then char_of (48 + n) else char_of (87 + n))"

fun json_char :: "char \<Rightarrow> string" where
  "json_char c =
     (if c = CHR 0x22 then [CHR 0x5C, CHR 0x22]
      else if c = CHR 0x5C then [CHR 0x5C, CHR 0x5C]
      else if c = CHR 0x0A then [CHR 0x5C, CHR ''n'']
      else if c = CHR 0x0D then [CHR 0x5C, CHR ''r'']
      else if c = CHR 0x09 then [CHR 0x5C, CHR ''t'']
      else if code_of c < 32 then [CHR 0x5C, CHR ''u'', CHR ''0'', CHR ''0'', hex_digit (code_of c div 16), hex_digit (code_of c mod 16)]
      else [c])"

definition json_string :: "string \<Rightarrow> string" where
  "json_string s = jq @ concat (map json_char s) @ jq"

fun json_sep :: "string list \<Rightarrow> string" where
  "json_sep [] = []"
| "json_sep [x] = x"
| "json_sep (x # xs) = x @ '','' @ json_sep xs"

definition json_bool :: "bool \<Rightarrow> string" where
  "json_bool b = (if b then ''true'' else ''false'')"

definition json_key :: "string \<Rightarrow> string" where
  "json_key k = jq @ k @ jq @ '':''"

definition query_type_name :: "query_type \<Rightarrow> string" where
  "query_type_name t = (case t of
     QUERY_SELECT \<Rightarrow> ''SELECT'' | QUERY_INSERT \<Rightarrow> ''INSERT'' | QUERY_DELETE \<Rightarrow> ''DELETE''
   | QUERY_UPDATE \<Rightarrow> ''UPDATE'' | QUERY_CREATE \<Rightarrow> ''CREATE'' | QUERY_UNKNOWN \<Rightarrow> ''UNKNOWN'')"

definition append_rowset_json :: "rowset \<Rightarrow> string" where
  "append_rowset_json rs =
     ''{'' @ json_key ''ok'' @ ''true,'' @ json_key ''type'' @ jq @ ''SELECT'' @ jq @ '','' @ json_key ''columns'' @ ''['' @
     json_sep (map json_string (rs_col_names rs)) @ ''],'' @ json_key ''rows'' @ ''['' @
     json_sep (map (\<lambda>r. ''['' @ json_sep (map json_string r) @ '']'') (rs_rows rs)) @
     ''],'' @ json_key ''row_count'' @ show_int (int (length (rs_rows rs))) @ ''}''"

definition append_status_json :: "parsed_sql \<Rightarrow> bool \<Rightarrow> string \<Rightarrow> string" where
  "append_status_json sql ok action =
     ''{'' @ json_key ''ok'' @ json_bool ok @ '','' @ json_key ''type'' @ json_string (query_type_name (sql_type sql)) @
     '','' @ json_key ''table'' @ json_string (sql_table sql) @ '','' @ json_key ''action'' @ json_string action @
     (if ok then [] else '','' @ json_key ''error'' @ jq @ ''storage operation failed'' @ jq) @ ''}''"

definition append_error_json :: "string \<Rightarrow> string" where
  "append_error_json message = ''{'' @ json_key ''ok'' @ ''false,'' @ json_key ''error'' @ json_string message @ ''}''"

section \<open>Statements of a text\<close>

text \<open>The scan to the next semicolon outside quotes; \<open>q\<close> is the quote the scan is in.\<close>

fun stmt_end :: "char option \<Rightarrow> string \<Rightarrow> string \<times> string" where
  "stmt_end q [] = ([], [])"
| "stmt_end (Some q) (c # cs) = (case stmt_end (if c = q then None else Some q) cs of (a, b) \<Rightarrow> (c # a, b))"
| "stmt_end None (c # cs) =
     (if c = CHR 0x27 \<or> c = CHR 0x22 then (case stmt_end (Some c) cs of (a, b) \<Rightarrow> (c # a, b))
      else if c = CHR '';'' then ([], c # cs)
      else (case stmt_end None cs of (a, b) \<Rightarrow> (c # a, b)))"

lemma stmt_end_append: "fst (stmt_end q s) @ snd (stmt_end q s) = s"
  by (induction q s rule: stmt_end.induct) (simp_all add: split_beta)

lemma stmt_end_length: "length (snd (stmt_end q s)) \<le> length s"
  using arg_cong [OF stmt_end_append [of q s], of length] by simp

text \<open>The statement a text starts with, trimmed, and the text after its semicolon.\<close>

definition cut_statement :: "string \<Rightarrow> string \<times> string" where
  "cut_statement start =
     (case stmt_end None start of (stmt, p) \<Rightarrow> (trim_ws stmt, case p of [] \<Rightarrow> [] | _ # cs \<Rightarrow> cs))"

lemma cut_statement_shorter: "start \<noteq> [] \<Longrightarrow> length (snd (cut_statement start)) < length start"
  using stmt_end_length [of None start]
  by (auto simp: cut_statement_def split_beta split: list.split)

lemma cut_shorter:
  assumes "dropWhile is_space cursor \<noteq> []"
  shows "length (snd (cut_statement (dropWhile is_space cursor))) < length cursor"
  using cut_statement_shorter [OF assms] length_dropWhile_le [of is_space cursor] by (rule less_le_trans)

text \<open>The next statement that is not empty, and the text after it.\<close>

function split_next_statement :: "string \<Rightarrow> string option \<times> string" where
  "split_next_statement cursor =
     (let start = dropWhile is_space cursor
      in if start = [] then (None, [])
         else if fst (cut_statement start) = [] then split_next_statement (snd (cut_statement start))
         else (Some (fst (cut_statement start)), snd (cut_statement start)))"
  by pat_completeness auto

termination
  by (relation "measure length") (simp_all add: cut_shorter del: dropWhile_eq_Nil_conv)

declare split_next_statement.simps [simp del]

lemma split_next_shorter: "split_next_statement cursor = (Some stmt, rest) \<Longrightarrow> length rest < length cursor"
proof (induction cursor rule: split_next_statement.induct)
  case (1 cursor)
  let ?start = "dropWhile is_space cursor"
  have unf: "split_next_statement cursor =
      (if ?start = [] then (None, [])
       else if fst (cut_statement ?start) = [] then split_next_statement (snd (cut_statement ?start))
       else (Some (fst (cut_statement ?start)), snd (cut_statement ?start)))"
    by (subst split_next_statement.simps) (simp only: Let_def)
  have start: "?start \<noteq> []"
    using 1(2) unf by (metis option.distinct(1) prod.inject)
  show ?case
  proof (cases "fst (cut_statement ?start) = []")
    case True
    then have "length rest < length (snd (cut_statement ?start))"
      using 1(1) [OF refl start True] 1(2) unf start True by metis
    then show ?thesis using cut_shorter [OF start] by simp
  next
    case False
    then have "rest = snd (cut_statement ?start)" using 1(2) start unf by (metis prod.inject)
    then show ?thesis using cut_shorter [OF start] by simp
  qed
qed

definition is_blank_sql :: "string \<Rightarrow> bool" where
  "is_blank_sql sql \<longleftrightarrow> list_all is_space sql"

section \<open>Which index a SELECT can use\<close>

definition parse_int_literal :: "string \<Rightarrow> int option" where
  "parse_int_literal input =
     (let trimmed = trim_ws (strip_quotes 255 input)
      in case strtol trimmed of
           None \<Rightarrow> None
         | Some (v, rest, erange) \<Rightarrow>
             if erange \<or> dropWhile is_space rest \<noteq> [] \<or> v < int_min \<or> int_max < v then None else Some v)"

definition should_use_id_index :: "parsed_sql \<Rightarrow> bool" where
  "should_use_id_index sql \<longleftrightarrow>
     (case sql_where sql of [w] \<Rightarrow> ieq (w_column w) ''id'' \<and> w_op w = ''='' | _ \<Rightarrow> False)"

definition should_use_id_range :: "parsed_sql \<Rightarrow> bool" where
  "should_use_id_range sql \<longleftrightarrow>
     (case sql_where sql of [w] \<Rightarrow> ieq (w_column w) ''id'' \<and> ieq (w_op w) ''BETWEEN'' | _ \<Rightarrow> False)"

definition is_ascii_lowercase_word :: "string \<Rightarrow> bool" where
  "is_ascii_lowercase_word text \<longleftrightarrow> text \<noteq> [] \<and> list_all is_lower text"

text \<open>The prefix, when the trie can answer the query.\<close>

definition should_use_trie_prefix :: "parsed_sql \<Rightarrow> string option" where
  "should_use_trie_prefix sql =
     (case sql_where sql of
        [w] \<Rightarrow>
          if \<not> ieq (sql_table sql) ''dictionary'' \<or> \<not> ieq (w_column w) ''english'' \<or> w_op w \<noteq> ''LIKE'' then None
          else let literal = strip_quotes 255 (w_value w); prefix = butlast literal
               in if length literal < 2 \<or> last literal \<noteq> CHR ''%'' then None
                  else if length prefix \<ge> 256 \<or> list_ex (\<lambda>c. c = CHR ''%'' \<or> c = CHR ''_'') prefix then None
                  else if is_ascii_lowercase_word prefix then Some prefix else None
      | _ \<Rightarrow> None)"

definition parse_between_bounds :: "where_clause \<Rightarrow> (int \<times> int) option" where
  "parse_between_bounds w =
     (case (parse_int_literal (w_value w), parse_int_literal (w_value_to w)) of
        (Some lo, Some hi) \<Rightarrow> Some (if lo > hi then (hi, lo) else (lo, hi))
      | _ \<Rightarrow> None)"

text \<open>
  The row numbers of an id range, with a buffer that doubles while it is full; \<open>None\<close> when it
  cannot grow. A walk that leaves the tree, which the tree's invariant excludes, gives
  \<open>None\<close> too.
\<close>

declare range_walk.simps [code]

function range_rows :: "bptree \<Rightarrow> int \<Rightarrow> int \<Rightarrow> int \<Rightarrow> int list option" where
  "range_rows tree lo hi capacity =
     (case bptree_range tree lo hi capacity of
        None \<Rightarrow> None
      | Some rows \<Rightarrow>
          if int (length rows) < capacity then Some rows
          else if capacity > int_max div 2 \<or> capacity \<le> 0 then None
          else range_rows tree lo hi (capacity * 2))"
  by pat_completeness auto

termination
  by (relation "measure (\<lambda>(t, lo, hi, capacity). nat (int_max - capacity))") (auto simp: int_max_def)

declare range_rows.simps [simp del]

section \<open>The dictionary trie\<close>

definition dictionary_schema_exists :: "storage \<Rightarrow> bool" where
  "dictionary_schema_exists s \<longleftrightarrow>
     st_files s ''data/schema/dictionary.schema'' \<noteq> None \<or> st_files s ''data/dictionary.schema'' \<noteq> None"

definition dictionary_trie_replace :: "trie_node option \<Rightarrow> bool \<Rightarrow> engine \<Rightarrow> engine" where
  "dictionary_trie_replace next ready en = en\<lparr>en_trie := next, en_trie_ready := ready \<and> next \<noteq> None\<rparr>"

text \<open>Inserting the first cell of every row under its position; \<open>None\<close> when a word is not valid.\<close>

fun trie_load_loop :: "trie_node \<Rightarrow> int \<Rightarrow> string list list \<Rightarrow> trie_node option" where
  "trie_load_loop t i [] = Some t"
| "trie_load_loop t i (r # rs) =
     (case trie_insert t (case r of [] \<Rightarrow> [] | w # _ \<Rightarrow> w) i of
        (status, t') \<Rightarrow> if status \<noteq> 0 then None else trie_load_loop t' (i + 1) rs)"

definition dictionary_trie_rebuild_locked :: "engine \<Rightarrow> bool \<times> engine" where
  "dictionary_trie_rebuild_locked en =
     (if \<not> dictionary_schema_exists (en_storage en) then (True, dictionary_trie_replace (Some trie_create) False en)
      else case engine_parse ''SELECT english FROM dictionary;'' en of
             None \<Rightarrow> (False, dictionary_trie_replace (Some trie_create) False en)
           | Some sql \<Rightarrow>
               (case storage_select_result ''dictionary'' sql (en_storage en) of
                  (None, s) \<Rightarrow> (False, dictionary_trie_replace (Some trie_create) False (en\<lparr>en_storage := s\<rparr>))
                | (Some rs, s) \<Rightarrow>
                    (case trie_load_loop trie_create 0 (rs_rows rs) of
                       None \<Rightarrow> (False, dictionary_trie_replace (Some trie_create) False (en\<lparr>en_storage := s\<rparr>))
                     | Some t \<Rightarrow> (True, dictionary_trie_replace (Some t) True (en\<lparr>en_storage := s\<rparr>)))))"

definition dictionary_trie_refresh_after_write :: "parsed_sql \<Rightarrow> bool \<Rightarrow> engine \<Rightarrow> engine" where
  "dictionary_trie_refresh_after_write sql ok en =
     (if \<not> ok \<or> \<not> ieq (sql_table sql) ''dictionary'' then en else snd (dictionary_trie_rebuild_locked en))"

section \<open>Executing a statement\<close>

text \<open>What a statement gives: success, its JSON, whether an index was used and the nodes visited.\<close>

record outcome =
  oc_ok :: bool
  oc_json :: string
  oc_index_used :: bool
  oc_nodes :: int

definition rows_outcome :: "bool \<Rightarrow> int \<Rightarrow> rowset \<Rightarrow> outcome" where
  "rows_outcome index nodes rs =
     \<lparr>oc_ok = True, oc_json = append_rowset_json rs, oc_index_used = index, oc_nodes = nodes\<rparr>"

definition text_outcome :: "bool \<Rightarrow> string \<Rightarrow> outcome" where
  "text_outcome ok json = \<lparr>oc_ok = ok, oc_json = json, oc_index_used = False, oc_nodes = 0\<rparr>"

text \<open>The full scan at the end of \<^verbatim>\<open>execute_select\<close>.\<close>

definition scan_outcome :: "parsed_sql \<Rightarrow> engine \<Rightarrow> outcome \<times> engine" where
  "scan_outcome sql en =
     (case storage_select_result (sql_table sql) sql (en_storage en) of
        (None, s) \<Rightarrow> (text_outcome False (append_status_json sql False ''select''), en\<lparr>en_storage := s\<rparr>)
      | (Some rs, s) \<Rightarrow> (rows_outcome False 0 rs, en\<lparr>en_storage := s\<rparr>))"

text \<open>The prefix lookup before it.\<close>

definition trie_outcome :: "parsed_sql \<Rightarrow> engine \<Rightarrow> outcome \<times> engine" where
  "trie_outcome sql en =
     (case (should_use_trie_prefix sql, en_trie_ready en, en_trie en) of
        (Some prefix, True, Some t) \<Rightarrow>
          (let rows = trie_search_prefix t prefix trie_max_rows
           in if int (length rows) \<ge> trie_max_rows then scan_outcome sql en
              else case storage_select_result_by_row_indices (sql_table sql) sql (sort rows) (en_storage en) of
                     (Some rs, s) \<Rightarrow> (rows_outcome True (int (length prefix)) rs, en\<lparr>en_storage := s\<rparr>)
                   | (None, s) \<Rightarrow> scan_outcome sql (en\<lparr>en_storage := s\<rparr>))
      | _ \<Rightarrow> scan_outcome sql en)"

definition execute_select :: "parsed_sql \<Rightarrow> engine \<Rightarrow> outcome \<times> engine" where
  "execute_select sql en0 =
     (let en = en0\<lparr>en_storage := storage_ensure_index (sql_table sql) (en_storage en0)\<rparr>;
          reg = st_index (en_storage en)
      in if should_use_id_range sql then
           (case (index_registry_get reg (sql_table sql), parse_between_bounds (sql_where sql ! 0)) of
              (Some slot, Some (lo, hi)) \<Rightarrow>
                (case range_rows (tree_at reg slot) lo hi 16 of
                   None \<Rightarrow> (text_outcome False [], en)
                 | Some rows \<Rightarrow>
                     (case storage_select_result_by_row_indices (sql_table sql) sql rows (en_storage en) of
                        (Some rs, s) \<Rightarrow> (rows_outcome True 1 rs, en\<lparr>en_storage := s\<rparr>)
                      | (None, s) \<Rightarrow> trie_outcome sql (en\<lparr>en_storage := s\<rparr>)))
            | _ \<Rightarrow> trie_outcome sql en)
         else if should_use_id_index sql then
           (case (index_registry_get reg (sql_table sql), parse_int_literal (w_value (sql_where sql ! 0))) of
              (Some slot, Some key) \<Rightarrow>
                (case storage_select_result_by_row_index (sql_table sql) sql (bptree_search (tree_at reg slot) key)
                        (en_storage en) of
                   (Some rs, s) \<Rightarrow> (rows_outcome True 1 rs, en\<lparr>en_storage := s\<rparr>)
                 | (None, s) \<Rightarrow> trie_outcome sql (en\<lparr>en_storage := s\<rparr>))
            | _ \<Rightarrow> trie_outcome sql en)
         else trie_outcome sql en)"

text \<open>A storage write: its status, the refreshed trie and the JSON.\<close>

definition write_outcome :: "parsed_sql \<Rightarrow> string \<Rightarrow> bool \<times> storage \<Rightarrow> engine \<Rightarrow> outcome \<times> engine" where
  "write_outcome sql action w en =
     (text_outcome (fst w) (append_status_json sql (fst w) action),
      dictionary_trie_refresh_after_write sql (fst w) (en\<lparr>en_storage := snd w\<rparr>))"

definition execute_statement :: "parsed_sql \<Rightarrow> engine \<Rightarrow> outcome \<times> engine" where
  "execute_statement sql en =
     (let s = en_storage en; table = sql_table sql
      in case sql_type sql of
           QUERY_SELECT \<Rightarrow> execute_select sql en
         | QUERY_CREATE \<Rightarrow> write_outcome sql ''create'' (storage_create table (sql_col_defs sql) s) en
         | QUERY_INSERT \<Rightarrow> write_outcome sql ''insert'' (storage_insert table (sql_columns sql) (sql_values sql) s) en
         | QUERY_DELETE \<Rightarrow> write_outcome sql ''delete'' (storage_delete table sql s) en
         | QUERY_UPDATE \<Rightarrow> write_outcome sql ''update'' (storage_update table sql s) en
         | QUERY_UNKNOWN \<Rightarrow> (text_outcome False (append_error_json ''unsupported query type''), en))"

section \<open>Executing a text\<close>

text \<open>One statement text: an error object when it is not SQL.\<close>

definition run_statement :: "string \<Rightarrow> engine \<Rightarrow> outcome \<times> engine" where
  "run_statement stmt en =
     (case engine_parse stmt en of
        None \<Rightarrow> (text_outcome False (append_error_json ''parse error or unsupported query''), en)
      | Some sql \<Rightarrow>
          if sql_type sql = QUERY_UNKNOWN
          then (text_outcome False (append_error_json ''parse error or unsupported query''), en)
          else execute_statement sql en)"

text \<open>The loop over the statements of a text: their outcomes in order.\<close>

function exec_loop :: "string \<Rightarrow> engine \<Rightarrow> outcome list \<times> engine" where
  "exec_loop cursor en =
     (case split_next_statement cursor of
        (None, _) \<Rightarrow> ([], en)
      | (Some stmt, rest) \<Rightarrow>
          (case run_statement stmt en of (oc, en1) \<Rightarrow>
             (case exec_loop rest en1 of (ocs, en2) \<Rightarrow> (oc # ocs, en2))))"
  by pat_completeness auto

termination
  by (relation "measure (\<lambda>(cursor, en). length cursor)") (auto dest: split_next_shorter [OF sym])

declare exec_loop.simps [simp del]

definition response_json :: "outcome list \<Rightarrow> string \<Rightarrow> string \<Rightarrow> string" where
  "response_json ocs elapsed wait =
     ''{'' @ json_key ''statements'' @ ''['' @
     (if ocs = [] then append_error_json ''empty sql'' else json_sep (map oc_json ocs)) @
     ''],'' @ json_key ''ok'' @ json_bool (ocs \<noteq> [] \<and> list_all oc_ok ocs) @
     '','' @ json_key ''statement_count'' @ show_int (int (length ocs)) @
     '','' @ json_key ''index_used'' @ json_bool (list_ex oc_index_used ocs) @
     '','' @ json_key ''nodes_visited'' @ show_int (foldl (\<lambda>m oc. max m (oc_nodes oc)) 0 ocs) @
     '','' @ json_key ''elapsed_ms'' @ elapsed @ '','' @ json_key ''lock_wait_ms'' @ wait @ ''}''"

definition engine_exec_sql :: "string \<Rightarrow> string \<Rightarrow> string \<Rightarrow> engine \<Rightarrow> engine_result \<times> engine" where
  "engine_exec_sql elapsed wait sql en =
     (if is_blank_sql sql
      then (\<lparr>er_ok = False, er_json = ''{'' @ json_key ''ok'' @ ''false,'' @ json_key ''error'' @ jq @ ''empty sql'' @ jq @ ''}'',
              er_index_used = False, er_nodes = 0\<rparr>, en)
      else case exec_loop sql en of
             (ocs, en1) \<Rightarrow>
               (\<lparr>er_ok = ocs \<noteq> [] \<and> list_all oc_ok ocs, er_json = response_json ocs elapsed wait,
                 er_index_used = list_ex oc_index_used ocs, er_nodes = foldl (\<lambda>m oc. max m (oc_nodes oc)) 0 ocs\<rparr>,
                en1\<lparr>en_total := en_total en1 + length ocs\<rparr>))"

section \<open>EXPLAIN, start and stop\<close>

definition plan_of :: "parsed_sql \<Rightarrow> bool \<Rightarrow> string \<times> bool \<times> int" where
  "plan_of sql trie_ready =
     (if sql_type sql = QUERY_SELECT then
        (if should_use_id_range sql then (''BPTREE_RANGE_SCAN'', True, 1)
         else if should_use_id_index sql then (''BPTREE_POINT_LOOKUP'', True, 1)
         else case (should_use_trie_prefix sql, trie_ready) of
                (Some prefix, True) \<Rightarrow> (''TRIE_PREFIX_SCAN'', True, int (length prefix))
              | _ \<Rightarrow> (''FULL_SCAN'', False, 0))
      else if sql_type sql = QUERY_CREATE then (''CATALOG_WRITE'', False, 0)
      else (''TABLE_WRITE'', False, 0))"

definition engine_explain :: "string \<Rightarrow> engine \<Rightarrow> engine_result" where
  "engine_explain text en =
     (case split_next_statement text of
        (None, _) \<Rightarrow>
          \<lparr>er_ok = False, er_json = ''{'' @ json_key ''ok'' @ ''false,'' @ json_key ''error'' @ jq @ ''empty sql'' @ jq @ ''}'',
           er_index_used = False, er_nodes = 0\<rparr>
      | (Some stmt, _) \<Rightarrow>
          (case (case engine_parse stmt en of None \<Rightarrow> None | Some sql \<Rightarrow> if sql_type sql = QUERY_UNKNOWN then None else Some sql) of
             None \<Rightarrow>
               \<lparr>er_ok = False, er_json = ''{'' @ json_key ''ok'' @ ''false,'' @ json_key ''error'' @ jq @
                  ''parse error or unsupported query'' @ jq @ ''}'', er_index_used = False, er_nodes = 0\<rparr>
           | Some sql \<Rightarrow>
               (case plan_of sql (en_trie_ready en) of
                  (plan, index, nodes) \<Rightarrow>
                    \<lparr>er_ok = True,
                     er_json = ''{'' @ json_key ''ok'' @ ''true,'' @ json_key ''type'' @ json_string (query_type_name (sql_type sql)) @
                       '','' @ json_key ''table'' @ json_string (sql_table sql) @ '','' @ json_key ''plan'' @ json_string plan @
                       '','' @ json_key ''index_used'' @ json_bool index @ '','' @ json_key ''nodes_visited'' @ show_int nodes @ ''}'',
                     er_index_used = index, er_nodes = nodes\<rparr>)))"

definition bootstrap_sql :: string where
  "bootstrap_sql = ''CREATE TABLE dictionary (id INT, english VARCHAR, korean VARCHAR);''"

definition engine_init :: "(nat \<Rightarrow> string \<Rightarrow> heap) \<Rightarrow> string \<Rightarrow> string \<Rightarrow> storage \<Rightarrow> engine" where
  "engine_init mem elapsed wait s =
     (let en = \<lparr>en_storage = s, en_trie = Some trie_create, en_trie_ready = False, en_ready = False, en_total = 0,
                en_heap = mem\<rparr>;
          en1 = (if dictionary_schema_exists s then snd (dictionary_trie_rebuild_locked en)
                 else snd (engine_exec_sql elapsed wait bootstrap_sql en))
      in en1\<lparr>en_ready := True\<rparr>)"

definition engine_shutdown :: "engine \<Rightarrow> engine" where
  "engine_shutdown en =
     (let en1 = dictionary_trie_replace None False (en\<lparr>en_ready := False\<rparr>); s = storage_reset_internal_caches (en_storage en1)
      in en1\<lparr>en_storage := s\<lparr>st_index := index_registry_destroy_all (st_index s)\<rparr>\<rparr>)"

definition engine_is_ready :: "engine \<Rightarrow> bool" where
  "engine_is_ready en \<longleftrightarrow> en_ready en \<and> en_trie_ready en"

end
