(* ===== verification/Json_Text.thy ===== *)
theory Json_Text
  imports Engine
begin

text \<open>
  The responses of the engine as JSON: values, their text, and a reader of JSON texts. The
  reader accepts the strings of RFC 8259 (escapes included, raw control characters
  excluded), numbers as their text, and no white space, which the engine never writes. Every
  text the engine makes is the text of a value, and reading gives that value back.
\<close>

section \<open>Values and their text\<close>

datatype json =
  JStr string | JNum string | JBool bool | JList "json list" | JObj "(string \<times> json) list"

fun render :: "json \<Rightarrow> string" where
  "render (JStr s) = json_string s"
| "render (JNum t) = t"
| "render (JBool b) = json_bool b"
| "render (JList xs) = ''['' @ json_sep (map render xs) @ '']''"
| "render (JObj kvs) = ''{'' @ json_sep (map (\<lambda>(k, v). json_string k @ '':'' @ render v) kvs) @ ''}''"

definition num_char :: "char \<Rightarrow> bool" where
  "num_char c \<longleftrightarrow> is_digit c \<or> c = CHR ''-'' \<or> c = CHR ''.''"

fun json_ok :: "json \<Rightarrow> bool" where
  "json_ok (JNum t) \<longleftrightarrow> t \<noteq> [] \<and> list_all num_char t"
| "json_ok (JList xs) \<longleftrightarrow> (\<forall>x \<in> set xs. json_ok x)"
| "json_ok (JObj kvs) \<longleftrightarrow> (\<forall>x \<in> set kvs. json_ok (snd x))"
| "json_ok v \<longleftrightarrow> True"

section \<open>Reading\<close>

definition hex_value :: "char \<Rightarrow> nat option" where
  "hex_value c = (if is_digit c then Some (code_of c - 48)
     else if 97 \<le> code_of c \<and> code_of c \<le> 102 then Some (code_of c - 87) else None)"

text \<open>The character an escape stands for, and the text after it.\<close>

fun read_escape :: "string \<Rightarrow> (char \<times> string) option" where
  "read_escape [] = None"
| "read_escape (e # r) =
     (if e = CHR 0x22 \<or> e = CHR 0x5C then Some (e, r)
      else if e = CHR ''n'' then Some (CHR 0x0A, r)
      else if e = CHR ''r'' then Some (CHR 0x0D, r)
      else if e = CHR ''t'' then Some (CHR 0x09, r)
      else if e = CHR ''u'' \<and> take 2 r = ''00'' \<and> 4 \<le> length r
        then (case (hex_value (r ! 2), hex_value (r ! 3)) of
                (Some h, Some l) \<Rightarrow> Some (char_of (16 * h + l), drop 4 r) | _ \<Rightarrow> None)
      else None)"

lemma read_escape_length: "read_escape s = Some (c, r) \<Longrightarrow> length r < length s"
  by (cases s) (auto split: if_splits option.splits)

function read_string :: "string \<Rightarrow> (string \<times> string) option" where
  "read_string [] = None"
| "read_string (c # r) =
     (if c = CHR 0x22 then Some ([], r)
      else if c = CHR 0x5C then
        (case read_escape r of None \<Rightarrow> None | Some (d, r') \<Rightarrow> map_option (\<lambda>(s, q). (d # s, q)) (read_string r'))
      else if code_of c < 32 then None
      else map_option (\<lambda>(s, q). (c # s, q)) (read_string r))"
  by pat_completeness auto

termination
  by (relation "measure length") (auto dest: read_escape_length)

text \<open>The fuel bounds the nesting and the number of elements; the length of the text is enough.\<close>

fun read_value :: "nat \<Rightarrow> string \<Rightarrow> (json \<times> string) option"
  and read_list :: "nat \<Rightarrow> string \<Rightarrow> (json list \<times> string) option"
  and read_members :: "nat \<Rightarrow> string \<Rightarrow> ((string \<times> json) list \<times> string) option" where
  "read_value 0 s = None"
| "read_value (Suc n) [] = None"
| "read_value (Suc n) (c # r) =
     (if c = CHR 0x22 then map_option (\<lambda>(s, q). (JStr s, q)) (read_string r)
      else if c = CHR ''['' then
        (if take 1 r = '']'' then Some (JList [], tl r) else map_option (\<lambda>(xs, q). (JList xs, q)) (read_list n r))
      else if c = CHR ''{'' then
        (if take 1 r = ''}'' then Some (JObj [], tl r) else map_option (\<lambda>(xs, q). (JObj xs, q)) (read_members n r))
      else if num_char c then Some (JNum (c # takeWhile num_char r), dropWhile num_char r)
      else if take 3 r = ''rue'' \<and> c = CHR ''t'' then Some (JBool True, drop 3 r)
      else if take 4 r = ''alse'' \<and> c = CHR ''f'' then Some (JBool False, drop 4 r)
      else None)"
| "read_list 0 s = None"
| "read_list (Suc n) s =
     (case read_value n s of
        None \<Rightarrow> None
      | Some (v, r) \<Rightarrow>
          if take 1 r = '','' then map_option (\<lambda>(vs, q). (v # vs, q)) (read_list n (tl r))
          else if take 1 r = '']'' then Some ([v], tl r) else None)"
| "read_members 0 s = None"
| "read_members (Suc n) s =
     (if take 1 s \<noteq> [CHR 0x22] then None
      else case read_string (tl s) of
        None \<Rightarrow> None
      | Some (k, r) \<Rightarrow>
          if take 1 r \<noteq> '':'' then None
          else (case read_value n (tl r) of
                  None \<Rightarrow> None
                | Some (v, q) \<Rightarrow>
                    if take 1 q = '','' then map_option (\<lambda>(vs, p). ((k, v) # vs, p)) (read_members n (tl q))
                    else if take 1 q = ''}'' then Some ([(k, v)], tl q) else None))"

definition read_json :: "string \<Rightarrow> json option" where
  "read_json s = (case read_value (length s) s of Some (v, []) \<Rightarrow> Some v | _ \<Rightarrow> None)"

section \<open>Reading what was written\<close>

lemma char_class [simp]: "code_of c < 32 \<Longrightarrow> c \<noteq> CHR 0x22 \<and> c \<noteq> CHR 0x5C"
  by auto

lemma hex_value_digit: "(n :: nat) < 16 \<Longrightarrow> hex_value (hex_digit n) = Some n"
proof -
  assume n: "n < 16"
  have "code_of (hex_digit n) = (if n < 10 then 48 + n else 87 + n)"
    using n by (simp add: hex_digit_def of_char_of)
  then show ?thesis using n by (simp add: hex_value_def is_digit_def)
qed

lemma read_json_char:
  "read_string (json_char c @ r) = map_option (\<lambda>(s, q). (c # s, q)) (read_string r)"
proof (cases "code_of c < 32 \<and> c \<noteq> CHR 0x0A \<and> c \<noteq> CHR 0x0D \<and> c \<noteq> CHR 0x09")
  case True
  have "16 * (code_of c div 16) + code_of c mod 16 = (code_of c :: nat)" by simp
  then have "char_of (16 * (code_of c div 16) + code_of c mod 16 :: nat) = c"
    by (simp only: char_of_char)
  moreover have "hex_value (hex_digit (code_of c div 16)) = Some (code_of c div 16)"
    "hex_value (hex_digit (code_of c mod 16)) = Some (code_of c mod 16)"
    using True by (auto intro!: hex_value_digit)
  moreover have "c \<noteq> CHR 0x22" "c \<noteq> CHR 0x5C" using True by auto
  ultimately show ?thesis using True by (simp add: numeral_2_eq_2 numeral_3_eq_3)
qed auto

lemma read_json_string: "read_string (concat (map json_char s) @ CHR 0x22 # r) = Some (s, r)"
  by (induction s) (simp_all add: read_json_char del: json_char.simps read_string.simps(2), simp)

lemma take_app [simp]: "take 1 (x # xs) = [x]" "take (Suc 0) (x # xs) = [x]"
  by simp_all

lemma num_not_special: "num_char c \<Longrightarrow> c \<noteq> CHR 0x22 \<and> c \<noteq> CHR ''['' \<and> c \<noteq> CHR ''{'' \<and> c \<noteq> CHR '']'' \<and> c \<noteq> CHR ''}''"
  by (auto simp: num_char_def is_digit_def)

text \<open>What may follow a value: nothing that could continue a number.\<close>

definition stops :: "string \<Rightarrow> bool" where
  "stops r \<longleftrightarrow> (r = [] \<or> \<not> num_char (hd r))"

lemma stops_simps [simp]: "stops []" "stops (CHR '','' # r)" "stops (CHR '']'' # r)" "stops (CHR ''}'' # r)"
  by (simp_all add: stops_def num_char_def is_digit_def)

lemma render_start: "json_ok v \<Longrightarrow> \<exists>c t. render v = c # t \<and> c \<noteq> CHR '']'' \<and> c \<noteq> CHR ''}''"
proof (cases v)
  case (JNum t)
  assume "json_ok v"
  then show ?thesis using JNum num_not_special by (cases t) auto
qed (auto simp: json_string_def jq_def json_bool_def)

lemma json_sep_Cons: "xs \<noteq> [] \<Longrightarrow> json_sep (x # xs) = x @ CHR '','' # json_sep xs"
  by (cases xs) auto

text \<open>Reading a list, given that its elements are read back.\<close>

lemma read_list_render:
  assumes "\<And>x n r. x \<in> set xs \<Longrightarrow> length (render x) \<le> n \<Longrightarrow> stops r \<Longrightarrow> read_value n (render x @ r) = Some (x, r)"
    and "xs \<noteq> []" "length (json_sep (map render xs)) < n"
  shows "read_list n (json_sep (map render xs) @ CHR '']'' # r) = Some (xs, r)"
  using assms
proof (induction xs arbitrary: n)
  case (Cons x xs)
  obtain m where n: "n = Suc m" using Cons.prems(3) by (cases n) auto
  show ?case
  proof (cases "xs = []")
    case True
    then show ?thesis using Cons.prems(1) [of x m "CHR '']'' # r"] Cons.prems(3) n by simp
  next
    case False
    have "read_list m (json_sep (map render xs) @ CHR '']'' # r) = Some (xs, r)"
      using Cons.prems(3) False n by (intro Cons.IH Cons.prems(1)) (auto simp: json_sep_Cons)
    then show ?thesis
      using Cons.prems(1) [of x m "CHR '','' # json_sep (map render xs) @ CHR '']'' # r"] Cons.prems(3) False n
      by (simp add: json_sep_Cons)
  qed
qed simp

lemma read_members_render:
  assumes "\<And>x n r. x \<in> snd ` set kvs \<Longrightarrow> length (render x) \<le> n \<Longrightarrow> stops r \<Longrightarrow> read_value n (render x @ r) = Some (x, r)"
    and "kvs \<noteq> []" "length (json_sep (map (\<lambda>(k, v). json_string k @ '':'' @ render v) kvs)) < n"
  shows "read_members n (json_sep (map (\<lambda>(k, v). json_string k @ '':'' @ render v) kvs) @ CHR ''}'' # r) = Some (kvs, r)"
  using assms
proof (induction kvs arbitrary: n)
  case (Cons kv kvs)
  obtain k v where kv: "kv = (k, v)" by (cases kv)
  obtain m where n: "n = Suc m" using Cons.prems(3) by (cases n) auto
  let ?more = "json_sep (map (\<lambda>(k, v). json_string k @ '':'' @ render v) kvs) @ CHR ''}'' # r"
  show ?case
  proof (cases "kvs = []")
    case True
    then show ?thesis
      using Cons.prems(1) [of v m "CHR ''}'' # r"] Cons.prems(3) n kv read_json_string [of k]
      by (simp add: json_string_def jq_def)
  next
    case False
    have "read_members m ?more = Some (kvs, r)"
      using Cons.prems(3) False n kv by (intro Cons.IH Cons.prems(1)) (auto simp: json_sep_Cons)
    then show ?thesis
      using Cons.prems(1) [of v m "CHR '','' # ?more"] Cons.prems(3) False n kv read_json_string [of k]
      by (simp add: json_sep_Cons json_string_def jq_def)
  qed
qed simp

lemma read_value_render:
  "json_ok v \<Longrightarrow> length (render v) \<le> n \<Longrightarrow> stops r \<Longrightarrow> read_value n (render v @ r) = Some (v, r)"
proof (induction v arbitrary: n r)
  case (JStr s)
  then show ?case using read_json_string [of s] by (cases n) (auto simp: json_string_def jq_def)
next
  case (JNum t)
  then obtain c u m where t: "t = c # u" "n = Suc m" by (cases t; cases n) auto
  have "takeWhile num_char (u @ r) = u" "dropWhile num_char (u @ r) = r"
    using JNum.prems(1,3) t(1) by (auto simp: stops_def list_all_iff takeWhile_append2 dropWhile_append2 takeWhile_eq_Nil_iff dropWhile_eq_self_iff)
  then show ?case using JNum.prems(1) t num_not_special [of c] by auto
next
  case (JBool b)
  then show ?case by (cases n; cases b) (auto simp: json_bool_def num_char_def is_digit_def)
next
  case (JList xs)
  obtain m where n: "n = Suc m" using JList.prems(2) by (cases n) auto
  show ?case
  proof (cases "xs = []")
    case False
    then obtain x ys where xs: "xs = x # ys" by (cases xs) auto
    obtain c t where c: "render x = c # t" "c \<noteq> CHR '']''" using render_start [of x] JList.prems(1) xs by auto
    have "take 1 (json_sep (map render xs) @ CHR '']'' # r) \<noteq> '']''"
      using xs c by (cases ys) auto
    moreover have "read_list m (json_sep (map render xs) @ CHR '']'' # r) = Some (xs, r)"
      by (rule read_list_render) (use JList False n in auto)
    ultimately show ?thesis using n by simp
  qed (simp add: n)
next
  case (JObj kvs)
  obtain m where n: "n = Suc m" using JObj.prems(2) by (cases n) auto
  show ?case
  proof (cases "kvs = []")
    case False
    have "take 1 (json_sep (map (\<lambda>(k, v). json_string k @ '':'' @ render v) kvs) @ CHR ''}'' # r) \<noteq> ''}''"
      using False by (cases kvs; cases "tl kvs") (auto simp: json_string_def jq_def)
    moreover have "read_members m (json_sep (map (\<lambda>(k, v). json_string k @ '':'' @ render v) kvs) @ CHR ''}'' # r) = Some (kvs, r)"
      by (rule read_members_render) (use JObj False n in auto)
    ultimately show ?thesis using n by simp
  qed (simp add: n)
qed

lemma read_json_render: "json_ok v \<Longrightarrow> read_json (render v) = Some v"
  using read_value_render [of v "length (render v)" "[]"] by (simp add: read_json_def)

section \<open>The values the engine writes\<close>

definition rowset_value :: "rowset \<Rightarrow> json" where
  "rowset_value rs = JObj
     [(''ok'', JBool True), (''type'', JStr ''SELECT''), (''columns'', JList (map JStr (rs_col_names rs))),
      (''rows'', JList (map (\<lambda>r. JList (map JStr r)) (rs_rows rs))),
      (''row_count'', JNum (show_int (int (length (rs_rows rs)))))]"

definition status_value :: "parsed_sql \<Rightarrow> bool \<Rightarrow> string \<Rightarrow> json" where
  "status_value sql ok action = JObj
     ([(''ok'', JBool ok), (''type'', JStr (query_type_name (sql_type sql))), (''table'', JStr (sql_table sql)),
       (''action'', JStr action)] @ (if ok then [] else [(''error'', JStr ''storage operation failed'')]))"

definition error_value :: "string \<Rightarrow> json" where
  "error_value message = JObj [(''ok'', JBool False), (''error'', JStr message)]"

lemma json_ok_show_int [simp]: "json_ok (JNum (show_int n))"
  using show_nat_digits by (auto simp: show_int_def num_char_def list_all_iff)

lemma json_ok_values [simp]: "json_ok (rowset_value rs)" "json_ok (status_value sql ok action)" "json_ok (error_value m)"
  using json_ok_show_int by (auto simp: rowset_value_def status_value_def error_value_def simp del: json_ok.simps(1))

lemma render_rows: "map (\<lambda>r. ''['' @ json_sep (map json_string r) @ '']'') rows = map render (map (\<lambda>r. JList (map JStr r)) rows)"
  by (simp add: comp_def)

lemma append_rowset_render: "append_rowset_json rs = render (rowset_value rs)"
  by (simp add: append_rowset_json_def rowset_value_def json_key_def json_string_def [of "''ok''"] json_string_def [of "''type''"]
      json_string_def [of "''SELECT''"] json_string_def [of "''columns''"] json_string_def [of "''rows''"]
      json_string_def [of "''row_count''"] jq_def json_bool_def comp_def)

lemma append_status_render: "append_status_json sql ok action = render (status_value sql ok action)"
  by (simp add: append_status_json_def status_value_def json_key_def json_string_def [of "''ok''"] json_string_def [of "''type''"]
      json_string_def [of "''table''"] json_string_def [of "''action''"] json_string_def [of "''error''"]
      json_string_def [of "''storage operation failed''"] jq_def)

lemma append_error_render: "append_error_json m = render (error_value m)"
  by (simp add: append_error_json_def error_value_def json_key_def json_string_def [of "''ok''"]
      json_string_def [of "''error''"] jq_def json_bool_def)

lemmas engine_texts = append_rowset_render append_status_render append_error_render

text \<open>C29: the JSON of a result set is well formed whatever the column names and cells hold, and
  reading it gives back exactly the names, the cells and the number of rows.\<close>

theorem rowset_json_roundtrip:
  "read_json (append_rowset_json rs) = Some (JObj
     [(''ok'', JBool True), (''type'', JStr ''SELECT''), (''columns'', JList (map JStr (rs_col_names rs))),
      (''rows'', JList (map (\<lambda>r. JList (map JStr r)) (rs_rows rs))),
      (''row_count'', JNum (show_int (int (length (rs_rows rs)))))])"
  using read_json_render [OF json_ok_values(1), of rs] by (simp add: append_rowset_render rowset_value_def)

text \<open>An outcome's text is that of an object whose first field is its status.\<close>

definition outcome_value :: "outcome \<Rightarrow> json \<Rightarrow> bool" where
  "outcome_value oc v \<longleftrightarrow> oc_json oc = render v \<and> json_ok v \<and> (\<exists>fields. v = JObj ((''ok'', JBool (oc_ok oc)) # fields))"

lemma outcome_value_texts:
  "outcome_value (rows_outcome ix n rs) (rowset_value rs)"
  "outcome_value (text_outcome ok (append_status_json sql ok action)) (status_value sql ok action)"
  "outcome_value (text_outcome False (append_error_json m)) (error_value m)"
  using json_ok_values
  by (simp_all add: outcome_value_def rows_outcome_def text_outcome_def engine_texts,
      simp_all add: rowset_value_def status_value_def error_value_def)

text \<open>An outcome has no text only when the buffer for the rows of a range cannot grow.\<close>

definition has_text :: "outcome \<Rightarrow> bool" where
  "has_text oc \<longleftrightarrow> (\<exists>v. outcome_value oc v)"

lemma has_text_simps [simp]:
  "has_text (rows_outcome ix n rs)" "has_text (text_outcome ok (append_status_json sql ok action))"
  "has_text (text_outcome False (append_error_json m))"
  using outcome_value_texts unfolding has_text_def by blast+

lemma scan_outcome_text [simp]: "has_text (fst (scan_outcome sql en))"
  by (simp add: scan_outcome_def split: prod.split option.split)

lemma trie_outcome_text [simp]: "has_text (fst (trie_outcome sql en))"
  by (simp add: trie_outcome_def Let_def split: prod.split option.split bool.split)

lemma execute_select_text: "has_text (fst (execute_select sql en)) \<or> fst (execute_select sql en) = text_outcome False []"
  by (simp add: execute_select_def Let_def split: prod.split option.split)

lemma run_statement_text: "has_text (fst (run_statement stmt en)) \<or> fst (run_statement stmt en) = text_outcome False []"
  using execute_select_text
  by (simp add: run_statement_def execute_statement_def Let_def write_outcome_def split: option.split query_type.split)

lemma exec_loop_values:
  "exec_loop cursor en = (ocs, en') \<Longrightarrow> list_all (\<lambda>oc. oc_json oc \<noteq> []) ocs \<Longrightarrow> \<exists>vs. list_all2 outcome_value ocs vs"
proof (induction cursor en arbitrary: ocs en' rule: exec_loop.induct)
  case (1 cursor en)
  show ?case
  proof (cases "split_next_statement cursor")
    case (Pair s rest)
    show ?thesis
    proof (cases s)
      case None
      then show ?thesis using 1(2) Pair by (auto simp: exec_loop.simps [of cursor])
    next
      case (Some stmt)
      obtain oc en1 ocs1 en2 where r: "run_statement stmt en = (oc, en1)" "exec_loop rest en1 = (ocs1, en2)" by fastforce
      then have ocs: "ocs = oc # ocs1" using 1(2) Pair Some by (simp add: exec_loop.simps [of cursor])
      then obtain vs where "list_all2 outcome_value ocs1 vs"
        using 1(1) [OF Pair [symmetric] Some r(1) [symmetric] r(2)] 1(3) by auto
      moreover obtain v where "outcome_value oc v"
        using run_statement_text [of stmt en] r(1) ocs 1(3) by (auto simp: has_text_def text_outcome_def)
      ultimately show ?thesis using ocs by blast
    qed
  qed
qed

definition response_value :: "outcome list \<Rightarrow> json list \<Rightarrow> string \<Rightarrow> string \<Rightarrow> json" where
  "response_value ocs vs elapsed wait = JObj
     [(''statements'', JList vs), (''ok'', JBool (ocs \<noteq> [] \<and> list_all oc_ok ocs)),
      (''statement_count'', JNum (show_int (int (length ocs)))), (''index_used'', JBool (list_ex oc_index_used ocs)),
      (''nodes_visited'', JNum (show_int (foldl (\<lambda>m oc. max m (oc_nodes oc)) 0 ocs))),
      (''elapsed_ms'', JNum elapsed), (''lock_wait_ms'', JNum wait)]"

lemma response_render:
  assumes "list_all2 outcome_value ocs vs"
  shows "response_json ocs elapsed wait = render (response_value ocs (if ocs = [] then [error_value ''empty sql''] else vs) elapsed wait)"
proof -
  have "map oc_json ocs = map render vs"
    using assms by (induction ocs vs rule: list_all2_induct) (simp_all add: outcome_value_def)
  then show ?thesis
    by (simp add: response_json_def response_value_def json_key_def append_error_render json_string_def [of "''ok''"]
        json_string_def [of "''statements''"] json_string_def [of "''statement_count''"] json_string_def [of "''index_used''"]
        json_string_def [of "''nodes_visited''"] json_string_def [of "''elapsed_ms''"] json_string_def [of "''lock_wait_ms''"] jq_def)
qed


definition blank_engine :: engine where
  "blank_engine = \<lparr>en_storage = \<lparr>st_files = Map.empty, st_dirs = [], st_append = [], st_schemas = [], st_paths = [],
       st_meta = [], st_rebuilt = [], st_index = []\<rparr>,
     en_trie = None, en_trie_ready = False, en_ready = False, en_total = 0, en_heap = (\<lambda>n text. empty_heap)\<rparr>"


end
