(* ===== verification/Index_Laws.thy ===== *)
theory Index_Laws
  imports Storage_Laws Engine
begin

text \<open>
  The indexes of the engine against the rows a table holds: what \<^verbatim>\<open>storage_ensure_index\<close> puts
  into the id tree and what INSERT adds to it, and that a SELECT answered from the tree or
  from the dictionary trie returns what the full scan returns.
\<close>

section \<open>The id index\<close>

text \<open>The ids and positions that indexing a table inserts, in file order.\<close>

fun id_entries :: "nat \<Rightarrow> int \<Rightarrow> row list \<Rightarrow> (int \<times> int) list" where
  "id_entries c i [] = []"
| "id_entries c i (r # rs) = (if 0 < atoi (r ! c) then [(atoi (r ! c), i)] else []) @ id_entries c (i + 1) rs"

lemma last_write_append: "last_write (xs @ ys) = last_write xs ++ last_write ys"
  by (simp add: last_write_def)

lemma last_write_single [simp]: "last_write [(k, v)] = [k \<mapsto> v]"
  by (simp add: last_write_def)

lemma id_entries_append: "id_entries c i (rs @ [r]) = id_entries c i rs @ id_entries c (i + int (length rs)) [r]"
  by (induction rs arbitrary: i) (simp_all add: algebra_simps)

lemma record_id_line:
  assumes "row_ok schema r" "schema \<noteq> []" "c < length schema"
  shows "record_id c (csv_line r) = Some (atoi (r ! c))"
  using assms row_ok_parse [OF assms(1,2)] by (simp add: record_id_def row_ok_def)

lemma tree_insert_get [simp]: "index_registry_get (tree_insert reg p key row) table = index_registry_get reg table"
  by (simp add: index_registry_get_def tree_insert_def)

lemma index_loop_lookup:
  assumes "list_all (row_ok schema) rows" "schema \<noteq> []" "c < length schema"
    and "registry_inv reg" "index_registry_get reg table = Some slot" "0 \<le> i"
  shows "registry_inv (index_loop c slot i (map csv_line rows) reg) \<and>
    index_registry_get (index_loop c slot i (map csv_line rows) reg) table = Some slot \<and>
    registry_lookup (index_loop c slot i (map csv_line rows) reg) table =
      registry_lookup reg table ++ last_write (id_entries c i rows)"
  using assms
proof (induction rows arbitrary: i reg)
  case (Cons r rows)
  have id: "record_id c (csv_line r) = Some (atoi (r ! c))" using Cons.prems by (intro record_id_line) simp_all
  let ?reg = "if 0 < atoi (r ! c) then tree_insert reg slot (atoi (r ! c)) i else reg"
  have slot: "slot < length reg" using Cons.prems(5) find_index_Some by (auto simp: index_registry_get_def)
  have inv: "registry_inv ?reg" using Cons.prems(4,6) slot by (simp add: registry_inv_tree_insert)
  have get: "index_registry_get ?reg table = Some slot" using Cons.prems(5) by simp
  have look: "registry_lookup ?reg table = registry_lookup reg table ++ last_write (id_entries c i [r])"
    using tree_insert_lookup [OF Cons.prems(4,5,6)] by (auto simp: fun_eq_iff map_add_def)
  have "id_entries c i (r # rows) = id_entries c i [r] @ id_entries c (i + 1) rows" by simp
  then show ?case
    using Cons.IH [OF _ Cons.prems(2,3) inv get, of "i + 1"] Cons.prems(1,6) look id
    by (simp add: last_write_append map_add_assoc)
qed simp

definition no_bin :: "storage \<Rightarrow> string \<Rightarrow> bool" where
  "no_bin s table \<longleftrightarrow> (case build_bin_path table of None \<Rightarrow> True | Some b \<Rightarrow> st_files s b = None)"

text \<open>The tree of a table maps every id to the last row that has it.\<close>

definition indexed :: "storage \<Rightarrow> string \<Rightarrow> nat \<Rightarrow> row list \<Rightarrow> bool" where
  "indexed s table c rows \<longleftrightarrow> registry_inv (st_index s) \<and> index_registry_get (st_index s) table \<noteq> None \<and>
     registry_lookup (st_index s) table = last_write (id_entries c 0 rows)"

text \<open>A table that SELECT can serve: not indexed yet, or indexed and marked so.\<close>

definition served :: "storage \<Rightarrow> string \<Rightarrow> nat \<Rightarrow> row list \<Rightarrow> bool" where
  "served s table c rows \<longleftrightarrow> no_bin s table \<and>
     (if table \<in> set (st_rebuilt s) then indexed s table c rows
      else registry_inv (st_index s) \<and> index_registry_get (st_index s) table = None \<and>
        length (st_index s) < registry_max_tables)"

lemma meta_store_index [simp]: "st_index (meta_store t a b s) = st_index s" "st_files (meta_store t a b s) = st_files s"
  "holds (meta_store t a b s) table sp tp schema rows = holds s table sp tp schema rows"
  by (simp_all add: meta_store_def set_meta_def split: option.split)

lemma mark_rebuilt_index [simp]: "st_index (mark_rebuilt t s) = st_index s" "st_files (mark_rebuilt t s) = st_files s"
  "holds (mark_rebuilt t s) table sp tp schema rows = holds s table sp tp schema rows"
  by (simp_all add: mark_rebuilt_def)

lemma find_schema_bound: "find_schema_index schema n = Some c \<Longrightarrow> c < length schema"
  by (simp add: find_schema_index_def find_idx_length)

lemma ensure_index_served:
  assumes h: "holds s table sp tp schema rows" and c: "find_schema_index schema ''id'' = Some c"
    and served: "served s table c rows"
  shows "holds (storage_ensure_index table s) table sp tp schema rows \<and>
    indexed (storage_ensure_index table s) table c rows \<and> no_bin (storage_ensure_index table s) table"
proof (cases "table \<in> set (st_rebuilt s)")
  case True
  then show ?thesis using assms by (simp add: storage_ensure_index_def served_def)
next
  case False
  note H = h [unfolded holds_def]
  from holds_open [OF h] obtain s1 s2 where o: "build_schema_path table s = (Some sp, s1)"
    "build_table_path table s1 = (Some tp, s2)" "holds s2 table sp tp schema rows" "s2 = s\<lparr>st_paths := st_paths s2\<rparr>" by blast
  from schema_cache_holds [OF o(3)] obtain s3 where s3: "storage_schema_cache_get sp s2 = (Some schema, s3)"
    "holds s3 table sp tp schema rows" "s3 = s2\<lparr>st_schemas := st_schemas s3\<rparr>" by blast
  have "st_index s2 = st_index s" "st_files s2 = st_files s" by (subst o(4), simp)+
  moreover have "st_index s3 = st_index s2" "st_files s3 = st_files s2" by (subst s3(3), simp)+
  ultimately have same: "st_index s3 = st_index s" "st_files s3 = st_files s" by simp_all
  have reg: "registry_inv (st_index s)" "index_registry_get (st_index s) table = None"
    "length (st_index s) < registry_max_tables" "no_bin s table"
    using served False by (simp_all add: served_def)
  have create: "bptree_create 128 = Some (bp_empty 128)" using bp_empty_create [of 128] by simp
  have "find_index (st_index s) table = None" using reg(2) by (simp add: index_registry_get_def)
  then obtain slot reg' where slot: "index_registry_get_or_create (st_index s3) table 128 = (Some slot, reg')"
    using reg(3) H create by (simp add: index_registry_get_or_create_def same registry_name_max_def)
  have reg': "registry_inv reg'" "index_registry_get reg' table = Some slot" "registry_lookup reg' = registry_lookup (st_index s)"
    using registry_inv_create [OF reg(1), of table] get_or_create_slot [of "st_index s3" table slot reg'] slot same(1) by simp_all
  have none: "registry_lookup reg' table = Map.empty"
    using reg(2) unfolding reg'(3) by (simp add: registry_lookup_def fun_eq_iff)
  let ?reg = "index_loop c slot 0 (map csv_line rows) reg'"
  have recs: "csv_records (file_of rows) = map csv_line rows" using read_file [of schema rows] H by simp
  have bin: "(case build_bin_path table of Some b \<Rightarrow> if path_exists (s3\<lparr>st_index := reg'\<rparr>) b then st_files (s3\<lparr>st_index := reg'\<rparr>) b else None
      | None \<Rightarrow> None) = None"
    using reg(4) same(2) by (auto simp: no_bin_def path_exists_def split: option.splits)
  have e: "storage_ensure_index table s = mark_rebuilt table (meta_store table
      (wrap32 (max_id_loop c (map csv_line rows) 0 + 1)) (int (length rows)) (s3\<lparr>st_index := ?reg\<rparr>))"
    using False H o(1,2) s3(1) c slot bin same recs
    by (simp add: storage_ensure_index_def fill_index_def)
  have "registry_inv ?reg \<and> index_registry_get ?reg table = Some slot \<and> registry_lookup ?reg table = last_write (id_entries c 0 rows)"
    using index_loop_lookup [of schema rows c reg' table slot 0] H find_schema_bound [OF c] reg'(1,2) none by simp
  then show ?thesis
    using e s3(2) reg(4) same(2) by (auto simp: indexed_def no_bin_def split: option.splits)
qed

section \<open>Rows by number\<close>

lemma load_row_loop_file:
  "list_all (row_ok schema) rows \<Longrightarrow> schema \<noteq> [] \<Longrightarrow>
   load_row_loop (length schema) i (file_of rows) = Some (if i < length rows then [rows ! i] else [])"
proof (induction rows arbitrary: i)
  case Nil
  have "read_csv_record [] = Csv_eof" by (simp add: read_csv_record_def)
  then show ?case by (subst load_row_loop.simps) (simp add: file_of_def)
next
  case (Cons r rows)
  have "read_csv_record (file_of (r # rows)) = Csv_record (csv_line r) (file_of rows)"
    using Cons.prems read_csv_row [of r "file_of rows"] by (simp add: file_of_def row_ok_def list_all_iff)
  moreover have "parse_csv_record (csv_line r) = Some r" "length r = length schema"
    using Cons.prems row_ok_parse [of schema r] by (simp_all add: row_ok_def)
  ultimately show ?case using Cons by (subst load_row_loop.simps) (auto simp: nth_Cons')
qed

lemma holds_row:
  assumes "holds s table sp tp schema rows"
  shows "load_row_at_index s tp (length schema) i = Some (if 0 \<le> i \<and> i < int (length rows) then [rows ! nat i] else [])"
  using assms load_row_loop_file [of schema rows "nat i"] by (auto simp: holds_def load_row_at_index_def nat_less_iff)

lemma holds_open_table:
  assumes "holds s table sp tp schema rows"
  shows "\<exists>s'. open_table table s = (Some (tp, schema), s') \<and> holds s' table sp tp schema rows \<and> st_files s' = st_files s"
proof -
  from holds_open [OF assms] obtain s1 s2 where o: "build_schema_path table s = (Some sp, s1)"
    "build_table_path table s1 = (Some tp, s2)" "holds s2 table sp tp schema rows" "s2 = s\<lparr>st_paths := st_paths s2\<rparr>" by blast
  have "st_files s2 = st_files s" by (subst o(4)) simp
  then show ?thesis using o(1-3) assms by (auto simp: open_table_def holds_def)
qed

text \<open>The two lookups by row number are the selection and what follows it.\<close>

lemma select_by_row_index:
  assumes "holds s table sp tp schema rows"
  shows "fst (storage_select_result_by_row_index table sql i s) =
      finish_select sql schema (if 0 \<le> i \<and> i < int (length rows) then [rows ! nat i] else []) \<and>
    holds (snd (storage_select_result_by_row_index table sql i s)) table sp tp schema rows"
proof -
  from holds_open_table [OF assms] obtain s' where "open_table table s = (Some (tp, schema), s')"
    "holds s' table sp tp schema rows" by blast
  then show ?thesis
    using holds_row [of s' table sp tp schema rows i] by (simp add: storage_select_result_by_row_index_def)
qed

lemma select_by_row_indices:
  assumes "holds s table sp tp schema rows" "no_bin s table"
  shows "fst (storage_select_result_by_row_indices table sql is s) = finish_select sql schema (rows_at rows is) \<and>
    holds (snd (storage_select_result_by_row_indices table sql is s)) table sp tp schema rows"
proof -
  from holds_open_table [OF assms(1)] obtain s' where o: "open_table table s = (Some (tp, schema), s')"
    "holds s' table sp tp schema rows" "st_files s' = st_files s" by blast
  have "(case build_bin_path table of Some b \<Rightarrow> if path_exists s' b then load_binary_rows_by_indices s' b schema is else None
      | None \<Rightarrow> None) = None"
    using assms(2) o(3) by (auto simp: no_bin_def path_exists_def split: option.splits)
  then show ?thesis
    using o(1,2) holds_load [OF o(2)] by (simp add: storage_select_result_by_row_indices_def)
qed

section \<open>Integer literals\<close>

lemma rev_drop_last: "s \<noteq> [] \<Longrightarrow> \<not> is_space (last s) \<Longrightarrow> rev (dropWhile is_space (rev s)) = s"
  by (cases s rule: rev_cases) auto

lemma dropWhile_twice: "dropWhile p (dropWhile p s) = dropWhile p s"
  by (induction s) auto

lemma strtol_digit_end:
  assumes "strtol s = Some (v, [], e)"
  shows "dropWhile is_space s \<noteq> [] \<and> \<not> is_space (last (dropWhile is_space s))"
proof -
  define t where "t = dropWhile is_space s"
  define u where "u = (if t \<noteq> [] \<and> (hd t = CHR ''-'' \<or> hd t = CHR ''+'') then tl t else t)"
  have d: "takeWhile is_digit u \<noteq> []" "dropWhile is_digit u = []"
    using assms unfolding strtol_def Let_def t_def [symmetric] u_def [symmetric] by (simp_all split: if_splits)
  then have "u \<noteq> []" "\<forall>c \<in> set u. is_digit c" by auto
  then have "is_digit (last u)" by simp
  moreover have "t \<noteq> []" "last u = last t"
    using \<open>u \<noteq> []\<close> by (auto simp: u_def last_tl split: if_splits)
  ultimately show ?thesis using digit_not_space unfolding t_def by metis
qed

text \<open>A literal the scan accepts is read alike for the index.\<close>

lemma parse_int_literal_long:
  assumes "parse_long_value (strip_quotes 255 v) = Some k" "int_min \<le> k" "k \<le> int_max"
  shows "parse_int_literal v = Some k"
proof -
  let ?s = "strip_quotes 255 v"
  have s: "strtol ?s = Some (k, [], False)"
    using assms(1) by (auto simp: parse_long_value_def split: option.splits if_splits)
  have "trim_ws ?s = dropWhile is_space ?s"
    using strtol_digit_end [OF s] rev_drop_last by (simp add: trim_ws_def)
  moreover have "strtol (dropWhile is_space ?s) = strtol ?s" by (simp add: strtol_def dropWhile_twice)
  ultimately show ?thesis using s assms(2,3) by (simp add: parse_int_literal_def)
qed

section \<open>Point lookups\<close>

text \<open>Every id cell is a positive integer, and no two rows have the same id.\<close>

definition good_ids :: "nat \<Rightarrow> row list \<Rightarrow> bool" where
  "good_ids c rows \<longleftrightarrow>
     list_all (\<lambda>r. case parse_long_value (r ! c) of None \<Rightarrow> False | Some k \<Rightarrow> 0 < k \<and> k \<le> int_max) rows \<and>
     distinct (map (\<lambda>r. atoi (r ! c)) rows)"

lemma good_id_cell:
  assumes "good_ids c rows" "r \<in> set rows"
  shows "parse_long_value (r ! c) = Some (atoi (r ! c)) \<and> 0 < atoi (r ! c)"
proof -
  obtain k where k: "parse_long_value (r ! c) = Some k" "0 < k" "k \<le> int_max"
    using assms by (auto simp: good_ids_def list_all_iff split: option.splits)
  then have "atoi (r ! c) = k"
    by (auto simp: parse_long_value_def atoi_def wrap32_id int_min_def split: option.splits if_splits)
  then show ?thesis using k by simp
qed

lemma last_write_entries:
  "good_ids c rows \<Longrightarrow> last_write (id_entries c i rows) k =
     map_option (\<lambda>j. i + int j) (find_idx (\<lambda>r. atoi (r ! c) = k) rows)"
proof (induction rows arbitrary: i)
  case (Cons r rows)
  have pos: "0 < atoi (r ! c)" using good_id_cell [OF Cons.prems] by simp
  have IH: "last_write (id_entries c (i + 1) rows) k = map_option (\<lambda>j. i + 1 + int j) (find_idx (\<lambda>r. atoi (r ! c) = k) rows)"
    using Cons by (simp add: good_ids_def)
  have "find_idx (\<lambda>r. atoi (r ! c) = k) rows = None" if "atoi (r ! c) = k"
    using Cons.prems that unfolding find_idx_None good_ids_def by (auto simp: image_iff)
  moreover have "last_write ((atoi (r ! c), i) # id_entries c (i + 1) rows) = [atoi (r ! c) \<mapsto> i] ++ last_write (id_entries c (i + 1) rows)"
    using last_write_append [of "[(atoi (r ! c), i)]"] by simp
  ultimately show ?case
    using pos IH by (auto simp: map_add_def option.map_comp comp_def algebra_simps split: option.split)
qed simp

lemma filter_id:
  "distinct (map f rows) \<Longrightarrow> filter (\<lambda>r. f r = k) rows = (case find_idx (\<lambda>r. f r = k) rows of None \<Rightarrow> [] | Some j \<Rightarrow> [rows ! j])"
proof (induction rows)
  case (Cons r rows)
  have none: "filter (\<lambda>r. f r = k) rows = []" "find_idx (\<lambda>r. f r = k) rows = None" if "f r = k"
    using that Cons.prems by (auto simp: filter_empty_conv find_idx_None image_iff)
  then show ?case using Cons none by (cases "f r = k") (simp_all split: option.split)
qed simp

text \<open>The row the tree gives for an id is the row the scan selects.\<close>

lemma search_lookup: "index_registry_get reg table = Some slot \<Longrightarrow>
  bptree_search (tree_at reg slot) key = (case registry_lookup reg table key of None \<Rightarrow> -1 | Some i \<Rightarrow> i)"
  by (simp add: registry_lookup_def bp_lookup_def Let_def)

lemma id_row_selected:
  assumes "indexed s table c rows" "good_ids c rows" "index_registry_get (st_index s) table = Some slot"
  shows "(let i = bptree_search (tree_at (st_index s) slot) k in if 0 \<le> i \<and> i < int (length rows) then [rows ! nat i] else [])
    = filter (\<lambda>r. atoi (r ! c) = k) rows"
proof -
  have "bptree_search (tree_at (st_index s) slot) k =
      (case find_idx (\<lambda>r. atoi (r ! c) = k) rows of None \<Rightarrow> -1 | Some j \<Rightarrow> int j)"
    using assms(1) last_write_entries [OF assms(2), of 0 k]
    by (simp add: search_lookup [OF assms(3)] indexed_def split: option.split)
  moreover have "filter (\<lambda>r. atoi (r ! c) = k) rows = (case find_idx (\<lambda>r. atoi (r ! c) = k) rows of None \<Rightarrow> [] | Some j \<Rightarrow> [rows ! j])"
    using assms(2) by (intro filter_id) (simp add: good_ids_def)
  ultimately show ?thesis
    by (auto split: option.split dest: find_idx_length)
qed

lemma find_schema_ieq: "ieq a b \<Longrightarrow> find_schema_index schema a = find_schema_index schema b"
  unfolding find_schema_index_def by (rule arg_cong [of _ _ "\<lambda>p. find_idx p schema"]) (auto simp: fun_eq_iff ieq_iff)

lemma id_condition_matches:
  assumes "find_schema_index schema ''id'' = Some c" "cd_type (schema ! c) = TYPE_INT" "good_ids c rows"
    and "list_all (row_ok schema) rows" "r \<in> set rows" "ieq (w_column w) ''id''" "w_op w = ''=''"
    and "parse_long_value (strip_quotes 255 (w_value w)) = Some k"
  shows "evaluate_select_clause schema r w = Some (atoi (r ! c) = k)"
proof -
  have c: "find_schema_index schema (w_column w) = Some c" using assms(1) find_schema_ieq [OF assms(6)] by simp
  moreover have "c < length r" using find_schema_bound [OF assms(1)] assms(4,5) by (auto simp: list_all_iff row_ok_def)
  ultimately show ?thesis
    using assms(2,7,8) good_id_cell [OF assms(3,5)]
    by (auto simp: evaluate_select_clause_def is_supported_operator_def compare_ordering_result_def cmp_int_def Let_def)
qed

text \<open>The scan that \<^verbatim>\<open>execute_select\<close> ends with, on a held table.\<close>

lemma scan_outcome_holds:
  assumes "holds (en_storage en) (sql_table sql) sp tp schema rows"
  shows "fst (scan_outcome sql en) = (case select_rows schema sql rows of
       None \<Rightarrow> text_outcome False (append_status_json sql False ''select'')
     | Some rs \<Rightarrow> rows_outcome False 0 rs)"
  using select_holds [OF assms, of sql]
  by (cases "storage_select_result (sql_table sql) sql (en_storage en)") (simp add: scan_outcome_def split: option.split)

text \<open>Once an index route has failed, the trie does not apply to a condition on the id.\<close>

lemma id_not_prefix: "should_use_id_index sql \<or> should_use_id_range sql \<Longrightarrow> should_use_trie_prefix sql = None"
proof -
  assume a: "should_use_id_index sql \<or> should_use_id_range sql"
  then obtain w where w: "sql_where sql = [w]" "ieq (w_column w) ''id''"
    by (auto simp: should_use_id_index_def should_use_id_range_def split: list.splits)
  have "\<not> ieq (w_column w) ''english''"
    using ieq_length [OF w(2)] ieq_length [of "w_column w" "''english''"] by auto
  then show ?thesis using w(1) by (simp add: should_use_trie_prefix_def)
qed

lemma trie_outcome_scan: "should_use_trie_prefix sql = None \<Longrightarrow> trie_outcome sql en = scan_outcome sql en"
  by (simp add: trie_outcome_def)

lemma id_select_rows:
  assumes "sql_where sql = [w]" "find_schema_index schema (w_column w) \<noteq> None"
    and "\<And>r. r \<in> set rows \<Longrightarrow> evaluate_select_clause schema r w = Some (P r)"
  shows "select_rows schema sql rows = finish_select sql schema (filter P rows)"
proof -
  have m: "row_matches_delete schema r sql = Some (P r)" if "r \<in> set rows" for r
    using assms(1,3) that by (simp add: row_matches_delete_def)
  then have "filter (\<lambda>r. row_matches_delete schema r sql = Some True) rows = filter P rows"
    by (intro filter_cong) auto
  moreover have "\<not> list_ex (\<lambda>r. row_matches_delete schema r sql = None) rows"
    using m by (auto simp: list_ex_iff)
  ultimately show ?thesis using assms(1,2) by (auto simp: select_rows_def)
qed

text \<open>C7: a point lookup through the B+ tree answers like the full scan: for a table whose id
  cells are distinct positive integers, \<^verbatim>\<open>WHERE id = k\<close> gives, whether the index is built by
  this statement or was built before, the same status and the same JSON as reading and
  testing every row, and the index is used whenever the statement succeeds.\<close>

theorem point_lookup_is_scan:
  assumes "holds (en_storage en) (sql_table sql) sp tp schema rows"
    and "find_schema_index schema ''id'' = Some c" "cd_type (schema ! c) = TYPE_INT" "good_ids c rows"
    and "served (en_storage en) (sql_table sql) c rows" "should_use_id_index sql"
    and "parse_long_value (strip_quotes 255 (w_value (sql_where sql ! 0))) = Some k" "int_min \<le> k" "k \<le> int_max"
  shows "oc_ok (fst (execute_select sql en)) = oc_ok (fst (scan_outcome sql en)) \<and>
    oc_json (fst (execute_select sql en)) = oc_json (fst (scan_outcome sql en)) \<and>
    oc_index_used (fst (execute_select sql en)) = oc_ok (fst (scan_outcome sql en))"
proof -
  let ?t = "sql_table sql" and ?s = "storage_ensure_index (sql_table sql) (en_storage en)"
  have e: "holds ?s ?t sp tp schema rows" "indexed ?s ?t c rows"
    using ensure_index_served [OF assms(1,2,5)] by simp_all
  then obtain slot where slot: "index_registry_get (st_index ?s) ?t = Some slot" by (auto simp: indexed_def)
  obtain w where w: "sql_where sql = [w]" "ieq (w_column w) ''id''" "w_op w = ''=''"
    using assms(6) by (auto simp: should_use_id_index_def split: list.splits)
  have range: "\<not> should_use_id_range sql" using w by (simp add: should_use_id_range_def)
  have key: "parse_int_literal (w_value w) = Some k" using parse_int_literal_long assms(7-9) w(1) by simp
  have sel: "select_rows schema sql rows = finish_select sql schema (filter (\<lambda>r. atoi (r ! c) = k) rows)"
    using assms(1-4,7) w by (intro id_select_rows [OF w(1)] id_condition_matches)
      (simp_all add: find_schema_ieq [OF w(2)] holds_def)
  let ?i = "bptree_search (tree_at (st_index ?s) slot) k"
  obtain s' where s': "storage_select_result_by_row_index ?t sql ?i ?s = (select_rows schema sql rows, s')"
    "holds s' ?t sp tp schema rows"
    using select_by_row_index [OF e(1), of sql ?i] id_row_selected [OF e(2) assms(4) slot, of k]
    by (cases "storage_select_result_by_row_index ?t sql ?i ?s") (simp add: sel Let_def)
  have after: "fst (scan_outcome sql (en\<lparr>en_storage := s'\<rparr>)) = fst (scan_outcome sql en)"
    using scan_outcome_holds [of "en\<lparr>en_storage := s'\<rparr>" sql] s'(2) scan_outcome_holds [OF assms(1)] by simp
  have "execute_select sql en = (case select_rows schema sql rows of
      Some rs \<Rightarrow> (rows_outcome True 1 rs, en\<lparr>en_storage := s'\<rparr>) | None \<Rightarrow> scan_outcome sql (en\<lparr>en_storage := s'\<rparr>))"
    using range assms(6) slot key w(1) s'(1) id_not_prefix [of sql]
    by (simp add: execute_select_def Let_def trie_outcome_scan split: option.split)
  then show ?thesis
    using scan_outcome_holds [OF assms(1)] after
    by (simp add: rows_outcome_def text_outcome_def split: option.splits)
qed

definition small_engine :: engine where
  "small_engine = \<lparr>en_storage = small, en_trie = None, en_trie_ready = False, en_ready = True, en_total = 0,
     en_heap = (\<lambda>n text. empty_heap)\<rparr>"

definition by_id :: parsed_sql where
  "by_id = \<lparr>sql_type = QUERY_SELECT, sql_table = ''t'', sql_columns = [''name''], sql_values = [],
     sql_where = [\<lparr>w_column = ''ID'', w_op = ''='', w_value = ''2'', w_value_to = []\<rparr>], sql_where_logic = [],
     sql_where_links = [], sql_order_by = None, sql_limit = -1, sql_set = [], sql_col_defs = []\<rparr>"

lemma small_served: "served (en_storage small_engine) ''t'' 0 two_rows"
  by (simp add: served_def small_engine_def small_def registry_max_tables_def index_registry_get_def
      find_index_def no_bin_def build_bin_path_def Let_def)

theorem point_lookup_is_scan_witness:
  "oc_index_used (fst (execute_select by_id small_engine)) \<and>
   oc_json (fst (execute_select by_id small_engine)) = append_rowset_json \<lparr>rs_col_names = [''name''], rs_rows = [[''lee'']]\<rparr>"
proof -
  have h: "holds (en_storage small_engine) (sql_table by_id) ''data/schema/t.schema'' ''data/tables/t.csv'' two_columns two_rows"
    using small_holds by (simp add: small_engine_def by_id_def)
  have side: "find_schema_index two_columns ''id'' = Some 0" "cd_type (two_columns ! 0) = TYPE_INT" "good_ids 0 two_rows"
    "should_use_id_index by_id" "parse_long_value (strip_quotes 255 (w_value (sql_where by_id ! 0))) = Some 2"
    "int_min \<le> 2" "(2 :: int) \<le> int_max"
    by code_simp+
  have "oc_ok (fst (scan_outcome by_id small_engine))"
    "oc_json (fst (scan_outcome by_id small_engine)) = append_rowset_json \<lparr>rs_col_names = [''name''], rs_rows = [[''lee'']]\<rparr>"
    by code_simp+
  then show ?thesis using point_lookup_is_scan [OF h side(1-3) _ side(4-7)] small_served by (simp add: by_id_def)
qed

section \<open>Range lookups\<close>

lemma range_rows_all:
  assumes "bp_rows_ok t" "lo \<le> hi"
    and "int (length (filter (\<lambda>e. lo \<le> fst e \<and> fst e \<le> hi) (bp_contents t))) \<le> int_max div 2" "0 < capacity"
  shows "range_rows t lo hi capacity = Some (map snd (filter (\<lambda>e. lo \<le> fst e \<and> fst e \<le> hi) (bp_contents t)))"
  using assms(4)
proof (induction "nat (int_max - capacity)" arbitrary: capacity rule: less_induct)
  case less
  let ?all = "map snd (filter (\<lambda>e. lo \<le> fst e \<and> fst e \<le> hi) (bp_contents t))"
  have r: "bptree_range t lo hi capacity = Some (take (nat capacity) ?all)"
    by (rule bp.range_items [OF assms(1,2)])
  show ?case
  proof (cases "int (length ?all) < capacity")
    case True
    then show ?thesis using r by (subst range_rows.simps) simp
  next
    case False
    then have "capacity \<le> int_max div 2" using assms(3) by simp
    moreover from this less.prems have "nat (int_max - capacity * 2) < nat (int_max - capacity)"
      by (simp add: int_max_def)
    ultimately show ?thesis
      using r False less by (subst range_rows.simps) (simp add: min_def)
  qed
qed

lemma parse_int_literal_bounds: "parse_int_literal v = Some k \<Longrightarrow> int_min \<le> k \<and> k \<le> int_max"
  by (auto simp: parse_int_literal_def Let_def split: option.splits if_splits)

text \<open>The entries of a table's tree are its rows' ids with their positions.\<close>

lemma indexed_tree_ok:
  assumes "indexed s table c rows" "index_registry_get (st_index s) table = Some slot"
  shows "bp_rows_ok (tree_at (st_index s) slot)"
proof -
  have "slot < length (st_index s)" using assms(2) find_index_Some by (auto simp: index_registry_get_def)
  then show ?thesis using assms(1) by (auto simp: indexed_def registry_inv_def tree_at_def)
qed

lemma find_id:
  assumes "distinct (map f rows)"
  shows "find_idx (\<lambda>r. f r = k) rows = Some j \<longleftrightarrow> j < length rows \<and> f (rows ! j) = k"
proof
  assume "find_idx (\<lambda>r. f r = k) rows = Some j"
  then show "j < length rows \<and> f (rows ! j) = k" using find_idx_Some by fastforce
next
  assume j: "j < length rows \<and> f (rows ! j) = k"
  then have "find_idx (\<lambda>r. f r = k) rows \<noteq> None"
    unfolding find_idx_None using nth_mem [of j rows] by blast
  then obtain i where i: "find_idx (\<lambda>r. f r = k) rows = Some i" by blast
  then have "i < length rows" "f (rows ! i) = f (rows ! j)" using find_idx_Some j by fastforce+
  then have "i = j" using nth_eq_iff_index_eq [OF assms, of i j] j by simp
  then show "find_idx (\<lambda>r. f r = k) rows = Some j" using i by simp
qed

lemma tree_entry:
  assumes "indexed s table c rows" "good_ids c rows" "index_registry_get (st_index s) table = Some slot"
  shows "(k, v) \<in> set (bp_contents (tree_at (st_index s) slot)) \<longleftrightarrow>
    (\<exists>j < length rows. v = int j \<and> atoi (rows ! j ! c) = k)"
proof -
  let ?t = "tree_at (st_index s) slot"
  have ok: "bp_rows_ok ?t" by (rule indexed_tree_ok [OF assms(1,3)])
  have "registry_lookup (st_index s) table k = last_write (id_entries c 0 rows) k"
    using assms(1) by (simp add: indexed_def)
  then have "map_of (bp_contents ?t) k = last_write (id_entries c 0 rows) k"
    using assms(3) bp.items_lookup [OF ok, of k] by (simp add: registry_lookup_def)
  then have "map_of (bp_contents ?t) k = map_option int (find_idx (\<lambda>r. atoi (r ! c) = k) rows)"
    using last_write_entries [OF assms(2), of 0 k] by simp
  moreover have "distinct (map fst (bp_contents ?t))" using bp.items_sorted [OF ok] by (simp add: strict_sorted_iff)
  ultimately have "(k, v) \<in> set (bp_contents ?t) \<longleftrightarrow> map_option int (find_idx (\<lambda>r. atoi (r ! c) = k) rows) = Some v"
    by (metis map_of_eq_Some_iff)
  then show ?thesis
    using find_id [of "\<lambda>r. atoi (r ! c)" rows k] assms(2) by (auto simp: good_ids_def)
qed

text \<open>The rows the tree gives for a range, in the order of their ids.\<close>

lemma range_rows_selected:
  assumes "indexed s table c rows" "good_ids c rows" "index_registry_get (st_index s) table = Some slot"
    and "lo \<le> hi" "int (length rows) \<le> int_max div 2"
  shows "\<exists>is. range_rows (tree_at (st_index s) slot) lo hi 16 = Some is \<and>
    rows_at rows is = sort_key (\<lambda>r. atoi (r ! c)) (filter (\<lambda>r. lo \<le> atoi (r ! c) \<and> atoi (r ! c) \<le> hi) rows)"
proof -
  let ?t = "tree_at (st_index s) slot" and ?id = "\<lambda>r. atoi (r ! c)"
  let ?es = "filter (\<lambda>e. lo \<le> fst e \<and> fst e \<le> hi) (bp_contents ?t)"
  let ?sel = "filter (\<lambda>r. lo \<le> ?id r \<and> ?id r \<le> hi) rows"
  let ?L = "map (\<lambda>e. rows ! nat (snd e)) ?es"
  have ok: "bp_rows_ok ?t" by (rule indexed_tree_ok [OF assms(1,3)])
  note entry = tree_entry [OF assms(1-3)]
  have bounds: "0 \<le> snd e \<and> snd e < int (length rows) \<and> ?id (rows ! nat (snd e)) = fst e" if "e \<in> set ?es" for e
    using that entry [of "fst e" "snd e"] by auto
  have at: "rows_at rows (map snd ?es) = ?L"
  proof -
    have "filter (\<lambda>i. 0 \<le> i \<and> i < int (length rows)) (map snd ?es) = map snd ?es"
      by (rule filter_True) (use bounds in auto)
    then show ?thesis by (simp add: rows_at_def)
  qed
  have ids: "map ?id ?L = map fst ?es" using bounds by simp
  have "sorted_wrt (<) (map fst ?es)" using bp.items_sorted [OF ok] by (simp add: sorted_wrt_map sorted_wrt_filter)
  then have L: "sorted (map ?id ?L)" "distinct (map ?id ?L)" unfolding ids by (simp_all add: strict_sorted_iff)
  have "set ?L = set ?sel"
  proof (intro set_eqI iffI)
    fix r assume "r \<in> set ?L"
    then obtain e where "e \<in> set ?es" "r = rows ! nat (snd e)" by auto
    then show "r \<in> set ?sel" using bounds [of e] by (auto simp: nat_less_iff)
  next
    fix r assume "r \<in> set ?sel"
    then obtain j where j: "j < length rows" "r = rows ! j" "lo \<le> ?id r" "?id r \<le> hi" by (auto simp: in_set_conv_nth)
    then have "(?id r, int j) \<in> set ?es" using entry by auto
    then show "r \<in> set ?L" using j(2) by (auto intro!: image_eqI [where x = "(?id r, int j)"])
  qed
  moreover have "distinct (map ?id ?sel)" using assms(2) by (simp add: good_ids_def distinct_map_filter)
  moreover from this have "inj_on ?id (set ?sel)" by (simp add: distinct_map)
  ultimately have L_eq: "?L = sort_key ?id ?sel"
    using L by (intro map_sorted_distinct_set_unique [of ?id]) (simp_all add: distinct_map)
  have "length ?es = length ?sel" using arg_cong [OF L_eq, of length] by simp
  also have "\<dots> \<le> length rows" by simp
  finally have "int (length ?es) \<le> int_max div 2" using assms(5) by simp
  from range_rows_all [OF ok assms(4) this, of 16] show ?thesis using at L_eq by auto
qed

lemma between_unsupported:
  assumes "sql_where sql = [w]" "ieq (w_op w) ''BETWEEN''" "find_schema_index schema (w_column w) \<noteq> None"
  shows "select_rows schema sql rows = (if rows = [] then finish_select sql schema [] else None)"
proof -
  have "length (w_op w) = 7" using ieq_length [OF assms(2)] by simp
  then have "\<not> is_supported_operator (w_op w)" by (auto simp: is_supported_operator_def)
  then have m: "row_matches_delete schema r sql = None" for r
    using assms(1) by (simp add: row_matches_delete_def evaluate_select_clause_def Let_def split: option.split)
  then show ?thesis using assms(1,3) by (cases rows) (auto simp: select_rows_def)
qed

text \<open>C8: a range lookup, \<^verbatim>\<open>WHERE id BETWEEN a AND b\<close> with the bounds in either order, returns
  exactly the rows whose id lies between the bounds, in the order of their ids, and then
  sorts, projects or aggregates them like any SELECT; the row buffer is grown until all of
  them fit, so no row is lost and the loop ends.\<close>

theorem range_lookup_correct:
  assumes "holds (en_storage en) (sql_table sql) sp tp schema rows"
    and "find_schema_index schema ''id'' = Some c" "good_ids c rows" "int (length rows) \<le> int_max div 2"
    and "served (en_storage en) (sql_table sql) c rows" "should_use_id_range sql"
    and "parse_int_literal (w_value (sql_where sql ! 0)) = Some a" "parse_int_literal (w_value_to (sql_where sql ! 0)) = Some b"
  shows "oc_json (fst (execute_select sql en)) =
    (case finish_select sql schema
        (sort_key (\<lambda>r. atoi (r ! c)) (filter (\<lambda>r. min a b \<le> atoi (r ! c) \<and> atoi (r ! c) \<le> max a b) rows)) of
       Some rs \<Rightarrow> append_rowset_json rs
     | None \<Rightarrow> append_status_json sql False ''select'')"
proof -
  let ?t = "sql_table sql" and ?s = "storage_ensure_index (sql_table sql) (en_storage en)"
  let ?sel = "sort_key (\<lambda>r. atoi (r ! c)) (filter (\<lambda>r. min a b \<le> atoi (r ! c) \<and> atoi (r ! c) \<le> max a b) rows)"
  have e: "holds ?s ?t sp tp schema rows" "indexed ?s ?t c rows" "no_bin ?s ?t"
    using ensure_index_served [OF assms(1,2,5)] by simp_all
  then obtain slot where slot: "index_registry_get (st_index ?s) ?t = Some slot" by (auto simp: indexed_def)
  obtain w where w: "sql_where sql = [w]" "ieq (w_column w) ''id''" "ieq (w_op w) ''BETWEEN''"
    using assms(6) by (auto simp: should_use_id_range_def split: list.splits)
  have bounds: "parse_between_bounds w = Some (min a b, max a b)"
    using assms(7,8) w(1) by (simp add: parse_between_bounds_def min_def max_def)
  have mm: "min a b \<le> max a b" by simp
  obtain ris where ris: "range_rows (tree_at (st_index ?s) slot) (min a b) (max a b) 16 = Some ris" "rows_at rows ris = ?sel"
    using range_rows_selected [OF e(2) assms(3) slot mm assms(4)] by blast
  obtain s' where s': "storage_select_result_by_row_indices ?t sql ris ?s = (finish_select sql schema ?sel, s')"
    "holds s' ?t sp tp schema rows"
    using select_by_row_indices [OF e(1,3), of sql ris] ris(2)
    by (cases "storage_select_result_by_row_indices ?t sql ris ?s") simp
  have "find_schema_index schema (w_column w) \<noteq> None" using assms(2) find_schema_ieq [OF w(2)] by simp
  then have scan: "select_rows schema sql rows = None" if "finish_select sql schema ?sel = None"
    using between_unsupported [OF w(1,3)] that by (cases "rows = []") simp_all
  have "execute_select sql en = (case finish_select sql schema ?sel of
      Some rs \<Rightarrow> (rows_outcome True 1 rs, en\<lparr>en_storage := s'\<rparr>) | None \<Rightarrow> scan_outcome sql (en\<lparr>en_storage := s'\<rparr>))"
    using assms(6) slot w(1) s'(1) id_not_prefix [of sql] bounds ris(1)
    by (simp add: execute_select_def Let_def trie_outcome_scan split: option.split)
  then show ?thesis
    using scan scan_outcome_holds [of "en\<lparr>en_storage := s'\<rparr>" sql] s'(2)
    by (auto simp: rows_outcome_def text_outcome_def split: option.split)
qed

definition by_range :: parsed_sql where
  "by_range = by_id\<lparr>sql_where := [\<lparr>w_column = ''id'', w_op = ''BETWEEN'', w_value = ''9'', w_value_to = ''2''\<rparr>]\<rparr>"

theorem range_lookup_correct_witness:
  "oc_json (fst (execute_select by_range small_engine)) = append_rowset_json \<lparr>rs_col_names = [''name''], rs_rows = [[''lee'']]\<rparr>"
proof -
  have h: "holds (en_storage small_engine) (sql_table by_range) ''data/schema/t.schema'' ''data/tables/t.csv'' two_columns two_rows"
    using small_holds by (simp add: small_engine_def by_range_def by_id_def)
  have side: "find_schema_index two_columns ''id'' = Some 0" "good_ids 0 two_rows" "int (length two_rows) \<le> int_max div 2"
    "should_use_id_range by_range" "parse_int_literal (w_value (sql_where by_range ! 0)) = Some 9"
    "parse_int_literal (w_value_to (sql_where by_range ! 0)) = Some 2"
    by code_simp+
  have "finish_select by_range two_columns
      (sort_key (\<lambda>r. atoi (r ! 0)) (filter (\<lambda>r. min 9 2 \<le> atoi (r ! 0) \<and> atoi (r ! 0) \<le> max 9 2) two_rows)) =
      Some \<lparr>rs_col_names = [''name''], rs_rows = [[''lee'']]\<rparr>"
    by code_simp
  with range_lookup_correct [OF h side(1-3) _ side(4-6)] small_served show ?thesis
    by (simp add: by_range_def by_id_def)
qed

end
