(* ===== verification/Trie_Laws.thy ===== *)
theory Trie_Laws
  imports Index_Laws
begin

text \<open>
  The dictionary trie of the engine: what rebuilding it from the table gives, and that a
  prefix query answered from it returns what the full scan returns.
\<close>

section \<open>Loading the trie\<close>

definition good_words :: "nat \<Rightarrow> row list \<Rightarrow> bool" where
  "good_words c rows \<longleftrightarrow> list_all (\<lambda>r. word_is_valid (r ! c)) rows \<and> distinct (map (\<lambda>r. r ! c) rows)"

text \<open>The trie is that of the rows a table holds, each word with the number of its row.\<close>

definition trie_current :: "engine \<Rightarrow> nat \<Rightarrow> row list \<Rightarrow> bool" where
  "trie_current en c rows \<longleftrightarrow> en_trie_ready en \<and>
     (case en_trie en of None \<Rightarrow> False
      | Some t \<Rightarrow> trie_load_loop trie_create 0 (map (\<lambda>r. [r ! c]) rows) = Some t)"

lemma trie_load_loop_lookup:
  assumes "list_all word_is_valid ws" "trie_wf t" "0 \<le> i"
  shows "\<exists>t'. trie_load_loop t i (map (\<lambda>w. [w]) ws) = Some t' \<and> trie_wf t' \<and>
    trie_lookup t' = trie_lookup t ++ last_write (zip ws (map (\<lambda>j. i + int j) [0..<length ws]))"
  using assms
proof (induction ws arbitrary: t i)
  case (Cons w ws)
  let ?t = "snd (trie_insert t w i)"
  have w: "word_is_valid w \<and> 0 \<le> i" using Cons.prems by simp
  have "map (\<lambda>j. i + int j) [0..<length (w # ws)] = i # map (\<lambda>j. i + 1 + int j) [0..<length ws]"
    by (simp add: upt_conv_Cons map_Suc_upt [symmetric] comp_def algebra_simps del: upt_Suc)
  then have zip: "last_write (zip (w # ws) (map (\<lambda>j. i + int j) [0..<length (w # ws)])) =
      [w \<mapsto> i] ++ last_write (zip ws (map (\<lambda>j. i + 1 + int j) [0..<length ws]))"
    using last_write_append [of "[(w, i)]"] by simp
  obtain t' where "trie_load_loop ?t (i + 1) (map (\<lambda>w. [w]) ws) = Some t'" "trie_wf t'"
    "trie_lookup t' = trie_lookup ?t ++ last_write (zip ws (map (\<lambda>j. i + 1 + int j) [0..<length ws]))"
    using Cons.IH [of ?t "i + 1"] Cons.prems tr.inv_insert [of t w i] w by auto
  moreover have "trie_load_loop t i (map (\<lambda>w. [w]) (w # ws)) = trie_load_loop ?t (i + 1) (map (\<lambda>w. [w]) ws)"
    using w by (simp add: trie_insert_def)
  moreover have "trie_lookup ?t = trie_lookup t ++ [w \<mapsto> i]"
    using tr.lookup_insert [of t w i] w Cons.prems(2) by (simp add: fun_eq_iff map_add_def)
  ultimately show ?case unfolding zip by (simp add: map_add_assoc del: trie_load_loop.simps)
qed simp

lemma last_write_distinct: "distinct (map fst kvs) \<Longrightarrow> last_write kvs = map_of kvs"
proof
  fix k
  assume d: "distinct (map fst kvs)"
  then have "distinct (map fst (rev kvs))" by (simp add: rev_map [symmetric])
  then have "map_of (rev kvs) k = Some v \<longleftrightarrow> map_of kvs k = Some v" for v
    using d by (simp add: map_of_eq_Some_iff del: rev_map)
  then show "last_write kvs k = map_of kvs k"
    unfolding last_write_def by (metis option.exhaust)
qed

lemma trie_current_lookup:
  assumes "trie_current en c rows" "good_words c rows" "en_trie en = Some t"
  shows "trie_wf t \<and> (\<forall>w j. trie_lookup t w = Some j \<longleftrightarrow> (\<exists>i < length rows. j = int i \<and> rows ! i ! c = w))"
proof -
  let ?ws = "map (\<lambda>r. r ! c) rows"
  have wf: "trie_wf trie_create" by (simp add: trie_create_def)
  obtain t' where t': "trie_load_loop trie_create 0 (map (\<lambda>w. [w]) ?ws) = Some t'" "trie_wf t'"
    "trie_lookup t' = trie_lookup trie_create ++ last_write (zip ?ws (map (\<lambda>j. 0 + int j) [0..<length ?ws]))"
    using trie_load_loop_lookup [OF _ wf, of ?ws 0] assms(2) by (auto simp: good_words_def list.pred_map comp_def)
  have "t' = t" using assms(1,3) t'(1) by (simp add: trie_current_def comp_def)
  have look: "trie_lookup t w = map_of (zip ?ws (map int [0..<length ?ws])) w" for w
  proof -
    have "distinct (map fst (zip ?ws (map int [0..<length ?ws])))" using assms(2) by (simp add: good_words_def)
    then have "last_write (zip ?ws (map int [0..<length ?ws])) = map_of (zip ?ws (map int [0..<length ?ws]))"
      by (rule last_write_distinct)
    moreover have "trie_lookup trie_create = Map.empty" using tr.lookup_empty by (simp add: fun_eq_iff)
    ultimately show ?thesis using t'(3) \<open>t' = t\<close> by simp
  qed
  have "trie_lookup t w = Some j \<longleftrightarrow> (\<exists>i < length rows. j = int i \<and> rows ! i ! c = w)" for w j
  proof -
    have "trie_lookup t w = Some j \<longleftrightarrow> (w, j) \<in> set (zip ?ws (map int [0..<length ?ws]))"
      using assms(2) unfolding look good_words_def by (intro map_of_eq_Some_iff) simp
    also have "\<dots> \<longleftrightarrow> (\<exists>i. i < length rows \<and> ?ws ! i = w \<and> map int [0..<length ?ws] ! i = j)"
      by (auto simp: in_set_zip)
    also have "\<dots> \<longleftrightarrow> (\<exists>i < length rows. j = int i \<and> rows ! i ! c = w)"
      by (rule ex_cong1) auto
    finally show ?thesis .
  qed
  then show ?thesis using t'(2) \<open>t' = t\<close> by simp
qed

section \<open>Prefix queries\<close>

lemma filter_by_index: "map ((!) rows) (filter (\<lambda>i. P (rows ! i)) [0..<length rows]) = filter P rows"
proof -
  have "filter P rows = filter P (map ((!) rows) [0..<length rows])" by (simp add: map_nth)
  then show ?thesis by (simp add: filter_map comp_def del: map_nth)
qed

lemma rows_at_index_list: "rows_at rows (map int (filter (\<lambda>i. P (rows ! i)) [0..<length rows])) = filter P rows"
proof -
  have "filter (\<lambda>i. 0 \<le> i \<and> i < int (length rows)) (map int (filter (\<lambda>i. P (rows ! i)) [0..<length rows])) =
      map int (filter (\<lambda>i. P (rows ! i)) [0..<length rows])"
    by (rule filter_True) auto
  then show ?thesis using filter_by_index [of rows P] by (simp add: rows_at_def comp_def)
qed

lemma lex_less_irrefl: "\<not> lex_less w w"
  by (induction w) simp_all

text \<open>The rows the trie gives for a prefix, sorted by number.\<close>

lemma prefix_rows_selected:
  assumes "trie_current en c rows" "good_words c rows" "en_trie en = Some t" "word_is_valid p"
    and "int (length (trie_search_prefix t p trie_max_rows)) < trie_max_rows"
  shows "rows_at rows (sort (trie_search_prefix t p trie_max_rows)) = filter (\<lambda>r. prefix p (r ! c)) rows"
proof -
  from trie_current_lookup [OF assms(1-3)] have wf: "trie_wf t"
    and look: "\<And>w j. trie_lookup t w = Some j \<longleftrightarrow> (\<exists>i < length rows. j = int i \<and> rows ! i ! c = w)" by auto
  have "0 < trie_max_rows" by (simp add: trie_max_rows_def)
  from prefix_search_rows [OF wf assms(4) this] obtain ws where ws: "sorted_wrt lex_less ws"
    "set ws = {w. (\<exists>v. w = p @ v) \<and> trie_lookup t w \<noteq> None}"
    "trie_search_prefix t p trie_max_rows = take (nat trie_max_rows) (map (\<lambda>w. the (trie_lookup t w)) ws)" by blast
  let ?js = "map (\<lambda>w. the (trie_lookup t w)) ws"
  have all: "trie_search_prefix t p trie_max_rows = ?js"
    using assms(5) ws(3) by (simp add: trie_max_rows_def min_def split: if_splits)
  let ?is = "map int (filter (\<lambda>i. prefix p (rows ! i ! c)) [0..<length rows])"
  have set: "set ?js = set ?is"
  proof (intro set_eqI iffI)
    fix j assume "j \<in> set ?js"
    then obtain w v where w: "w = p @ v" "trie_lookup t w = Some j" using ws(2) by auto
    then obtain i where "i < length rows" "j = int i" "rows ! i ! c = w" using look by blast
    then show "j \<in> set ?is" using w(1) by auto
  next
    fix j assume "j \<in> set ?is"
    then obtain i v where i: "i < length rows" "j = int i" "rows ! i ! c = p @ v" by (auto simp: prefix_def)
    then have "trie_lookup t (p @ v) = Some j" using look by blast
    then show "j \<in> set ?js" using ws(2) by (auto intro!: image_eqI [where x = "p @ v"])
  qed
  have "distinct ws" using ws(1) by (induction ws) (auto simp: lex_less_irrefl)
  moreover have "inj_on (\<lambda>w. the (trie_lookup t w)) (set ws)"
  proof (rule inj_onI)
    fix v w assume vw: "v \<in> set ws" "w \<in> set ws" "the (trie_lookup t v) = the (trie_lookup t w)"
    then obtain i j where "trie_lookup t v = Some i" "trie_lookup t w = Some j" unfolding ws(2) by blast
    then show "v = w" using look [of v i] look [of w j] vw(3) by auto
  qed
  ultimately have "distinct ?js" by (simp add: distinct_map)
  moreover have "sorted ?is" "distinct ?is" by (simp_all add: sorted_map sorted_wrt_filter distinct_map)
  ultimately have "sort ?js = ?is"
    using set by (intro sorted_distinct_set_unique) simp_all
  then show ?thesis unfolding all using rows_at_index_list [of rows "\<lambda>r. prefix p (r ! c)"] by simp
qed

lemma prefix_query:
  assumes "should_use_trie_prefix sql = Some p"
  obtains w where "sql_where sql = [w]" "ieq (w_column w) ''english''" "w_op w = ''LIKE''"
    "strip_quotes 255 (w_value w) = p @ ''%''" "word_is_valid p" "ieq (sql_table sql) ''dictionary''"
proof -
  obtain w where w: "sql_where sql = [w]" using assms by (auto simp: should_use_trie_prefix_def split: list.splits)
  let ?l = "strip_quotes 255 (w_value w)"
  have a: "ieq (w_column w) ''english''" "w_op w = ''LIKE''" "ieq (sql_table sql) ''dictionary''"
    "2 \<le> length ?l" "last ?l = CHR ''%''" "butlast ?l = p" "is_ascii_lowercase_word p"
    using assms w by (auto simp: should_use_trie_prefix_def Let_def split: if_splits)
  have "?l \<noteq> []" using a(4) by auto
  then have "?l = p @ ''%''" using append_butlast_last_id [of ?l] a(5,6) by simp
  moreover have "word_is_valid p" using a(7) by (simp add: is_ascii_lowercase_word_def word_is_valid_def list_all_iff)
  ultimately show thesis using that w a by blast
qed

lemma like_condition_matches:
  assumes "find_schema_index schema ''english'' = Some c" "cd_type (schema ! c) = TYPE_VARCHAR" "row_ok schema r"
    and "ieq (w_column w) ''english''" "w_op w = ''LIKE''" "strip_quotes 255 (w_value w) = p @ ''%''" "word_is_valid p"
  shows "evaluate_select_clause schema r w = Some (prefix p (r ! c))"
proof -
  have c: "find_schema_index schema (w_column w) = Some c" using assms(1) find_schema_ieq [OF assms(4)] by simp
  moreover have "c < length r" using find_schema_bound [OF assms(1)] assms(3) by (simp add: row_ok_def)
  moreover have "plain_pattern p" using assms(7) by (auto simp: plain_pattern_def word_is_valid_def is_lower_def)
  ultimately show ?thesis
    using assms(2,5,6) like_prefix by (simp add: evaluate_select_clause_def is_supported_operator_def)
qed

lemma no_id_route: "should_use_trie_prefix sql = Some p \<Longrightarrow> \<not> should_use_id_index sql \<and> \<not> should_use_id_range sql"
  using id_not_prefix [of sql] by auto

text \<open>C9: a prefix query on the dictionary, \<^verbatim>\<open>WHERE english LIKE 'p%'\<close>, answered from the trie
  gives the same status and JSON as the full scan, provided the trie is that of the table's
  rows and no word occurs twice; also when the trie has too many rows for its buffer.\<close>

theorem prefix_lookup_is_scan:
  assumes "holds (en_storage en) (sql_table sql) sp tp schema rows"
    and "find_schema_index schema ''english'' = Some e" "cd_type (schema ! e) = TYPE_VARCHAR" "good_words e rows"
    and "find_schema_index schema ''id'' = Some c" "served (en_storage en) (sql_table sql) c rows"
    and "trie_current en e rows" "should_use_trie_prefix sql = Some p"
  shows "oc_ok (fst (execute_select sql en)) = oc_ok (fst (scan_outcome sql en)) \<and>
    oc_json (fst (execute_select sql en)) = oc_json (fst (scan_outcome sql en))"
proof -
  let ?s = "storage_ensure_index (sql_table sql) (en_storage en)"
  let ?en = "en\<lparr>en_storage := ?s\<rparr>"
  have h: "holds ?s (sql_table sql) sp tp schema rows" "no_bin ?s (sql_table sql)"
    using ensure_index_served [OF assms(1,5,6)] by simp_all
  obtain t where t: "en_trie en = Some t" "en_trie_ready en"
    using assms(7) by (auto simp: trie_current_def split: option.splits)
  from prefix_query [OF assms(8)] obtain w where w: "sql_where sql = [w]" "ieq (w_column w) ''english''" "w_op w = ''LIKE''"
    "strip_quotes 255 (w_value w) = p @ ''%''" "word_is_valid p" .
  have ok: "list_all (row_ok schema) rows" using assms(1) by (simp add: holds_def)
  have sel: "select_rows schema sql rows = finish_select sql schema (filter (\<lambda>r. prefix p (r ! e)) rows)"
    using ok assms(2) by (intro id_select_rows [OF w(1)] like_condition_matches [OF assms(2,3) _ w(2-5)])
      (auto simp: find_schema_ieq [OF w(2)] list_all_iff)
  let ?ris = "trie_search_prefix t p trie_max_rows"
  have scan: "fst (scan_outcome sql (en\<lparr>en_storage := s\<rparr>)) = fst (scan_outcome sql en)"
    if "holds s (sql_table sql) sp tp schema rows" for s
    using scan_outcome_holds [of "en\<lparr>en_storage := s\<rparr>" sql] that scan_outcome_holds [OF assms(1)] by simp
  have start: "execute_select sql en = trie_outcome sql ?en"
    using no_id_route [OF assms(8)] by (simp add: execute_select_def)
  show ?thesis
  proof (cases "int (length ?ris) < trie_max_rows")
    case False
    then show ?thesis using start scan [OF h(1)] assms(8) t by (simp add: trie_outcome_def Let_def)
  next
    case True
    have rows: "rows_at rows (sort ?ris) = filter (\<lambda>r. prefix p (r ! e)) rows"
      by (rule prefix_rows_selected [OF assms(7,4) t(1) w(5) True])
    obtain s' where s': "storage_select_result_by_row_indices (sql_table sql) sql (sort ?ris) ?s = (select_rows schema sql rows, s')"
      "holds s' (sql_table sql) sp tp schema rows"
      using select_by_row_indices [OF h, of sql "sort ?ris"] rows sel
      by (cases "storage_select_result_by_row_indices (sql_table sql) sql (sort ?ris) ?s") simp
    then show ?thesis
      using start True assms(8) t scan [OF s'(2)] scan_outcome_holds [OF assms(1)]
      by (simp add: trie_outcome_def Let_def rows_outcome_def text_outcome_def split: option.split)
  qed
qed

section \<open>Rebuilding\<close>

definition select_english :: parsed_sql where
  "select_english = \<lparr>sql_type = QUERY_SELECT, sql_table = ''dictionary'', sql_columns = [''english''], sql_values = [],
     sql_where = [], sql_where_logic = [], sql_where_links = [], sql_order_by = None, sql_limit = -1,
     sql_set = [], sql_col_defs = []\<rparr>"

lemma parse_select_english: "parse_sql h ''SELECT english FROM dictionary;'' = Some select_english"
  by code_simp

lemma engine_parse_english: "engine_parse ''SELECT english FROM dictionary;'' en = Some select_english"
  by (simp add: engine_parse_def parse_select_english)

lemma select_english_rows:
  assumes "find_schema_index schema ''english'' = Some e"
  shows "select_rows schema select_english rows =
    Some \<lparr>rs_col_names = [cd_name (schema ! e)], rs_rows = map (\<lambda>r. [r ! e]) rows\<rparr>"
proof -
  have "\<not> is_select_all select_english" "parse_aggregate_call ''english'' = None" by code_simp+
  then show ?thesis
    using assms by (simp add: select_rows_def row_matches_delete_def select_english_def finish_select_def sort_selection_def
        build_rowset_from_selection_def resolve_selected_columns_def list_ex_iff)
qed

lemma trie_load_loop_ok:
  "0 \<le> i \<Longrightarrow> trie_load_loop t i (map (\<lambda>r. [f r]) rows) \<noteq> None \<longleftrightarrow> list_all (\<lambda>r. word_is_valid (f r)) rows"
  by (induction rows arbitrary: t i) (auto simp: trie_insert_def)

lemma rebuild_current:
  assumes "holds (en_storage en) ''dictionary'' sp tp schema rows" "find_schema_index schema ''english'' = Some e"
    and "dictionary_schema_exists (en_storage en)"
  shows "en_trie_ready (snd (dictionary_trie_rebuild_locked en)) = list_all (\<lambda>r. word_is_valid (r ! e)) rows \<and>
    (en_trie_ready (snd (dictionary_trie_rebuild_locked en)) \<longrightarrow> trie_current (snd (dictionary_trie_rebuild_locked en)) e rows) \<and>
    holds (en_storage (snd (dictionary_trie_rebuild_locked en))) ''dictionary'' sp tp schema rows"
proof -
  obtain s where s: "storage_select_result ''dictionary'' select_english (en_storage en) =
      (Some \<lparr>rs_col_names = [cd_name (schema ! e)], rs_rows = map (\<lambda>r. [r ! e]) rows\<rparr>, s)"
    "holds s ''dictionary'' sp tp schema rows"
    using select_holds [OF assms(1), of select_english] select_english_rows [OF assms(2), of rows]
    by (cases "storage_select_result ''dictionary'' select_english (en_storage en)") simp
  show ?thesis
    using assms(3) s trie_load_loop_ok [of 0 trie_create "\<lambda>r. r ! e" rows] engine_parse_english
    by (cases "trie_load_loop trie_create 0 (map (\<lambda>r. [r ! e]) rows)")
      (simp_all add: dictionary_trie_rebuild_locked_def dictionary_trie_replace_def trie_current_def)
qed

text \<open>C10: after every successful write to the dictionary the trie is rebuilt from the rows the
  table then holds; it is ready exactly when every english word consists of lower-case
  letters, and only then is the engine ready again; one other word (a capital, a hyphen, an
  empty cell) leaves prefix queries to the full scan and the engine not ready.\<close>

theorem write_refreshes_trie:
  assumes "holds s' ''dictionary'' sp tp schema rows" "find_schema_index schema ''english'' = Some e"
    and "dictionary_schema_exists s'" "ieq (sql_table sql) ''dictionary''"
    and "write_outcome sql action (True, s') en = (oc, en')"
  shows "holds (en_storage en') ''dictionary'' sp tp schema rows \<and>
    engine_is_ready en' = (en_ready en \<and> list_all (\<lambda>r. word_is_valid (r ! e)) rows) \<and>
    (list_all (\<lambda>r. word_is_valid (r ! e)) rows \<longrightarrow> trie_current en' e rows)"
proof -
  let ?en = "en\<lparr>en_storage := s'\<rparr>"
  have en': "en' = snd (dictionary_trie_rebuild_locked ?en)"
    using assms(4,5) by (auto simp: write_outcome_def dictionary_trie_refresh_after_write_def)
  have "en_ready en' = en_ready en"
    unfolding en' by (simp add: dictionary_trie_rebuild_locked_def dictionary_trie_replace_def split: option.split prod.split)
  then show ?thesis
    using rebuild_current [of ?en sp tp schema rows e] assms(1-3) unfolding en'
    by (auto simp: engine_is_ready_def)
qed

section \<open>A small dictionary\<close>

definition word_rows :: "row list" where
  "word_rows = [[''1'', ''apple'', ''sagwa''], [''2'', ''bee'', ''beol''], [''3'', ''app'', ''aepeu'']]"

definition word_columns :: schema where
  "word_columns = [\<lparr>cd_name = ''id'', cd_type = TYPE_INT\<rparr>, \<lparr>cd_name = ''english'', cd_type = TYPE_VARCHAR\<rparr>,
     \<lparr>cd_name = ''korean'', cd_type = TYPE_VARCHAR\<rparr>]"

definition word_store :: storage where
  "word_store = \<lparr>st_files = [''data/schema/dictionary.schema'' \<mapsto>
         ''id,INT'' @ newline # ''english,VARCHAR'' @ newline # ''korean,VARCHAR'' @ [newline],
       ''data/tables/dictionary.csv'' \<mapsto> file_of word_rows],
     st_dirs = [''data'', ''data/schema'', ''data/tables''], st_append = [], st_schemas = [], st_paths = [],
     st_meta = [], st_rebuilt = [], st_index = []\<rparr>"

definition word_engine :: engine where
  "word_engine = \<lparr>en_storage = word_store, en_trie = trie_load_loop trie_create 0 (map (\<lambda>r. [r ! 1]) word_rows),
     en_trie_ready = True, en_ready = True, en_total = 0, en_heap = (\<lambda>n text. empty_heap)\<rparr>"

definition by_prefix :: parsed_sql where
  "by_prefix = select_english\<lparr>sql_columns := [''korean''],
     sql_where := [\<lparr>w_column = ''english'', w_op = ''LIKE'', w_value = CHR 0x27 # ''app%'' @ [CHR 0x27], w_value_to = []\<rparr>]\<rparr>"

lemma word_holds: "holds word_store ''dictionary'' ''data/schema/dictionary.schema'' ''data/tables/dictionary.csv'' word_columns word_rows"
  by code_simp

lemma word_current: "trie_current word_engine 1 word_rows"
proof -
  have "trie_load_loop trie_create 0 (map (\<lambda>r. [r ! 1]) word_rows) \<noteq> None"
    unfolding trie_load_loop_ok [OF order_refl] by code_simp
  then show ?thesis by (auto simp: trie_current_def word_engine_def split: option.split)
qed

theorem prefix_lookup_is_scan_witness:
  "oc_json (fst (execute_select by_prefix word_engine)) =
     append_rowset_json \<lparr>rs_col_names = [''korean''], rs_rows = [[''sagwa''], [''aepeu'']]\<rparr>"
proof -
  have h: "holds (en_storage word_engine) (sql_table by_prefix) ''data/schema/dictionary.schema'' ''data/tables/dictionary.csv''
      word_columns word_rows"
    using word_holds by (simp add: word_engine_def by_prefix_def select_english_def)
  have side: "find_schema_index word_columns ''english'' = Some 1" "cd_type (word_columns ! 1) = TYPE_VARCHAR"
    "good_words 1 word_rows" "find_schema_index word_columns ''id'' = Some 0"
    "should_use_trie_prefix by_prefix = Some ''app''"
    by code_simp+
  have served: "served (en_storage word_engine) (sql_table by_prefix) 0 word_rows"
    by (simp add: served_def word_engine_def word_store_def by_prefix_def select_english_def registry_max_tables_def
        index_registry_get_def find_index_def no_bin_def build_bin_path_def Let_def)
  have "oc_json (fst (scan_outcome by_prefix word_engine)) =
     append_rowset_json \<lparr>rs_col_names = [''korean''], rs_rows = [[''sagwa''], [''aepeu'']]\<rparr>"
    by code_simp
  then show ?thesis using prefix_lookup_is_scan [OF h side(1-4) served word_current side(5)] by simp
qed

theorem write_refreshes_trie_witness:
  "engine_is_ready (snd (write_outcome select_english ''insert'' (True, word_store) word_engine)) \<and>
   trie_current (snd (write_outcome select_english ''insert'' (True, word_store) word_engine)) 1 word_rows"
proof -
  have side: "find_schema_index word_columns ''english'' = Some 1" "dictionary_schema_exists word_store"
    "ieq (sql_table select_english) ''dictionary''" "list_all (\<lambda>r. word_is_valid (r ! 1)) word_rows" "en_ready word_engine"
    by code_simp+
  show ?thesis
    using write_refreshes_trie [OF word_holds side(1-3) prod.collapse [symmetric], of "''insert''" word_engine] side(4,5) by simp
qed

end
