(* ===== verification/Http_Protocol.thy ===== *)
theory Http_Protocol
  imports Csv
begin

text \<open>
  Requests and responses on a socket, \<^verbatim>\<open>src/protocol.c\<close>. What \<^verbatim>\<open>read\<close> returns over the life
  of a connection is a list of events: data that is waiting (a read takes at most the bytes
  it asks for and leaves the rest), an interruption (\<^verbatim>\<open>EINTR\<close>), or a failure; no event means
  the peer has closed. \<^verbatim>\<open>write\<close> likewise: an event is the number of bytes taken.
\<close>

section \<open>The socket\<close>

datatype read_event = Arrived string | Read_interrupted | Read_failed

datatype read_result = Got string | Again | Bad

fun read_fd :: "nat \<Rightarrow> read_event list \<Rightarrow> read_result \<times> read_event list" where
  "read_fd n [] = (Got [], [])"
| "read_fd n (Read_interrupted # es) = (Again, es)"
| "read_fd n (Read_failed # es) = (Bad, es)"
| "read_fd n (Arrived d # es) = (Got (take n d), if length d \<le> n then es else Arrived (drop n d) # es)"

text \<open>How much an event list can still give: a measure for the loops that read.\<close>

fun event_size :: "read_event \<Rightarrow> nat" where
  "event_size (Arrived d) = Suc (length d)"
| "event_size _ = 1"

definition pending :: "read_event list \<Rightarrow> nat" where
  "pending es = sum_list (map event_size es)"

lemma read_fd_pending: "0 < n \<Longrightarrow> es \<noteq> [] \<Longrightarrow> pending (snd (read_fd n es)) < pending es"
  by (cases "(n, es)" rule: read_fd.cases) (auto simp: pending_def)

lemma read_fd_next: "(r, es') = read_fd n es \<Longrightarrow> 0 < n \<Longrightarrow> es \<noteq> [] \<Longrightarrow> pending es' < pending es"
  using read_fd_pending [of n es] by (metis snd_conv)

section \<open>Requests\<close>

record http_request =
  rq_method :: string
  rq_path :: string
  rq_query :: string
  rq_content_type :: string
  rq_content_length :: nat
  rq_body :: "string option"

definition header_max :: nat where "header_max = 8192"
definition body_max :: int where "body_max = 1024 * 1024"

text \<open>The position of the first CR LF CR LF.\<close>

fun find_header_end :: "string \<Rightarrow> nat option" where
  "find_header_end (a # b # c # d # t) =
     (if a = creturn \<and> b = newline \<and> c = creturn \<and> d = newline then Some 0
      else map_option Suc (find_header_end (b # c # d # t)))"
| "find_header_end _ = None"

text \<open>\<^verbatim>\<open>strtoul(s, &end, 10)\<close>: \<open>None\<close> when nothing is converted, else the value, the rest and \<^verbatim>\<open>ERANGE\<close>.\<close>

definition ulong_max :: int where "ulong_max = 2 ^ 64 - 1"

definition strtoul :: "string \<Rightarrow> (int \<times> string \<times> bool) option" where
  "strtoul s =
     (let s1 = dropWhile is_space s;
          neg = (s1 \<noteq> [] \<and> hd s1 = CHR ''-'');
          s2 = (if s1 \<noteq> [] \<and> (hd s1 = CHR ''-'' \<or> hd s1 = CHR ''+'') then tl s1 else s1);
          ds = takeWhile is_digit s2; v = nat_of_digits ds
      in if ds = [] then None
         else if v > ulong_max then Some (ulong_max, dropWhile is_digit s2, True)
         else Some ((if neg then - v else v) mod 2 ^ 64, dropWhile is_digit s2, False))"

definition parse_content_length :: "string \<Rightarrow> nat option" where
  "parse_content_length v =
     (case strtoul v of
        None \<Rightarrow> None
      | Some (n, rest, erange) \<Rightarrow>
          if erange \<or> dropWhile is_space rest \<noteq> [] \<or> n > body_max then None else Some (nat n))"

text \<open>\<^verbatim>\<open>strtok_r\<close> with CR and LF: the non-empty pieces between them.\<close>

lemma header_lines_shorter:
  assumes "dropWhile (\<lambda>c. c = creturn \<or> c = newline) s = s1" "s1 \<noteq> []"
  shows "length (dropWhile (\<lambda>c. c \<noteq> creturn \<and> c \<noteq> newline) s1) < length s"
proof -
  have "\<not> (hd s1 = creturn \<or> hd s1 = newline)" using hd_dropWhile [of _ s] assms by blast
  then have "length (dropWhile (\<lambda>c. c \<noteq> creturn \<and> c \<noteq> newline) s1) \<le> length (tl s1)"
    using assms(2) length_dropWhile_le [of _ "tl s1"] by (cases s1) auto
  moreover have "length s1 \<le> length s" using assms(1) length_dropWhile_le [of _ s] by metis
  ultimately show ?thesis using assms(2) by (cases s1) auto
qed

function header_lines :: "string \<Rightarrow> string list" where
  "header_lines s =
     (let s1 = dropWhile (\<lambda>c. c = creturn \<or> c = newline) s
      in if s1 = [] then []
         else takeWhile (\<lambda>c. c \<noteq> creturn \<and> c \<noteq> newline) s1 # header_lines (dropWhile (\<lambda>c. c \<noteq> creturn \<and> c \<noteq> newline) s1))"
  by pat_completeness auto

termination
  by (relation "measure length") (use header_lines_shorter in \<open>simp_all del: dropWhile_eq_Nil_conv\<close>)

declare header_lines.simps [simp del]

text \<open>The part before the first \<open>c\<close> and, when there is one, the part after it.\<close>

definition cut_at :: "char \<Rightarrow> string \<Rightarrow> string \<times> string option" where
  "cut_at c s = (takeWhile (\<lambda>x. x \<noteq> c) s,
     case dropWhile (\<lambda>x. x \<noteq> c) s of [] \<Rightarrow> None | _ # t \<Rightarrow> Some t)"

text \<open>The request line: method, path and query.\<close>

definition parse_request_line :: "string \<Rightarrow> http_request option" where
  "parse_request_line line =
     (case cut_at (CHR '' '') line of
        (_, None) \<Rightarrow> None
      | (meth, Some t) \<Rightarrow>
          (case cut_at (CHR '' '') (trim_ws t) of
             (_, None) \<Rightarrow> None
           | (target, Some v) \<Rightarrow>
               if \<not> ieq meth ''GET'' \<and> \<not> ieq meth ''POST'' \<or> take 5 (trim_ws v) \<noteq> ''HTTP/'' then None
               else (case cut_at (CHR ''?'') target of
                       (path, query) \<Rightarrow>
                         Some \<lparr>rq_method = (if ieq meth ''GET'' then ''GET'' else ''POST''), rq_path = strncpy 511 path,
                               rq_query = (case query of None \<Rightarrow> [] | Some q \<Rightarrow> strncpy 511 q),
                               rq_content_type = [], rq_content_length = 0, rq_body = None\<rparr>)))"

fun parse_headers :: "string list \<Rightarrow> http_request \<Rightarrow> http_request option" where
  "parse_headers [] rq = Some rq"
| "parse_headers (line # lines) rq =
     (case cut_at (CHR '':'') line of
        (_, None) \<Rightarrow> None
      | (n, Some v) \<Rightarrow>
          let name = trim_ws n; val = trim_ws v
          in if ieq name ''Content-Length''
             then (case parse_content_length val of
                     None \<Rightarrow> None
                   | Some k \<Rightarrow> parse_headers lines (rq\<lparr>rq_content_length := k\<rparr>))
             else if ieq name ''Content-Type'' then parse_headers lines (rq\<lparr>rq_content_type := strncpy 63 val\<rparr>)
             else parse_headers lines rq)"

text \<open>The header text, cut at a NUL as the C strings are.\<close>

definition parse_header_text :: "string \<Rightarrow> http_request option" where
  "parse_header_text text =
     (case header_lines (takeWhile (\<lambda>c. c \<noteq> nul) text) of
        [] \<Rightarrow> None
      | line # lines \<Rightarrow>
          (case parse_request_line line of None \<Rightarrow> None | Some rq \<Rightarrow> parse_headers lines rq))"

text \<open>Reading until the header is complete: the bytes read and the position of its end.\<close>

function read_header :: "string \<Rightarrow> read_event list \<Rightarrow> (string \<times> nat \<times> read_event list) option" where
  "read_header buf es =
     (if header_max \<le> length buf then None
      else case read_fd (header_max - length buf) es of
             (Again, es') \<Rightarrow> if es = [] then None else read_header buf es'
           | (Bad, _) \<Rightarrow> None
           | (Got d, es') \<Rightarrow>
               if d = [] \<or> es = [] then None
               else (case find_header_end (buf @ d) of
                       Some i \<Rightarrow> Some (buf @ d, i, es')
                     | None \<Rightarrow> read_header (buf @ d) es'))"
  by pat_completeness auto

termination
  by (relation "measure (\<lambda>(buf, es). pending es)") (auto intro: read_fd_next)

declare read_header.simps [simp del]

text \<open>Reading the rest of the body.\<close>

function read_body :: "nat \<Rightarrow> string \<Rightarrow> read_event list \<Rightarrow> (string \<times> read_event list) option" where
  "read_body n body es =
     (if n \<le> length body then Some (body, es)
      else case read_fd (n - length body) es of
             (Again, es') \<Rightarrow> if es = [] then None else read_body n body es'
           | (Bad, _) \<Rightarrow> None
           | (Got d, es') \<Rightarrow> if d = [] \<or> es = [] then None else read_body n (body @ d) es')"
  by pat_completeness auto

termination
  by (relation "measure (\<lambda>(n, body, es). pending es)") (auto intro: read_fd_next)

declare read_body.simps [simp del]

definition http_parse_request :: "read_event list \<Rightarrow> (http_request \<times> read_event list) option" where
  "http_parse_request es =
     (case read_header [] es of
        None \<Rightarrow> None
      | Some (buf, i, es1) \<Rightarrow>
          (case parse_header_text (take (i + 2) buf) of
             None \<Rightarrow> None
           | Some rq \<Rightarrow>
               if rq_content_length rq = 0 then Some (rq, es1)
               else map_option (\<lambda>(body, es2). (rq\<lparr>rq_body := Some body\<rparr>, es2))
                      (read_body (rq_content_length rq) (take (rq_content_length rq) (drop (i + 4) buf)) es1)))"

section \<open>Responses\<close>

record http_response =
  hr_status :: int
  hr_content_type :: string
  hr_body :: string

definition status_reason :: "int \<Rightarrow> string" where
  "status_reason status =
     (if status = 200 then ''OK'' else if status = 400 then ''Bad Request'' else if status = 404 then ''Not Found''
      else if status = 405 then ''Method Not Allowed'' else if status = 500 then ''Internal Server Error''
      else if status = 501 then ''Not Implemented'' else ''OK'')"

definition crlf :: string where "crlf = [creturn, newline]"

definition response_header :: "http_response \<Rightarrow> string" where
  "response_header resp =
     ''HTTP/1.1 '' @ show_int (hr_status resp) @ '' '' @ status_reason (hr_status resp) @ crlf @
     ''Content-Type: '' @ hr_content_type resp @ crlf @
     ''Content-Length: '' @ show_int (int (length (hr_body resp))) @ crlf @
     ''Connection: close'' @ crlf @ crlf"

datatype write_event = Wrote nat | Write_interrupted | Write_failed

text \<open>\<^verbatim>\<open>write_all\<close>: success, the bytes on the wire and the events left; a write takes no more than it is given.\<close>

fun write_all :: "write_event list \<Rightarrow> string \<Rightarrow> bool \<times> string \<times> write_event list" where
  "write_all es [] = (True, [], es)"
| "write_all [] (c # buf) = (False, [], [])"
| "write_all (Write_failed # es) (c # buf) = (False, [], es)"
| "write_all (Write_interrupted # es) (c # buf) = write_all es (c # buf)"
| "write_all (Wrote n # es) (c # buf) =
     (if n = 0 then (False, [], es)
      else case write_all es (drop n (c # buf)) of (ok, out, es') \<Rightarrow> (ok, take n (c # buf) @ out, es'))"

definition http_write_response :: "write_event list \<Rightarrow> http_response \<Rightarrow> bool \<times> string" where
  "http_write_response es resp =
     (let header = response_header resp
      in if 512 \<le> length header then (False, [])
         else case write_all es header of
                (False, out, _) \<Rightarrow> (False, out)
              | (True, out, es1) \<Rightarrow>
                  (case write_all es1 (hr_body resp) of (ok, out', _) \<Rightarrow> (ok, out @ out')))"

section \<open>Requests do not depend on how they arrive\<close>

fun data_of :: "read_event list \<Rightarrow> string" where
  "data_of [] = []"
| "data_of (Arrived d # es) = d @ data_of es"
| "data_of (_ # es) = data_of es"

text \<open>A connection that delivers its data: no failure, and no read that returns nothing.\<close>

fun delivers :: "read_event list \<Rightarrow> bool" where
  "delivers [] \<longleftrightarrow> True"
| "delivers (Arrived d # es) \<longleftrightarrow> d \<noteq> [] \<and> delivers es"
| "delivers (Read_interrupted # es) \<longleftrightarrow> delivers es"
| "delivers (Read_failed # es) \<longleftrightarrow> False"

text \<open>The request a byte string holds.\<close>

definition parse_bytes :: "string \<Rightarrow> http_request option" where
  "parse_bytes bytes =
     (case find_header_end (take header_max bytes) of
        None \<Rightarrow> None
      | Some i \<Rightarrow>
          (case parse_header_text (take (i + 2) bytes) of
             None \<Rightarrow> None
           | Some rq \<Rightarrow>
               let rest = drop (i + 4) bytes; n = rq_content_length rq
               in if n = 0 then Some rq
                  else if length rest < n then None
                  else Some (rq\<lparr>rq_body := Some (take n rest)\<rparr>)))"

lemma find_header_end_append: "find_header_end a = Some i \<Longrightarrow> find_header_end (a @ b) = Some i \<and> i + 4 \<le> length a"
proof (induction a arbitrary: i rule: find_header_end.induct)
  case (1 a b c d t)
  then show ?case by (cases "find_header_end (b # c # d # t)") (auto split: if_splits)
qed simp_all

lemma read_fd_delivers:
  assumes "delivers es" "es \<noteq> []" "0 < n" "read_fd n es = (r, es')"
  shows "(r = Again \<and> data_of es' = data_of es \<or> (\<exists>d. r = Got d \<and> d \<noteq> [] \<and> length d \<le> n \<and> d @ data_of es' = data_of es)) \<and> delivers es'"
  using assms by (cases "(n, es)" rule: read_fd.cases) (auto split: if_splits)

lemma read_header_data:
  "delivers es \<Longrightarrow> find_header_end buf = None \<Longrightarrow> length buf \<le> header_max \<Longrightarrow>
   (case read_header buf es of
      None \<Rightarrow> find_header_end (take header_max (buf @ data_of es)) = None
    | Some (b, i, es') \<Rightarrow> find_header_end (take header_max (buf @ data_of es)) = Some i \<and> i + 4 \<le> length b \<and>
        delivers es' \<and> b @ data_of es' = buf @ data_of es)"
proof (induction buf es rule: read_header.induct)
  case (1 buf es)
  show ?case
  proof (cases "header_max \<le> length buf \<or> es = []")
    case True
    then show ?thesis using 1(4,5) by (subst read_header.simps) auto
  next
    case False
    obtain r es' where r: "read_fd (header_max - length buf) es = (r, es')" by fastforce
    have d: "delivers es'" and rr: "r = Again \<and> data_of es' = data_of es \<or>
        (\<exists>d. r = Got d \<and> d \<noteq> [] \<and> length d \<le> header_max - length buf \<and> d @ data_of es' = data_of es)"
      using read_fd_delivers [OF 1(3) _ _ r] False by auto
    from rr show ?thesis
    proof
      assume again: "r = Again \<and> data_of es' = data_of es"
      then have "read_header buf es = read_header buf es'" using False r by (subst read_header.simps) simp
      then show ?thesis using 1(2) [OF _ r [symmetric] _ _ d 1(4,5), unfolded conjunct2 [OF again]] False again by simp
    next
      assume "\<exists>d. r = Got d \<and> d \<noteq> [] \<and> length d \<le> header_max - length buf \<and> d @ data_of es' = data_of es"
      then obtain d where got: "r = Got d" "d \<noteq> []" "length d \<le> header_max - length buf" "d @ data_of es' = data_of es" by blast
      have all: "buf @ data_of es = (buf @ d) @ data_of es'" using got(4) by simp
      have len: "length (buf @ d) \<le> header_max" using got(3) 1(5) by simp
      show ?thesis
      proof (cases "find_header_end (buf @ d)")
        case (Some i)
        have "read_header buf es = Some (buf @ d, i, es')" using False r got Some by (subst read_header.simps) simp
        moreover have "find_header_end (take header_max (buf @ data_of es)) = Some i"
          unfolding all by (subst take_append, subst take_all [OF len], rule conjunct1 [OF find_header_end_append [OF Some]])
        ultimately show ?thesis
          using find_header_end_append [OF Some] d got(4) by simp
      next
        case None
        then have "read_header buf es = read_header (buf @ d) es'" using False r got by (subst read_header.simps) simp
        then show ?thesis using 1(1) [OF _ r [symmetric] got(1) _ None d None len, folded all] False got(2) by simp
      qed
    qed
  qed
qed

lemma read_body_data:
  "delivers es \<Longrightarrow> length body \<le> n \<Longrightarrow>
   map_option fst (read_body n body es) = (if n \<le> length (body @ data_of es) then Some (take n (body @ data_of es)) else None)"
proof (induction n body es rule: read_body.induct)
  case (1 n body es)
  show ?case
  proof (cases "n \<le> length body \<or> es = []")
    case True
    then show ?thesis using 1(4) by (subst read_body.simps) auto
  next
    case False
    obtain r es' where r: "read_fd (n - length body) es = (r, es')" by fastforce
    have d: "delivers es'" and rr: "r = Again \<and> data_of es' = data_of es \<or>
        (\<exists>d. r = Got d \<and> d \<noteq> [] \<and> length d \<le> n - length body \<and> d @ data_of es' = data_of es)"
      using read_fd_delivers [OF 1(3) _ _ r] False by auto
    from rr show ?thesis
    proof
      assume again: "r = Again \<and> data_of es' = data_of es"
      then have "read_body n body es = read_body n body es'" using False r by (subst read_body.simps) simp
      then show ?thesis using 1(2) [OF _ r [symmetric] _ _ d 1(4)] False again by simp
    next
      assume "\<exists>d. r = Got d \<and> d \<noteq> [] \<and> length d \<le> n - length body \<and> d @ data_of es' = data_of es"
      then obtain d where got: "r = Got d" "d \<noteq> []" "length d \<le> n - length body" "d @ data_of es' = data_of es" by blast
      have all: "body @ data_of es = (body @ d) @ data_of es'" using got(4) by simp
      have len: "length (body @ d) \<le> n" using got(3) 1(4) by simp
      have "read_body n body es = read_body n (body @ d) es'" using False r got by (subst read_body.simps) simp
      then show ?thesis using 1(1) [OF _ r [symmetric] got(1) _ d len] False got(2) unfolding all by simp
    qed
  qed
qed

lemma parse_delivered:
  assumes "delivers es"
  shows "map_option fst (http_parse_request es) = parse_bytes (data_of es)"
proof (cases "read_header [] es")
  case None
  then show ?thesis
    using read_header_data [OF assms, of "[]"] by (simp add: http_parse_request_def parse_bytes_def)
next
  case (Some x)
  obtain b i es' where x: "x = (b, i, es')" by (cases x) auto
  have h: "find_header_end (take header_max (data_of es)) = Some i" "i + 4 \<le> length b" "delivers es'" "data_of es = b @ data_of es'"
    using read_header_data [OF assms, of "[]"] Some x by simp_all
  have take: "take (i + 2) (data_of es) = take (i + 2) b" using h(2,4) by simp
  have rest: "drop (i + 4) (data_of es) = drop (i + 4) b @ data_of es'" using h(2,4) by simp
  show ?thesis
  proof (cases "parse_header_text (take (i + 2) b)")
    case None
    then show ?thesis using Some x h(1) take by (simp add: http_parse_request_def parse_bytes_def)
  next
    case (Some rq)
    let ?n = "rq_content_length rq"
    have body: "map_option fst (read_body ?n (take ?n (drop (i + 4) b)) es') =
        (if ?n \<le> length (take ?n (drop (i + 4) b) @ data_of es') then Some (take ?n (take ?n (drop (i + 4) b) @ data_of es')) else None)"
      by (rule read_body_data [OF h(3)]) simp
    have "take ?n (take ?n (drop (i + 4) b) @ data_of es') = take ?n (drop (i + 4) b @ data_of es')"
      "?n \<le> length (take ?n (drop (i + 4) b) @ data_of es') \<longleftrightarrow> ?n \<le> length (drop (i + 4) b @ data_of es')"
      by (auto simp: min_def)
    with body have "map_option fst (read_body ?n (take ?n (drop (i + 4) b)) es') =
        (if ?n \<le> length (drop (i + 4) b @ data_of es') then Some (take ?n (drop (i + 4) b @ data_of es')) else None)"
      by simp
    then have "map_option fst (map_option (\<lambda>(body, es2). (rq\<lparr>rq_body := Some body\<rparr>, es2)) (read_body ?n (take ?n (drop (i + 4) b)) es')) =
        (if length (drop (i + 4) b @ data_of es') < ?n then None else Some (rq\<lparr>rq_body := Some (take ?n (drop (i + 4) b @ data_of es'))\<rparr>))"
      by (cases "read_body ?n (take ?n (drop (i + 4) b)) es'") (auto split: if_splits)
    then show ?thesis
      using Some \<open>read_header [] es = Some x\<close> x h(1) take rest
      by (simp add: http_parse_request_def parse_bytes_def Let_def)
  qed
qed

text \<open>C19: parsing a request does not depend on how the network delivers it: however the bytes are
  split into reads and interrupted, the result is the request that the byte string holds, or
  a failure when the header is not complete within its limit, is malformed, or the body is
  shorter than announced; the reading loops always end.\<close>

theorem request_independent_of_reads:
  assumes "delivers es"
  shows "map_option fst (http_parse_request es) = parse_bytes (data_of es)"
  using assms by (rule parse_delivered)

definition demo_request :: string where
  "demo_request = ''POST /api/query?mode=single HTTP/1.1'' @ crlf @ ''Content-Length: 8'' @ crlf @ crlf @ ''SELECT 1''"

theorem request_independent_of_reads_witness:
  "map_option fst (http_parse_request
     [Arrived (take 17 demo_request), Read_interrupted, Arrived (take 44 (drop 17 demo_request)), Arrived (drop 61 demo_request)]) =
   Some \<lparr>rq_method = ''POST'', rq_path = ''/api/query'', rq_query = ''mode=single'', rq_content_type = [],
     rq_content_length = 8, rq_body = Some ''SELECT 1''\<rparr>"
proof -
  let ?es = "[Arrived (take 17 demo_request), Read_interrupted, Arrived (take 44 (drop 17 demo_request)), Arrived (drop 61 demo_request)]"
  have "delivers ?es" by code_simp
  moreover have "parse_bytes (data_of ?es) =
    Some \<lparr>rq_method = ''POST'', rq_path = ''/api/query'', rq_query = ''mode=single'', rq_content_type = [],
     rq_content_length = 8, rq_body = Some ''SELECT 1''\<rparr>"
  proof -
    have "data_of ?es = demo_request" "find_header_end demo_request = Some 55" "drop 59 demo_request = ''SELECT 1''"
      "parse_header_text (take 57 demo_request) = Some \<lparr>rq_method = ''POST'', rq_path = ''/api/query'', rq_query = ''mode=single'',
         rq_content_type = [], rq_content_length = 8, rq_body = None\<rparr>"
      by code_simp+
    moreover have "take header_max demo_request = demo_request" by (simp add: header_max_def demo_request_def crlf_def)
    ultimately show ?thesis by (simp add: parse_bytes_def)
  qed
  ultimately show ?thesis using request_independent_of_reads [of ?es] by simp
qed

section \<open>What is written\<close>

lemma write_all_prefix: "write_all es buf = (ok, out, es') \<Longrightarrow> (\<exists>rest. buf = out @ rest) \<and> (ok \<longrightarrow> out = buf)"
proof (induction es buf arbitrary: ok out es' rule: write_all.induct)
  case (5 n es c buf)
  show ?case
  proof (cases "n = 0")
    case False
    obtain ok1 out1 es1 where w: "write_all es (drop n (c # buf)) = (ok1, out1, es1)" by (cases "write_all es (drop n (c # buf))") auto
    then have "ok = ok1" "out = take n (c # buf) @ out1" using 5(2) False by auto
    moreover obtain rest where "drop n (c # buf) = out1 @ rest" "ok1 \<longrightarrow> out1 = drop n (c # buf)"
      using 5(1) [OF False w] by blast
    ultimately show ?thesis by (metis append.assoc append_take_drop_id)
  qed (use 5(2) in simp)
qed auto

lemma response_written: "http_write_response es resp = (True, out) \<Longrightarrow> out = response_header resp @ hr_body resp"
  by (auto simp: http_write_response_def Let_def split: if_splits bool.splits prod.splits dest: write_all_prefix)

end
