(* ===== verification/Router.thy ===== *)
theory Router
  imports Engine Dict_Cache Http_Protocol
begin

text \<open>
  The request router of \<^verbatim>\<open>src/router.c\<close>: query parameters, the small JSON readers and writers,
  the dictionary endpoints with the response cache, the SQL endpoints and static files. The
  server state is the engine, the cache (created on first use), the web root and the regular
  files under it. Printed clock readings are parameters. A request body is used as a C
  string, up to its first NUL, and so is a decoded query parameter. The lock mode that
  \<^verbatim>\<open>mode=single\<close> selects is the \<open>st_single\<close> flag of \<open>Engine_Lock\<close>.
\<close>

section \<open>State\<close>

record server =
  sv_engine :: engine
  sv_cache :: "dict_cache option"
  sv_root :: string
  sv_files :: "string \<Rightarrow> string option"

text \<open>The printed readings of the clock: statement time, lock wait, cache lookup and the total lock wait.\<close>

record clock =
  ck_elapsed :: string
  ck_wait :: string
  ck_lookup :: string
  ck_wait_ns :: string

definition cache_capacity :: int where "cache_capacity = 1024"

definition router_set_web_root :: "string \<Rightarrow> server \<Rightarrow> server" where
  "router_set_web_root dir sv = (if dir = [] then sv else sv\<lparr>sv_root := strncpy 511 dir\<rparr>)"

definition router_dict_cache :: "server \<Rightarrow> dict_cache" where
  "router_dict_cache sv = (case sv_cache sv of None \<Rightarrow> dict_cache_create cache_capacity | Some c \<Rightarrow> c)"

definition method_is :: "http_request \<Rightarrow> string \<Rightarrow> bool" where
  "method_is rq m \<longleftrightarrow> rq_method rq = m"

definition c_str :: "string \<Rightarrow> string" where
  "c_str s = takeWhile (\<lambda>c. c \<noteq> nul) s"

section \<open>Query parameters\<close>

lemma cut_at_shorter: "cut_at c s = (a, Some b) \<Longrightarrow> length b < length s"
  using length_dropWhile_le [of "\<lambda>x. x \<noteq> c" s] by (auto simp: cut_at_def split: list.splits)

text \<open>The pieces between ampersands.\<close>

function query_parts :: "string \<Rightarrow> string list" where
  "query_parts p =
     (if p = [] then []
      else case cut_at (CHR ''&'') p of
             (part, None) \<Rightarrow> [part]
           | (part, Some rest) \<Rightarrow> part # query_parts rest)"
  by pat_completeness auto

termination
  by (relation "measure length") (auto intro: cut_at_shorter dest: sym)

declare query_parts.simps [simp del]

definition query_has_single_mode :: "string \<Rightarrow> bool" where
  "query_has_single_mode query \<longleftrightarrow> ''mode=single'' \<in> set (query_parts query)"

definition from_hex :: "char \<Rightarrow> nat option" where
  "from_hex c =
     (if is_digit c then Some (code_of c - 48)
      else if 97 \<le> code_of c \<and> code_of c \<le> 102 then Some (code_of c - 97 + 10)
      else if 65 \<le> code_of c \<and> code_of c \<le> 70 then Some (code_of c - 65 + 10) else None)"

text \<open>Decoding into a buffer with room for \<open>n\<close> more characters.\<close>

fun url_decode :: "nat \<Rightarrow> string \<Rightarrow> string" where
  "url_decode 0 s = []"
| "url_decode (Suc n) [] = []"
| "url_decode (Suc n) (c # a # b # s) =
     (case (if c = CHR ''%'' then (from_hex a, from_hex b) else (None, None)) of
        (Some hi, Some lo) \<Rightarrow> char_of (16 * hi + lo) # url_decode n s
      | _ \<Rightarrow> (if c = CHR ''+'' then CHR '' '' else c) # url_decode n (a # b # s))"
| "url_decode (Suc n) (c # s) = (if c = CHR ''+'' then CHR '' '' else c) # url_decode n s"

definition query_param :: "string \<Rightarrow> string \<Rightarrow> nat \<Rightarrow> string option" where
  "query_param query key cap =
     (case find_idx (\<lambda>p. length key < length p \<and> take (length key) p = key \<and> p ! length key = CHR ''='') (query_parts query) of
        None \<Rightarrow> None
      | Some i \<Rightarrow> Some (c_str (url_decode (cap - 1) (take 1023 (drop (length key + 1) (query_parts query ! i))))))"

section \<open>Bodies\<close>

definition json_response :: "int \<Rightarrow> string \<Rightarrow> http_response" where
  "json_response status body = \<lparr>hr_status = status, hr_content_type = ''application/json'', hr_body = body\<rparr>"

definition error_response :: "int \<Rightarrow> string \<Rightarrow> http_response" where
  "error_response status name =
     json_response status (''{'' @ json_key ''ok'' @ ''false,'' @ json_key ''error'' @ jq @ name @ jq @ ''}'')"

definition warming_up :: http_response where
  "warming_up = json_response 503 (''{'' @ json_key ''ok'' @ ''false,'' @ json_key ''error'' @ jq @ ''warming_up'' @ jq @ '','' @
     json_key ''retry_after_ms'' @ ''500}'')"

text \<open>\<^verbatim>\<open>append_json_escaped\<close> at an offset of a buffer: the characters it adds.\<close>

fun append_json_escaped :: "nat \<Rightarrow> nat \<Rightarrow> string \<Rightarrow> string" where
  "append_json_escaped cap off [] = []"
| "append_json_escaped cap off (c # s) =
     (if cap \<le> off + 1 then []
      else if (c = CHR 0x22 \<or> c = CHR 0x5C) \<and> off + 2 < cap then CHR 0x5C # c # append_json_escaped cap (off + 2) s
      else if c = CHR 0x0A \<and> off + 2 < cap then CHR 0x5C # CHR ''n'' # append_json_escaped cap (off + 2) s
      else if c = CHR 0x0D \<and> off + 2 < cap then CHR 0x5C # CHR ''r'' # append_json_escaped cap (off + 2) s
      else if c = CHR 0x09 \<and> off + 2 < cap then CHR 0x5C # CHR ''t'' # append_json_escaped cap (off + 2) s
      else if 32 \<le> code_of c then c # append_json_escaped cap (off + 1) s
      else append_json_escaped cap off s)"

definition append_char :: "nat \<Rightarrow> char \<Rightarrow> string \<Rightarrow> string option" where
  "append_char cap c out = (if cap \<le> length out + 1 then None else Some (out @ [c]))"

fun sql_escape_literal :: "nat \<Rightarrow> nat \<Rightarrow> string \<Rightarrow> string option" where
  "sql_escape_literal cap off [] = Some []"
| "sql_escape_literal cap off (c # s) =
     (if c = CHR 0x27
      then (if cap \<le> off + 2 then None
            else map_option (\<lambda>t. CHR 0x27 # CHR 0x27 # t) (sql_escape_literal cap (off + 2) s))
      else if cap \<le> off + 1 then None
      else map_option (\<lambda>t. c # t) (sql_escape_literal cap (off + 1) s))"

definition is_positive_int_text :: "string \<Rightarrow> bool" where
  "is_positive_int_text text \<longleftrightarrow> text \<noteq> [] \<and> list_all is_digit text"

definition is_lowercase_word :: "string \<Rightarrow> bool" where
  "is_lowercase_word text \<longleftrightarrow> text \<noteq> [] \<and> list_all is_lower text"

definition parse_limit_param :: "string \<Rightarrow> int option" where
  "parse_limit_param query =
     (case query_param query ''limit'' 32 of
        None \<Rightarrow> Some 5
      | Some text \<Rightarrow>
          if \<not> is_positive_int_text text then None
          else let limit = atoi text in if limit \<le> 0 \<or> limit > 20 then None else Some limit)"

section \<open>Reading JSON\<close>

definition json_unescape :: "char \<Rightarrow> char option" where
  "json_unescape e =
     (if e = CHR 0x22 \<or> e = CHR 0x5C \<or> e = CHR ''/'' then Some e
      else if e = CHR ''n'' then Some (CHR 0x0A)
      else if e = CHR ''r'' then Some (CHR 0x0D)
      else if e = CHR ''t'' then Some (CHR 0x09) else None)"

text \<open>The characters up to the closing quote, into a buffer of \<open>cap\<close> that holds \<open>len\<close>.\<close>

fun read_quoted :: "nat \<Rightarrow> nat \<Rightarrow> string \<Rightarrow> (string \<times> string) option" where
  "read_quoted cap len [] = None"
| "read_quoted cap len (c # s) =
     (if c = CHR 0x22 then Some ([], s)
      else if c = CHR 0x5C then
        (case s of
           [] \<Rightarrow> None
         | e # t \<Rightarrow>
             (case json_unescape e of
                None \<Rightarrow> None
              | Some d \<Rightarrow>
                  if code_of d < 32 \<or> cap \<le> len + 1 then None
                  else map_option (\<lambda>(v, r). (d # v, r)) (read_quoted cap (len + 1) t)))
      else if code_of c < 32 \<or> cap \<le> len + 1 then None
      else map_option (\<lambda>(v, r). (c # v, r)) (read_quoted cap (len + 1) s))"

lemma read_quoted_shorter: "read_quoted cap len s = Some (v, r) \<Longrightarrow> length r < length s"
proof (induction cap len s arbitrary: v r rule: read_quoted.induct)
  case (2 cap len c s)
  then show ?case by (fastforce split: if_splits list.splits option.splits)
qed simp

definition json_read_string_at :: "nat \<Rightarrow> string \<Rightarrow> (string \<times> string) option" where
  "json_read_string_at cap p = (case p of [] \<Rightarrow> None | c # s \<Rightarrow> if c = CHR 0x22 then read_quoted cap 0 s else None)"

text \<open>\<^verbatim>\<open>strstr\<close>: the text after the first occurrence.\<close>

fun after_match :: "string \<Rightarrow> string \<Rightarrow> string option" where
  "after_match needle [] = (if needle = [] then Some [] else None)"
| "after_match needle (c # s) =
     (if take (length needle) (c # s) = needle then Some (drop (length needle) (c # s)) else after_match needle s)"

lemma after_match_shorter: "after_match needle s = Some r \<Longrightarrow> needle \<noteq> [] \<Longrightarrow> length r < length s"
  by (induction needle s rule: after_match.induct) (auto split: if_splits)

lemma dropWhile_shorter: "length q < n \<Longrightarrow> dropWhile p q = r \<Longrightarrow> length r < n"
  using length_dropWhile_le [of p q] by auto

function find_field :: "string \<Rightarrow> nat \<Rightarrow> string \<Rightarrow> string option" where
  "find_field needle cap p =
     (if needle = [] then None
      else case after_match needle p of
             None \<Rightarrow> None
           | Some q \<Rightarrow>
               (case dropWhile is_space q of
                  [] \<Rightarrow> find_field needle cap []
                | c # r \<Rightarrow>
                    if c \<noteq> CHR '':'' then find_field needle cap (c # r)
                    else map_option fst (json_read_string_at cap (dropWhile is_space r))))"
  by pat_completeness auto

termination
  by (relation "measure (\<lambda>(needle, cap, p). length p)")
    (auto dest: after_match_shorter dropWhile_shorter [OF after_match_shorter] simp del: dropWhile_eq_Nil_conv)

declare find_field.simps [simp del]

definition json_get_string_field :: "string \<Rightarrow> string \<Rightarrow> nat \<Rightarrow> string option" where
  "json_get_string_field body field cap =
     (let needle = jq @ field @ jq in if 96 \<le> length needle then None else find_field needle cap body)"

text \<open>The text after a string that starts at the cursor.\<close>

fun skip_quoted :: "string \<Rightarrow> string option" where
  "skip_quoted [] = None"
| "skip_quoted (c # s) =
     (if c = CHR 0x22 then Some s
      else if c = CHR 0x5C then (case s of [] \<Rightarrow> None | _ # t \<Rightarrow> skip_quoted t)
      else skip_quoted s)"

lemma skip_quoted_shorter: "skip_quoted s = Some r \<Longrightarrow> length r < length s"
  by (induction s rule: skip_quoted.induct) (auto split: if_splits list.splits)

definition skip_json_string :: "string \<Rightarrow> string option" where
  "skip_json_string p = (case p of [] \<Rightarrow> None | c # s \<Rightarrow> if c = CHR 0x22 then skip_quoted s else None)"

text \<open>The rest of a row: past the next bracket outside strings.\<close>

function skip_row :: "string \<Rightarrow> string option" where
  "skip_row [] = Some []"
| "skip_row (c # s) =
     (if c = CHR 0x22 then (case skip_quoted s of None \<Rightarrow> None | Some r \<Rightarrow> skip_row r)
      else if c = CHR '']'' then Some s
      else skip_row s)"
  by pat_completeness auto

termination
  by (relation "measure length") (auto dest: skip_quoted_shorter)

lemma skip_row_shorter: "skip_row s = Some r \<Longrightarrow> length r \<le> length s"
  by (induction s rule: skip_row.induct) (auto split: if_splits option.splits dest: skip_quoted_shorter)

definition suggestions_cap :: nat where "suggestions_cap = 4096"

text \<open>Adding one suggestion: a comma unless it is the first, and the quoted value.\<close>

definition add_suggestion :: "bool \<Rightarrow> string \<Rightarrow> string \<Rightarrow> string option" where
  "add_suggestion first v out =
     (case (if first then Some out else append_char suggestions_cap (CHR '','') out) of
        None \<Rightarrow> None
      | Some o1 \<Rightarrow>
          (case append_char suggestions_cap (CHR 0x22) o1 of
             None \<Rightarrow> None
           | Some o2 \<Rightarrow> append_char suggestions_cap (CHR 0x22) (o2 @ append_json_escaped suggestions_cap (length o2) v)))"

text \<open>The first cell of a row that starts after its bracket: the output and the rest of the row.\<close>

definition first_cell :: "bool \<Rightarrow> string \<Rightarrow> string \<Rightarrow> (bool \<times> string \<times> string) option" where
  "first_cell first p out =
     (case p of
        [] \<Rightarrow> Some (first, out, p)
      | c # _ \<Rightarrow>
          if c \<noteq> CHR 0x22 then Some (first, out, p)
          else case json_read_string_at 256 p of
                 None \<Rightarrow> None
               | Some (v, r) \<Rightarrow> map_option (\<lambda>o1. (False, o1, r)) (add_suggestion first v out))"

lemma first_cell_shorter: "first_cell first p out = Some (f, o1, r) \<Longrightarrow> length r \<le> length p"
  by (auto simp: first_cell_def json_read_string_at_def split: list.splits if_splits option.splits dest: read_quoted_shorter)

lemma dropWhile_tail: "dropWhile p q = c # s \<Longrightarrow> length s < length q"
  using length_dropWhile_le [of p q] by auto

function suggestions_loop :: "bool \<Rightarrow> string \<Rightarrow> string \<Rightarrow> string option" where
  "suggestions_loop first p out =
     (case dropWhile (\<lambda>c. is_space c \<or> c = CHR '','') p of
        [] \<Rightarrow> Some out
      | c # s \<Rightarrow>
          if c = CHR '']'' then Some out
          else if c \<noteq> CHR ''['' then suggestions_loop first s out
          else case first_cell first (dropWhile is_space s) out of
                 None \<Rightarrow> None
               | Some (first', out', r) \<Rightarrow>
                   (case skip_row r of None \<Rightarrow> None | Some r' \<Rightarrow> suggestions_loop first' r' out'))"
  by pat_completeness auto

termination
proof (relation "measure (\<lambda>(first, p, out). length p)", goal_cases)
  case (3 first p out c s x y z a r r')
  then have "length r' \<le> length r" "length r \<le> length (dropWhile is_space s)" "length s < length p"
    by (auto dest: skip_row_shorter first_cell_shorter dropWhile_tail)
  then show ?case using length_dropWhile_le [of is_space s] by simp
qed (auto dest: dropWhile_tail)

declare suggestions_loop.simps [simp del]

definition build_suggestions_array :: "string \<Rightarrow> string option" where
  "build_suggestions_array engine_json =
     (case after_match (jq @ ''rows'' @ jq @ '':['') engine_json of
        None \<Rightarrow> Some ''[]''
      | Some p \<Rightarrow> (case suggestions_loop True p ''['' of None \<Rightarrow> None | Some out \<Rightarrow> append_char suggestions_cap (CHR '']'') out))"

section \<open>Responses around the engine's\<close>

definition build_autocomplete_response :: "clock \<Rightarrow> string \<Rightarrow> engine_result \<Rightarrow> string option" where
  "build_autocomplete_response ck prefix r =
     map_option (\<lambda>suggestions.
         ''{'' @ json_key ''ok'' @ json_bool (er_ok r) @ '','' @ json_key ''prefix'' @ jq @ append_json_escaped 512 0 prefix @ jq @
         '','' @ json_key ''suggestions'' @ suggestions @ '','' @ json_key ''elapsed_ms'' @ ck_elapsed ck @
         '','' @ json_key ''engine'' @ er_json r @ ''}'')
       (build_suggestions_array (er_json r))"

definition build_admin_insert_response :: "clock \<Rightarrow> string \<Rightarrow> engine_result \<Rightarrow> string" where
  "build_admin_insert_response ck english r =
     ''{'' @ json_key ''ok'' @ json_bool (er_ok r) @ '','' @ json_key ''english'' @ jq @ append_json_escaped 512 0 english @ jq @
     '','' @ json_key ''elapsed_ms'' @ ck_elapsed ck @ '','' @ json_key ''engine'' @ er_json r @ ''}''"

definition wrap_dict_response :: "bool \<Rightarrow> string \<Rightarrow> string \<Rightarrow> bool \<Rightarrow> string \<Rightarrow> string \<Rightarrow> string" where
  "wrap_dict_response ok mode query cache_hit lookup_ms engine_json =
     ''{'' @ json_key ''ok'' @ json_bool ok @ '','' @ json_key ''cache_hit'' @ json_bool cache_hit @
     '','' @ json_key ''cache_lookup_ms'' @ lookup_ms @ '','' @ json_key ''mode'' @ jq @ mode @ jq @
     '','' @ json_key ''query'' @ jq @ append_json_escaped 512 0 query @ jq @ '','' @ json_key ''engine'' @ engine_json @ ''}''"

text \<open>Running a text on the server's engine.\<close>

definition run_sql :: "clock \<Rightarrow> string \<Rightarrow> server \<Rightarrow> engine_result \<times> server" where
  "run_sql ck sql sv =
     (case engine_exec_sql (ck_elapsed ck) (ck_wait ck) sql (sv_engine sv) of (r, en) \<Rightarrow> (r, sv\<lparr>sv_engine := en\<rparr>))"

definition handle_autocomplete_request :: "clock \<Rightarrow> http_request \<Rightarrow> server \<Rightarrow> http_response \<times> server" where
  "handle_autocomplete_request ck rq sv =
     (if \<not> method_is rq ''GET'' then (error_response 405 ''method_not_allowed'', sv)
      else case query_param (rq_query rq) ''prefix'' 256 of
        None \<Rightarrow> (error_response 400 ''invalid_prefix'', sv)
      | Some prefix \<Rightarrow>
          if \<not> is_lowercase_word prefix then (error_response 400 ''invalid_prefix'', sv)
          else case parse_limit_param (rq_query rq) of
                 None \<Rightarrow> (error_response 400 ''invalid_limit'', sv)
               | Some limit \<Rightarrow>
                   (case map_option (\<lambda>e. ''SELECT english FROM dictionary WHERE english LIKE '' @ CHR 0x27 # e @ ''%'' @
                            CHR 0x27 # '' LIMIT '' @ show_int limit @ '';'') (sql_escape_literal 512 0 prefix) of
                      None \<Rightarrow> (error_response 400 ''query_too_long'', sv)
                    | Some sql \<Rightarrow>
                        if 768 \<le> length sql then (error_response 400 ''query_too_long'', sv)
                        else if \<not> engine_is_ready (sv_engine sv) then (warming_up, sv)
                        else (case run_sql ck sql sv of
                                (r, sv1) \<Rightarrow>
                                  (case build_autocomplete_response ck prefix r of
                                     None \<Rightarrow> (error_response 500 ''response_too_large'', sv1)
                                   | Some body \<Rightarrow> (json_response (if er_ok r then 200 else 500) body, sv1)))))"

definition handle_admin_insert_request :: "clock \<Rightarrow> http_request \<Rightarrow> server \<Rightarrow> http_response \<times> server" where
  "handle_admin_insert_request ck rq sv =
     (if \<not> method_is rq ''POST'' then (error_response 405 ''method_not_allowed'', sv)
      else if rq_body rq = None \<or> rq_content_length rq = 0 then (error_response 400 ''empty_body'', sv)
      else let body = c_str (the (rq_body rq))
           in case (json_get_string_field body ''english'' 256, json_get_string_field body ''korean'' 256) of
                (Some english, Some korean) \<Rightarrow>
                  if \<not> is_lowercase_word english \<or> korean = [] then (error_response 400 ''invalid_payload'', sv)
                  else (case (sql_escape_literal 512 0 english, sql_escape_literal 512 0 korean) of
                          (Some e, Some k) \<Rightarrow>
                            let sql = ''INSERT INTO dictionary (english, korean) VALUES ('' @ CHR 0x27 # e @ CHR 0x27 # '', '' @
                                      CHR 0x27 # k @ CHR 0x27 # '');''
                            in if 1024 \<le> length sql then (error_response 400 ''payload_too_long'', sv)
                               else if \<not> engine_is_ready (sv_engine sv) then (warming_up, sv)
                               else (case run_sql ck sql sv of
                                       (r, sv1) \<Rightarrow>
                                         let key = ''english:'' @ english;
                                             cache = router_dict_cache sv1;
                                             sv2 = (if er_ok r
                                                    then sv1\<lparr>sv_cache := Some (if length key < 320 then dict_cache_invalidate cache key else cache)\<rparr>
                                                    else sv1)
                                         in (json_response (if er_ok r then 200 else 500) (build_admin_insert_response ck english r), sv2))
                        | _ \<Rightarrow> (error_response 400 ''payload_too_long'', sv))
              | _ \<Rightarrow> (error_response 400 ''invalid_payload'', sv))"

text \<open>A lookup that the cache can answer: the key, the mode, the query and the SQL.\<close>

definition cached_lookup ::
    "clock \<Rightarrow> bool \<Rightarrow> string \<Rightarrow> string \<Rightarrow> string \<Rightarrow> string \<Rightarrow> server \<Rightarrow> http_response \<times> server" where
  "cached_lookup ck bypass key mode query sql sv =
     (let cache = router_dict_cache sv;
          lookup_ms = (if bypass then ''0.000000'' else ck_lookup ck);
          (found, cache1) = (if bypass then (None, cache) else dict_cache_get cache key);
          sv1 = sv\<lparr>sv_cache := Some cache1\<rparr>
      in case found of
           Some json \<Rightarrow> (json_response 200 (wrap_dict_response True mode query True lookup_ms json), sv1)
         | None \<Rightarrow>
             if \<not> engine_is_ready (sv_engine sv1) then (warming_up, sv1)
             else (case run_sql ck sql sv1 of
                     (r, sv2) \<Rightarrow>
                       (json_response 200 (wrap_dict_response (er_ok r) mode query False lookup_ms (er_json r)),
                        if \<not> bypass \<and> er_ok r then sv2\<lparr>sv_cache := Some (snd (dict_cache_put cache1 key (er_json r)))\<rparr> else sv2)))"

text \<open>A query parameter that is present and not empty.\<close>

definition filled_param :: "string \<Rightarrow> string \<Rightarrow> nat \<Rightarrow> string option" where
  "filled_param query key cap = (case query_param query key cap of Some [] \<Rightarrow> None | v \<Rightarrow> v)"

definition handle_dict_request :: "clock \<Rightarrow> http_request \<Rightarrow> server \<Rightarrow> http_response \<times> server" where
  "handle_dict_request ck rq sv =
     (if \<not> method_is rq ''GET'' then (error_response 405 ''method_not_allowed'', sv)
      else let query = rq_query rq;
               sv0 = sv\<lparr>sv_cache := Some (router_dict_cache sv)\<rparr>;
               bypass = (query_param query ''nocache'' 8 = Some ''1'' \<or> query_param query ''nocache'' 8 = Some ''true'')
           in case filled_param query ''english'' 256 of
                Some english \<Rightarrow>
                  (case sql_escape_literal 512 0 english of
                     None \<Rightarrow> (error_response 400 ''query_too_long'', sv0)
                   | Some e \<Rightarrow>
                       let key = ''english:'' @ english;
                           sql = ''SELECT korean FROM dictionary WHERE english = '' @ CHR 0x27 # e @ CHR 0x27 # '';''
                       in if 320 \<le> length key \<or> 768 \<le> length sql then (error_response 400 ''query_too_long'', sv0)
                          else cached_lookup ck bypass key ''english'' english sql sv0)
              | None \<Rightarrow>
                  (case filled_param query ''id'' 64 of
                     Some ident \<Rightarrow>
                       let key = ''id:'' @ ident; sql = ''SELECT english, korean FROM dictionary WHERE id = '' @ ident @ '';''
                       in if \<not> is_positive_int_text ident \<or> 320 \<le> length key \<or> 768 \<le> length sql
                          then (error_response 400 ''invalid_id'', sv0)
                          else cached_lookup ck bypass key ''id'' ident sql sv0
                   | None \<Rightarrow>
                       (case filled_param query ''korean'' 256 of
                          None \<Rightarrow> (error_response 400 ''missing_query'', sv0)
                        | Some korean \<Rightarrow>
                            (case sql_escape_literal 512 0 korean of
                               None \<Rightarrow> (error_response 400 ''query_too_long'', sv0)
                             | Some k \<Rightarrow>
                                 let sql = ''SELECT english FROM dictionary WHERE korean = '' @ CHR 0x27 # k @ CHR 0x27 # '';''
                                 in if 768 \<le> length sql then (error_response 400 ''query_too_long'', sv0)
                                    else if \<not> engine_is_ready (sv_engine sv0) then (warming_up, sv0)
                                    else (case run_sql ck sql sv0 of
                                            (r, sv1) \<Rightarrow>
                                              (json_response 200 (wrap_dict_response (er_ok r) ''korean'' korean False
                                                 ''0.000000'' (er_json r)), sv1))))))"

section \<open>Static files and dispatch\<close>

definition content_type_for_path :: "string \<Rightarrow> string" where
  "content_type_for_path path =
     (let ext = (if CHR ''.'' \<in> set path then CHR ''.'' # rev (takeWhile (\<lambda>c. c \<noteq> CHR ''.'') (rev path)) else [])
      in if ext = ''.html'' then ''text/html; charset=utf-8''
         else if ext = ''.css'' then ''text/css; charset=utf-8''
         else if ext = ''.js'' then ''application/javascript; charset=utf-8''
         else if ext = ''.svg'' then ''image/svg+xml''
         else if ext = ''.json'' then ''application/json''
         else ''application/octet-stream'')"

definition set_jsonf :: "int \<Rightarrow> string \<Rightarrow> string \<Rightarrow> string \<Rightarrow> http_response" where
  "set_jsonf status lead arg trail =
     (if 1024 \<le> length (lead @ arg @ trail) then error_response 500 ''response_too_large''
      else json_response status (lead @ arg @ trail))"

definition read_file_response :: "string \<Rightarrow> server \<Rightarrow> http_response" where
  "read_file_response path sv =
     (case sv_files sv path of
        None \<Rightarrow> set_jsonf 404 (''{'' @ json_key ''ok'' @ ''false,'' @ json_key ''error'' @ jq @ ''not_found'' @ jq @ '','' @
                  json_key ''path'' @ jq) path (jq @ ''}'')
      | Some content \<Rightarrow> \<lparr>hr_status = 200, hr_content_type = content_type_for_path path, hr_body = content\<rparr>)"

fun has_dot_dot :: "string \<Rightarrow> bool" where
  "has_dot_dot (a # b # s) \<longleftrightarrow> a = CHR ''.'' \<and> b = CHR ''.'' \<or> has_dot_dot (b # s)"
| "has_dot_dot _ \<longleftrightarrow> False"

definition serve_static :: "http_request \<Rightarrow> server \<Rightarrow> http_response" where
  "serve_static rq sv =
     (let p = rq_path rq
      in if \<not> method_is rq ''GET'' then error_response 405 ''method_not_allowed''
         else if take 1 p \<noteq> ''/'' \<or> has_dot_dot p \<or> take 2 p = ''//'' then error_response 400 ''bad_path''
         else let path = sv_root sv @ (if p = ''/'' then ''/concurrency.html'' else p)
              in if 1024 \<le> length path then error_response 400 ''path_too_long'' else read_file_response path sv)"

definition take_engine_result :: "engine_result \<Rightarrow> http_response" where
  "take_engine_result r = json_response (if er_ok r then 200 else 500) (er_json r)"

definition stats_response :: "clock \<Rightarrow> server \<Rightarrow> http_response" where
  "stats_response ck sv =
     (let cache = router_dict_cache sv
      in json_response 200 (''{'' @ json_key ''ok'' @ ''true,'' @ json_key ''total_queries'' @ show_nat (en_total (sv_engine sv)) @
           '','' @ json_key ''lock_wait_ns_total'' @ ck_wait_ns ck @ '','' @ json_key ''cache_hits'' @ show_nat (unat (dc_hits cache)) @
           '','' @ json_key ''cache_misses'' @ show_nat (unat (dc_misses cache)) @ ''}''))"

definition router_dispatch :: "clock \<Rightarrow> http_request \<Rightarrow> server \<Rightarrow> http_response \<times> server" where
  "router_dispatch ck rq sv =
     (let p = rq_path rq
      in if p = ''/api/dict'' then handle_dict_request ck rq sv
         else if p = ''/api/autocomplete'' then handle_autocomplete_request ck rq sv
         else if p = ''/api/admin/insert'' then handle_admin_insert_request ck rq sv
         else if p = ''/api/query'' then
           (if \<not> method_is rq ''POST'' then (error_response 405 ''method_not_allowed'', sv)
            else if rq_body rq = None \<or> rq_content_length rq = 0 then (error_response 400 ''empty_sql'', sv)
            else case run_sql ck (c_str (the (rq_body rq))) sv of (r, sv1) \<Rightarrow> (take_engine_result r, sv1))
         else if p = ''/api/explain'' then
           (if \<not> method_is rq ''GET'' then (error_response 405 ''method_not_allowed'', sv)
            else case query_param (rq_query rq) ''sql'' 1024 of
                   None \<Rightarrow> (error_response 400 ''missing_sql'', sv)
                 | Some sql \<Rightarrow>
                     if sql = [] then (error_response 400 ''missing_sql'', sv)
                     else (take_engine_result (engine_explain sql (sv_engine sv)), sv))
         else if p = ''/api/stats'' then
           (if \<not> method_is rq ''GET'' then (error_response 405 ''method_not_allowed'', sv)
            else (stats_response ck sv, sv\<lparr>sv_cache := Some (router_dict_cache sv)\<rparr>))
         else if p = ''/api/inject'' then
           (if \<not> method_is rq ''POST'' then (error_response 405 ''method_not_allowed'', sv)
            else (json_response 501 (''{'' @ json_key ''ok'' @ ''false,'' @ json_key ''error'' @ jq @ ''not_implemented'' @ jq @ '','' @
              json_key ''message'' @ jq @ ''/api/inject is outside server-protocol scope'' @ jq @ ''}''), sv))
         else if take 5 p = ''/api/'' then (error_response 404 ''not_found'', sv)
         else (serve_static rq sv, sv))"

end
