(* ===== verification/Router_Laws.thy ===== *)
theory Router_Laws
  imports Router Trie_Laws
begin

text \<open>
  What the router guarantees: literals cannot smuggle in statements, rejected requests leave
  the engine alone, inserting a word drops its cached answer, and static files come from
  under the web root only.
\<close>

section \<open>Escaped literals\<close>

lemma stmt_end_escaped:
  "sql_escape_literal cap off w = Some e \<Longrightarrow>
   stmt_end (Some (CHR 0x27)) (e @ t) = (case stmt_end (Some (CHR 0x27)) t of (a, b) \<Rightarrow> (e @ a, b))"
  by (induction cap off w arbitrary: e rule: sql_escape_literal.induct)
    (auto split: if_splits prod.splits)

lemma stmt_end_plain:
  "list_all (\<lambda>c. c \<noteq> CHR 0x27 \<and> c \<noteq> CHR 0x22 \<and> c \<noteq> CHR '';'') s \<Longrightarrow>
   stmt_end None (s @ t) = (case stmt_end None t of (a, b) \<Rightarrow> (s @ a, b))"
  by (induction s) (auto split: prod.splits)

lemma split_next_Nil [simp]: "split_next_statement [] = (None, [])"
  by (subst split_next_statement.simps) simp

text \<open>A text that is one statement and its semicolon.\<close>

definition single_statement :: "string \<Rightarrow> bool" where
  "single_statement stmt \<longleftrightarrow> stmt_end None (stmt @ '';'') = (stmt, '';'') \<and> stmt \<noteq> [] \<and>
     \<not> is_space (hd stmt) \<and> \<not> is_space (last stmt)"

lemma single_statement_runs:
  assumes "single_statement stmt"
  shows "exec_loop (stmt @ '';'') en = (case run_statement stmt en of (oc, en') \<Rightarrow> ([oc], en'))"
    and "\<not> is_blank_sql (stmt @ '';'')"
proof -
  obtain c s where stmt: "stmt = c # s" "\<not> is_space c" using assms by (cases stmt) (auto simp: single_statement_def)
  obtain u x where "stmt = u @ [x]" "\<not> is_space x"
    using assms by (cases stmt rule: rev_cases) (auto simp: single_statement_def)
  then have "dropWhile is_space (rev stmt) = rev stmt" by simp
  then have "trim_ws stmt = stmt" using stmt by (simp add: trim_ws_def)
  then have "cut_statement (stmt @ '';'') = (stmt, [])" using assms by (simp add: cut_statement_def single_statement_def)
  then have split: "split_next_statement (stmt @ '';'') = (Some stmt, [])"
    using stmt by (subst split_next_statement.simps) (simp add: Let_def)
  have "exec_loop [] en' = ([], en')" for en'
    by (subst exec_loop.simps) simp
  then show "exec_loop (stmt @ '';'') en = (case run_statement stmt en of (oc, en') \<Rightarrow> ([oc], en'))"
    using split by (subst exec_loop.simps) (simp split: prod.split)
  show "\<not> is_blank_sql (stmt @ '';'')" using stmt by (simp add: is_blank_sql_def)
qed

text \<open>A word as an SQL literal: its single quotes doubled.\<close>

definition quoted :: "string \<Rightarrow> string" where
  "quoted w = CHR 0x27 # concat (map (\<lambda>c. if c = CHR 0x27 then [c, c] else [c]) w) @ [CHR 0x27]"

lemma escape_literal: "sql_escape_literal cap off w = Some e \<Longrightarrow> CHR 0x27 # e @ [CHR 0x27] = quoted w"
  unfolding quoted_def
  by (induction cap off w arbitrary: e rule: sql_escape_literal.induct) (auto split: if_splits)

lemma escape_fits: "off + 2 * length w < cap \<Longrightarrow> sql_escape_literal cap off w \<noteq> None"
  by (induction cap off w rule: sql_escape_literal.induct) auto

lemma quoted_single:
  assumes "list_all (\<lambda>c. c \<noteq> CHR 0x27 \<and> c \<noteq> CHR 0x22 \<and> c \<noteq> CHR '';'') s" "s \<noteq> []" "\<not> is_space (hd s)"
  shows "single_statement (s @ quoted w)"
proof -
  have "stmt_end (Some (CHR 0x27)) (concat (map (\<lambda>c. if c = CHR 0x27 then [c, c] else [c]) w) @ t) =
      (case stmt_end (Some (CHR 0x27)) t of (a, b) \<Rightarrow> (concat (map (\<lambda>c. if c = CHR 0x27 then [c, c] else [c]) w) @ a, b))" for t
    by (induction w) (auto split: prod.splits)
  then have "stmt_end None (s @ quoted w @ '';'') = (s @ quoted w, '';'')"
    using stmt_end_plain [OF assms(1), of "quoted w @ '';''"] by (simp add: quoted_def)
  moreover have "last (s @ quoted w) = CHR 0x27" "\<not> is_space (CHR 0x27)" by (simp_all add: quoted_def is_space_def)
  ultimately show ?thesis using assms(2,3) by (simp add: single_statement_def)
qed

text \<open>The statement a dictionary request asks for, and whether the cache answers it.\<close>

definition lookup_statement :: "string \<Rightarrow> string option" where
  "lookup_statement query =
     (case filled_param query ''english'' 256 of
        Some w \<Rightarrow> Some (''SELECT korean FROM dictionary WHERE english = '' @ quoted w)
      | None \<Rightarrow>
          (case filled_param query ''id'' 64 of
             Some n \<Rightarrow> Some (''SELECT english, korean FROM dictionary WHERE id = '' @ n)
           | None \<Rightarrow> map_option (\<lambda>w. ''SELECT english FROM dictionary WHERE korean = '' @ quoted w)
                        (filled_param query ''korean'' 256)))"

definition cache_answers :: "string \<Rightarrow> server \<Rightarrow> bool" where
  "cache_answers query sv =
     (query_param query ''nocache'' 8 \<notin> {Some ''1'', Some ''true''} \<and>
      (case (filled_param query ''english'' 256, filled_param query ''id'' 64) of
         (Some w, _) \<Rightarrow> fst (dict_cache_get (router_dict_cache sv) (''english:'' @ w)) \<noteq> None
       | (None, Some n) \<Rightarrow> fst (dict_cache_get (router_dict_cache sv) (''id:'' @ n)) \<noteq> None
       | (None, None) \<Rightarrow> False))"

text \<open>A SELECT on the dictionary, whatever the parser's arrays hold.\<close>

definition reads_dictionary :: "string \<Rightarrow> bool" where
  "reads_dictionary stmt \<longleftrightarrow>
     (\<forall>h. \<exists>sql. parse_sql h stmt = Some sql \<and> sql_type sql = QUERY_SELECT \<and> sql_table sql = ''dictionary'')"

lemma select_head:
  "tokenize (''SELECT korean FROM dictionary WHERE english = '' @ r) =
     ''SELECT'' # [''korean''] @ [''FROM'', ''dictionary''] @ ''WHERE'' # ''english'' # ''='' # tokenize r"
  "tokenize (''SELECT english FROM dictionary WHERE korean = '' @ r) =
     ''SELECT'' # [''english''] @ [''FROM'', ''dictionary''] @ ''WHERE'' # ''korean'' # ''='' # tokenize r"
  "tokenize (''SELECT english, korean FROM dictionary WHERE id = '' @ r) =
     ''SELECT'' # [''english'', '','', ''korean''] @ [''FROM'', ''dictionary''] @ ''WHERE'' # ''id'' # ''='' # tokenize r"
  by (simp_all add: is_space_def is_quote_def is_punct_def is_word_char_def is_alnum_def is_digit_def is_upper_def is_lower_def)

lemma opt_where_keeps: "sql_type (fst (opt_where h t sql)) = sql_type sql \<and> sql_table (fst (opt_where h t sql)) = sql_table sql"
  by (simp add: opt_where_def parse_where_def Let_def split: prod.split)

lemma select_parts:
  "sql_type (opt_limit t sql) = sql_type sql" "sql_table (opt_limit t sql) = sql_table sql"
  "sql_type (fst (opt_order t sql)) = sql_type sql" "sql_table (fst (opt_order t sql)) = sql_table sql"
  by (simp_all add: opt_limit_def opt_order_def Let_def split: prod.split option.split)

lemma reads_dictionaryI:
  assumes "tokenize stmt = ''SELECT'' # cols @ [''FROM'', ''dictionary''] @ t"
    and "\<And>u. select_columns (cols @ ''FROM'' # u) = (cs, ''FROM'' # u)"
  shows "reads_dictionary stmt"
proof -
  have kw: "\<not> ieq ''SELECT'' ''CREATE''" "\<not> ieq ''SELECT'' ''INSERT''" "ieq ''SELECT'' ''SELECT''" "ieq ''FROM'' ''FROM''"
    by code_simp+
  show ?thesis
    unfolding reads_dictionary_def parse_sql_def assms(1)
    by (simp add: kw parse_select_def assms(2) expect_kw_def match_kw_def advance_def set_table_def split_beta Let_def
        opt_where_keeps select_parts del: ieq.simps)
qed

lemma one_column:
  assumes "\<not> is_select_stop_token c" "length c \<le> 159"
  shows "select_columns (c # ''FROM'' # u) = ([c], ''FROM'' # u)"
proof -
  have "\<not> ieq ''FROM'' '',''" by code_simp
  then show ?thesis using assms by (subst select_columns.simps) (simp add: column_expr_def match_kw_def del: ieq.simps)
qed

lemma two_columns:
  assumes "\<not> is_select_stop_token c" "length c \<le> 159" "\<not> is_select_stop_token d" "length d \<le> 159"
  shows "select_columns (c # '','' # d # ''FROM'' # u) = ([c, d], ''FROM'' # u)"
proof -
  have "ieq '','' '',''" by code_simp
  then show ?thesis
    using assms by (subst select_columns.simps) (simp add: column_expr_def match_kw_def one_column del: ieq.simps)
qed

lemma lookup_reads:
  "reads_dictionary (''SELECT korean FROM dictionary WHERE english = '' @ r)"
  "reads_dictionary (''SELECT english FROM dictionary WHERE korean = '' @ r)"
  "reads_dictionary (''SELECT english, korean FROM dictionary WHERE id = '' @ r)"
proof -
  have cols: "\<not> is_select_stop_token ''korean''" "\<not> is_select_stop_token ''english''" by code_simp+
  show "reads_dictionary (''SELECT korean FROM dictionary WHERE english = '' @ r)"
    by (rule reads_dictionaryI [OF select_head(1), of "[''korean'']"]) (simp add: one_column cols)
  show "reads_dictionary (''SELECT english FROM dictionary WHERE korean = '' @ r)"
    by (rule reads_dictionaryI [OF select_head(2), of "[''english'']"]) (simp add: one_column cols)
  show "reads_dictionary (''SELECT english, korean FROM dictionary WHERE id = '' @ r)"
    by (rule reads_dictionaryI [OF select_head(3), of "[''english'', ''korean'']"]) (simp add: two_columns cols)
qed

text \<open>What running the one statement of a text leaves, and the cached lookup around it.\<close>

definition after_statement :: "string \<Rightarrow> engine \<Rightarrow> engine" where
  "after_statement stmt en = (let en' = snd (run_statement stmt en) in en'\<lparr>en_total := Suc (en_total en')\<rparr>)"

lemma run_sql_single:
  "single_statement stmt \<Longrightarrow> sv_engine (snd (run_sql ck (stmt @ '';'') sv)) = after_statement stmt (sv_engine sv)"
  by (simp add: run_sql_def engine_exec_sql_def single_statement_runs after_statement_def Let_def split: prod.split)

lemma run_sql_ok:
  "single_statement stmt \<Longrightarrow> er_ok (fst (run_sql ck (stmt @ '';'') sv)) = oc_ok (fst (run_statement stmt (sv_engine sv)))"
  by (simp add: run_sql_def engine_exec_sql_def single_statement_runs split: prod.split)

lemma cached_lookup_engine:
  assumes "single_statement stmt" "cached_lookup ck bypass key mode query (stmt @ '';'') sv = (rsp, sv')"
  shows "sv_engine sv' = (if hr_status rsp = 200 \<and> \<not> (\<not> bypass \<and> fst (dict_cache_get (router_dict_cache sv) key) \<noteq> None)
                     then after_statement stmt (sv_engine sv) else sv_engine sv)"
proof -
  have run: "sv_engine v = after_statement stmt (sv_engine sv)"
    if "run_sql ck (stmt @ '';'') (sv\<lparr>sv_cache := c\<rparr>) = (r, v)" for c r v
    using run_sql_single [OF assms(1), of ck "sv\<lparr>sv_cache := c\<rparr>"] that by simp
  show ?thesis
    using assms(2) run
    by (cases bypass; cases "dict_cache_get (router_dict_cache sv) key"; cases "fst (dict_cache_get (router_dict_cache sv) key)")
      (auto simp: cached_lookup_def Let_def json_response_def warming_up_def split: prod.splits if_splits)
qed

text \<open>The three kinds of lookups of the handler, with the statement each asks for.\<close>

definition nocache :: "http_request \<Rightarrow> bool" where
  "nocache rq \<longleftrightarrow> query_param (rq_query rq) ''nocache'' 8 = Some ''1'' \<or> query_param (rq_query rq) ''nocache'' 8 = Some ''true''"

definition with_cache :: "server \<Rightarrow> server" where
  "with_cache sv = sv\<lparr>sv_cache := Some (router_dict_cache sv)\<rparr>"

lemma with_cache_simps [simp]:
  "sv_engine (with_cache sv) = sv_engine sv" "router_dict_cache (with_cache sv) = router_dict_cache sv"
  by (simp_all add: with_cache_def router_dict_cache_def)

lemma literal_statement:
  "sql_escape_literal cap off w = Some e \<Longrightarrow> s @ CHR 0x27 # e @ CHR 0x27 # '';'' = (s @ quoted w) @ '';''"
  using escape_literal [of cap off w e, symmetric] by simp

lemma dict_english:
  assumes "method_is rq ''GET''" "filled_param (rq_query rq) ''english'' 256 = Some w"
  shows "(\<exists>msg. handle_dict_request ck rq sv = (error_response 400 msg, with_cache sv)) \<or>
    handle_dict_request ck rq sv = cached_lookup ck (nocache rq) (''english:'' @ w) ''english'' w
      ((''SELECT korean FROM dictionary WHERE english = '' @ quoted w) @ '';'') (with_cache sv)"
proof (cases "sql_escape_literal 512 0 w")
  case None
  then show ?thesis
    unfolding handle_dict_request_def Let_def with_cache_def by (simp only: assms None not_True_eq_False if_False option.case) blast
next
  case (Some e)
  show ?thesis
    unfolding handle_dict_request_def Let_def with_cache_def nocache_def
    by (simp only: assms Some not_True_eq_False if_False option.case literal_statement [OF Some] split: if_split) blast
qed

lemma dict_id:
  assumes "method_is rq ''GET''" "filled_param (rq_query rq) ''english'' 256 = None"
    and "filled_param (rq_query rq) ''id'' 64 = Some n"
  shows "(\<exists>msg. handle_dict_request ck rq sv = (error_response 400 msg, with_cache sv)) \<or>
    is_positive_int_text n \<and>
    handle_dict_request ck rq sv = cached_lookup ck (nocache rq) (''id:'' @ n) ''id'' n
      ((''SELECT english, korean FROM dictionary WHERE id = '' @ n) @ '';'') (with_cache sv)"
  unfolding handle_dict_request_def Let_def with_cache_def nocache_def
  by (simp only: assms not_True_eq_False if_False option.case append_assoc split: if_split) blast

lemma dict_korean:
  assumes "method_is rq ''GET''" "filled_param (rq_query rq) ''english'' 256 = None"
    and "filled_param (rq_query rq) ''id'' 64 = None" "filled_param (rq_query rq) ''korean'' 256 = Some w"
  shows "(\<exists>msg. handle_dict_request ck rq sv = (error_response 400 msg, with_cache sv)) \<or>
    handle_dict_request ck rq sv = (warming_up, with_cache sv) \<or>
    handle_dict_request ck rq sv =
      (case run_sql ck ((''SELECT english FROM dictionary WHERE korean = '' @ quoted w) @ '';'') (with_cache sv) of
         (r, sv1) \<Rightarrow> (json_response 200 (wrap_dict_response (er_ok r) ''korean'' w False ''0.000000'' (er_json r)), sv1))"
proof (cases "sql_escape_literal 512 0 w")
  case None
  then show ?thesis
    unfolding handle_dict_request_def Let_def with_cache_def by (simp only: assms None not_True_eq_False if_False option.case) blast
next
  case (Some e)
  show ?thesis
    unfolding handle_dict_request_def Let_def with_cache_def nocache_def
    by (simp only: assms Some not_True_eq_False if_False option.case literal_statement [OF Some] split: if_split) blast
qed

lemma digits_single:
  assumes "is_positive_int_text n"
  shows "single_statement (''SELECT english, korean FROM dictionary WHERE id = '' @ n)" (is "single_statement (?s @ n)")
proof -
  have n: "n \<noteq> []" "list_all is_digit n" using assms by (simp_all add: is_positive_int_text_def)
  then have "list_all (\<lambda>c. c \<noteq> CHR 0x27 \<and> c \<noteq> CHR 0x22 \<and> c \<noteq> CHR '';'') n"
    by (auto simp: list_all_iff is_digit_def)
  then have "list_all (\<lambda>c. c \<noteq> CHR 0x27 \<and> c \<noteq> CHR 0x22 \<and> c \<noteq> CHR '';'') (?s @ n)" by simp
  then have "stmt_end None ((?s @ n) @ '';'') = (?s @ n, '';'')" by (subst stmt_end_plain) simp_all
  moreover have "is_digit (last n)" using n by (simp add: list_all_iff)
  then have "\<not> is_space (last (?s @ n))" using n(1) by (auto simp: is_digit_def is_space_def)
  moreover have "\<not> is_space (hd (?s @ n))" by (simp add: is_space_def)
  ultimately show ?thesis by (simp add: single_statement_def)
qed

lemma lookup_single:
  "single_statement (''SELECT korean FROM dictionary WHERE english = '' @ quoted w)"
  "single_statement (''SELECT english FROM dictionary WHERE korean = '' @ quoted w)"
  by (rule quoted_single; simp add: is_space_def)+

lemma refusals [simp]: "hr_status (error_response 400 msg) = 400" "hr_status warming_up = 503"
  by (simp_all add: error_response_def json_response_def warming_up_def)

lemma cached_result:
  assumes "(\<exists>msg. res = (error_response 400 msg, with_cache sv)) \<or>
      res = cached_lookup ck b key mode query (stmt @ '';'') (with_cache sv)"
    and "single_statement stmt" "res = (rsp, sv')"
  shows "sv_engine sv' = (if hr_status rsp = 200 \<and> \<not> (\<not> b \<and> fst (dict_cache_get (router_dict_cache sv) key) \<noteq> None)
     then after_statement stmt (sv_engine sv) else sv_engine sv)"
proof -
  consider (err) msg where "rsp = error_response 400 msg" "sv' = with_cache sv"
    | (run) "cached_lookup ck b key mode query (stmt @ '';'') (with_cache sv) = (rsp, sv')"
    using assms(1,3) by auto
  then show ?thesis
  proof cases
    case run
    show ?thesis using cached_lookup_engine [OF assms(2) run] by (simp only: with_cache_simps)
  qed simp
qed

text \<open>C21: whatever a client looks up, a request to the dictionary endpoint runs exactly one statement
  or none. It runs one exactly when it is answered with 200 and not from the cache; that
  statement is the SELECT on the dictionary with the looked-up word as a literal, its quotes
  doubled, or with an id of digits, so that no quote or semicolon of the word starts another
  statement, and no such statement writes.\<close>

theorem lookup_is_one_statement:
  "case handle_dict_request ck rq sv of (rsp, sv') \<Rightarrow>
     if hr_status rsp = 200 \<and> \<not> cache_answers (rq_query rq) sv
     then (\<exists>stmt. lookup_statement (rq_query rq) = Some stmt \<and> reads_dictionary stmt \<and>
             sv_engine sv' = after_statement stmt (sv_engine sv))
     else sv_engine sv' = sv_engine sv"
proof (cases "handle_dict_request ck rq sv")
  case res: (Pair rsp sv')
  let ?q = "rq_query rq"
  show ?thesis
  proof (cases "method_is rq ''GET''")
    case False
    then have "(rsp, sv') = (error_response 405 ''method_not_allowed'', sv)" using res by (simp add: handle_dict_request_def)
    then show ?thesis unfolding res by (simp add: error_response_def json_response_def)
  next
    case get: True
    consider (english) w where "filled_param ?q ''english'' 256 = Some w"
      | (ident) n where "filled_param ?q ''english'' 256 = None" "filled_param ?q ''id'' 64 = Some n"
      | (korean) w where "filled_param ?q ''english'' 256 = None" "filled_param ?q ''id'' 64 = None" "filled_param ?q ''korean'' 256 = Some w"
      | (none) "filled_param ?q ''english'' 256 = None" "filled_param ?q ''id'' 64 = None" "filled_param ?q ''korean'' 256 = None"
      by (meson not_None_eq)
    then show ?thesis
    proof cases
      case (english w)
      have "lookup_statement ?q = Some (''SELECT korean FROM dictionary WHERE english = '' @ quoted w)"
        "cache_answers ?q sv = (\<not> nocache rq \<and> fst (dict_cache_get (router_dict_cache sv) (''english:'' @ w)) \<noteq> None)"
        using english by (simp_all add: lookup_statement_def cache_answers_def nocache_def)
      then show ?thesis
        using cached_result [OF dict_english [OF get english] lookup_single(1) res] lookup_reads(1) [of "quoted w"]
        by (simp only: res prod.case split: if_split) blast
    next
      case (ident n)
      have stmt: "lookup_statement ?q = Some (''SELECT english, korean FROM dictionary WHERE id = '' @ n)"
        "cache_answers ?q sv = (\<not> nocache rq \<and> fst (dict_cache_get (router_dict_cache sv) (''id:'' @ n)) \<noteq> None)"
        using ident by (simp_all add: lookup_statement_def cache_answers_def nocache_def)
      show ?thesis
      proof (cases "is_positive_int_text n")
        case True
        have "(\<exists>msg. handle_dict_request ck rq sv = (error_response 400 msg, with_cache sv)) \<or>
            handle_dict_request ck rq sv = cached_lookup ck (nocache rq) (''id:'' @ n) ''id'' n
              ((''SELECT english, korean FROM dictionary WHERE id = '' @ n) @ '';'') (with_cache sv)"
          using dict_id [OF get ident, of ck sv] by blast
        from cached_result [OF this digits_single [OF True] res] show ?thesis
          using stmt lookup_reads(3) [of n] by (simp only: res prod.case split: if_split) blast
      next
        case False
        then obtain msg where "rsp = error_response 400 msg" "sv' = with_cache sv"
          using dict_id [OF get ident, of ck sv] res by auto
        then show ?thesis unfolding res by simp
      qed
    next
      case (korean w)
      let ?stmt = "''SELECT english FROM dictionary WHERE korean = '' @ quoted w"
      have stmt: "lookup_statement ?q = Some ?stmt" "\<not> cache_answers ?q sv"
        using korean by (simp_all add: lookup_statement_def cache_answers_def)
      obtain r v where run: "run_sql ck (?stmt @ '';'') (with_cache sv) = (r, v)" by (cases rule: prod.exhaust)
      have "sv_engine v = after_statement ?stmt (sv_engine sv)"
        using run_sql_single [OF lookup_single(2) [of w], of ck "with_cache sv"] unfolding run by simp
      then show ?thesis
        using dict_korean [OF get korean, of ck sv] stmt lookup_reads(2) [of "quoted w"] unfolding res run
        by (elim disjE exE) (simp_all only: prod.case prod.inject, auto simp: json_response_def)
    next
      case none
      then have "(rsp, sv') = (error_response 400 ''missing_query'', with_cache sv)"
        using res get unfolding handle_dict_request_def Let_def with_cache_def by simp
      then show ?thesis unfolding res by simp
    qed
  qed
qed

section \<open>Rejected requests\<close>

text \<open>A refusal: bad request, not found, wrong method, not implemented, warming up.\<close>

definition refusal :: "http_response \<Rightarrow> bool" where
  "refusal rsp \<longleftrightarrow> hr_status rsp \<in> {400, 404, 405, 501, 503}"

text \<open>A handler's answer that leaves the engine of a server as it was if it is a refusal.\<close>

definition refusal_keeps :: "server \<Rightarrow> http_response \<times> server \<Rightarrow> bool" where
  "refusal_keeps sv res \<longleftrightarrow> (refusal (fst res) \<longrightarrow> sv_engine (snd res) = sv_engine sv)"

lemma refusal_keeps_same [simp]: "sv_engine sv' = sv_engine sv \<Longrightarrow> refusal_keeps sv (rsp, sv')"
  by (simp add: refusal_keeps_def)

lemma refusal_keeps_served [simp]:
  "refusal_keeps sv (json_response 200 b, sv')" "refusal_keeps sv (json_response 500 b, sv')" "refusal_keeps sv (error_response 500 b, sv')"
  by (simp_all add: refusal_keeps_def refusal_def json_response_def error_response_def)

lemma refusal_keeps_result [simp]:
  "refusal_keeps sv (json_response (if c then 200 else 500) b, sv')" "refusal_keeps sv (take_engine_result r, sv')"
  by (simp_all add: take_engine_result_def)

lemma cached_lookup_refusal: "sv_engine sv = sv_engine sv0 \<Longrightarrow> refusal_keeps sv0 (cached_lookup ck bypass key mode query sql sv)"
  by (simp add: cached_lookup_def Let_def split: option.split prod.split if_split)

lemma run_refusal: "refusal_keeps sv0 (case run_sql ck sql sv of (r, sv1) \<Rightarrow> (json_response 200 (f r), g r sv1))"
  by (simp split: prod.split)

lemma dict_refusal: "refusal_keeps sv (handle_dict_request ck rq sv)"
proof (cases "filled_param (rq_query rq) ''english'' 256")
  case (Some english)
  then show ?thesis
    by (cases "sql_escape_literal 512 0 english") (simp_all add: handle_dict_request_def Let_def cached_lookup_refusal)
next
  case no_english: None
  show ?thesis
  proof (cases "filled_param (rq_query rq) ''id'' 64")
    case (Some ident)
    then show ?thesis using no_english by (simp add: handle_dict_request_def Let_def cached_lookup_refusal)
  next
    case no_id: None
    then show ?thesis
    proof (cases "filled_param (rq_query rq) ''korean'' 256")
      case (Some korean)
      then show ?thesis using no_english no_id
        by (cases "sql_escape_literal 512 0 korean") (simp_all add: handle_dict_request_def Let_def run_refusal)
    qed (simp add: handle_dict_request_def Let_def no_english no_id)
  qed
qed

lemma autocomplete_refusal: "refusal_keeps sv (handle_autocomplete_request ck rq sv)"
proof (cases "query_param (rq_query rq) ''prefix'' 256")
  case (Some prefix)
  then show ?thesis
    by (cases "parse_limit_param (rq_query rq)"; cases "sql_escape_literal 512 0 prefix")
      (simp_all add: handle_autocomplete_request_def split: prod.split option.split)
qed (simp add: handle_autocomplete_request_def)

lemma admin_insert_refusal: "refusal_keeps sv (handle_admin_insert_request ck rq sv)"
proof -
  let ?body = "c_str (the (rq_body rq))"
  show ?thesis
  proof (cases "json_get_string_field ?body ''english'' 256")
    case (Some english)
    note en = Some
    show ?thesis
    proof (cases "json_get_string_field ?body ''korean'' 256")
      case (Some korean)
      then show ?thesis using en
        by (cases "sql_escape_literal 512 0 english"; cases "sql_escape_literal 512 0 korean")
          (simp_all add: handle_admin_insert_request_def Let_def split: prod.split)
    qed (simp add: handle_admin_insert_request_def Let_def en)
  qed (simp add: handle_admin_insert_request_def Let_def)
qed

text \<open>C20: a request that the router refuses (status 400, 404, 405, 501 or 503) has not touched the
  engine: no statement ran, no statement counter, file, table, index or word tree changed,
  for every path, method, query and body and whatever the cache holds.\<close>

theorem refused_requests_keep_engine:
  "case router_dispatch ck rq sv of (rsp, sv') \<Rightarrow>
     refusal rsp \<longrightarrow> sv_engine sv' = sv_engine sv"
proof -
  have "refusal_keeps sv (router_dispatch ck rq sv)"
    by (simp add: router_dispatch_def Let_def dict_refusal autocomplete_refusal admin_insert_refusal split: prod.split option.split)
  then show ?thesis by (cases "router_dispatch ck rq sv") (simp add: refusal_keeps_def)
qed

section \<open>The cache after an insert\<close>

lemma read_quoted_bound: "read_quoted cap len s = Some (v, r) \<Longrightarrow> len < cap \<Longrightarrow> len + length v < cap"
proof (induction cap len s arbitrary: v r rule: read_quoted.induct)
  case (2 cap len c s)
  consider (stop) "c = CHR 0x22" | (escape) "c = CHR 0x5C" | (plain) "c \<noteq> CHR 0x22" "c \<noteq> CHR 0x5C" by blast
  then show ?case
  proof cases
    case escape
    then obtain e t d v' where s: "s = e # t" "json_unescape e = Some d" "v = d # v'" "\<not> (code_of d < 32 \<or> cap \<le> len + 1)"
      "read_quoted cap (len + 1) t = Some (v', r)"
      using 2(3) by (auto split: list.splits option.splits if_splits)
    have "len + 1 + length v' < cap" using s(4) by (intro 2(1) [OF _ escape s(1,2,4,5)]) (auto simp: escape)
    then show ?thesis by (simp add: s(3))
  next
    case plain
    then obtain v' where "v = c # v'" "\<not> (code_of c < 32 \<or> cap \<le> len + 1)" "read_quoted cap (len + 1) s = Some (v', r)"
      using 2(3) by (auto split: if_splits)
    then show ?thesis using 2(2) [OF plain] by simp
  qed (use 2 in simp)
qed simp

lemma find_field_Nil: "find_field needle cap [] = None"
  by (cases needle) (simp_all add: find_field.simps)

lemma find_field_bound: "find_field needle cap p = Some v \<Longrightarrow> 0 < cap \<Longrightarrow> length v < cap"
proof (induction needle cap p rule: find_field.induct)
  case (1 needle cap p)
  show ?case
  proof (cases "after_match needle p")
    case (Some q)
    then have ne: "needle \<noteq> []" using 1(3) by (subst (asm) find_field.simps) (simp split: if_splits)
    show ?thesis
    proof (cases "dropWhile is_space q")
      case Nil
      have "find_field needle cap p = None" using Some ne Nil by (subst find_field.simps) (simp add: find_field_Nil del: dropWhile_eq_Nil_conv)
      then show ?thesis using 1(3) by simp
    next
      case (Cons c r)
      show ?thesis
      proof (cases "c = CHR '':''")
        case True
        then show ?thesis using 1(3,4) Some ne Cons
          by (subst (asm) find_field.simps) (auto simp: json_read_string_at_def dest!: read_quoted_bound split: list.splits if_splits)
      next
        case False
        then have "find_field needle cap (c # r) = Some v" using 1(3) Some ne Cons by (subst (asm) find_field.simps) simp
        then show ?thesis using 1(2) [OF ne Some Cons False] 1(4) by blast
      qed
    qed
  qed (use 1(3) in \<open>subst (asm) find_field.simps; simp split: if_splits\<close>)
qed

lemma field_bound: "json_get_string_field body field cap = Some v \<Longrightarrow> 0 < cap \<Longrightarrow> length v < cap"
  by (auto simp: json_get_string_field_def Let_def intro: find_field_bound split: if_splits)

lemma run_sql_cache: "run_sql ck sql sv = (r, sv') \<Longrightarrow> router_dict_cache sv' = router_dict_cache sv"
  by (auto simp: run_sql_def router_dict_cache_def split: prod.splits)

lemma new_cache [simp]: "router_dict_cache (sv\<lparr>sv_cache := Some c\<rparr>) = c"
  by (simp add: router_dict_cache_def)

text \<open>C22: when the insert endpoint answers 200, no cached answer for the inserted word is left,
  whatever the engine did, so the next lookup of the word reads the table; the entries of
  all other keys stay, and when it answers anything else the whole cache stays.\<close>

theorem insert_drops_cached_word:
  assumes "dc_inv (router_dict_cache sv)"
    and "rq_path rq = ''/api/admin/insert''" "rq_body rq = Some body"
    and "json_get_string_field (c_str body) ''english'' 256 = Some english"
    and "router_dispatch ck rq sv = (rsp, sv')"
  shows "dc_inv (router_dict_cache sv') \<and>
    dc_lookup (router_dict_cache sv') =
      (if hr_status rsp = 200 then (dc_lookup (router_dict_cache sv))(''english:'' @ english := None)
       else dc_lookup (router_dict_cache sv))"
proof -
  let ?c = "router_dict_cache sv"
  let ?key = "''english:'' @ english"
  have key: "length ?key < 320" using field_bound [OF assms(4)] by simp
  have drop: "dc_inv (dict_cache_invalidate ?c ?key)" "dc_lookup (dict_cache_invalidate ?c ?key) = (dc_lookup ?c)(?key := None)"
    using invalidate_inv [OF assms(1)] invalidate_lookup [OF assms(1)] by simp_all
  have handled: "handle_admin_insert_request ck rq sv = (rsp, sv')" using assms(2,5) by (simp add: router_dispatch_def)
  show ?thesis
  proof (cases "json_get_string_field (c_str body) ''korean'' 256")
    case (Some korean)
    show ?thesis using handled assms(1,3,4) Some drop key
      by (cases "sql_escape_literal 512 0 english"; cases "sql_escape_literal 512 0 korean")
        (auto simp: handle_admin_insert_request_def Let_def error_response_def json_response_def warming_up_def
          dest!: run_sql_cache split: if_splits prod.splits)
  next
    case None
    then show ?thesis using handled assms(1,3,4)
      by (auto simp: handle_admin_insert_request_def Let_def error_response_def json_response_def split: if_splits)
  qed
qed

section \<open>Static files\<close>

lemma has_dot_dot_append: "has_dot_dot (a @ CHR ''.'' # CHR ''.'' # b)"
proof (induction a)
  case (Cons c a)
  then show ?case by (cases a) simp_all
qed simp

text \<open>C30: a page answered with 200 is a regular file under the web root: its name is the root
  followed by a path that starts with a slash and has no dot-dot in it, whatever path the
  request names, and the server state stays as it was.\<close>

theorem static_stays_under_root:
  assumes "take 5 (rq_path rq) \<noteq> ''/api/''" "router_dispatch ck rq sv = (rsp, sv')" "hr_status rsp = 200"
  shows "sv' = sv \<and> (\<exists>name. sv_files sv (sv_root sv @ CHR ''/'' # name) = Some (hr_body rsp) \<and>
    (\<nexists>a b. name = a @ ''..'' @ b))"
proof -
  have rsp: "rsp = serve_static rq sv" "sv' = sv" using assms(1,2) by (auto simp: router_dispatch_def Let_def split: if_splits)
  let ?p = "rq_path rq"
  let ?name = "if ?p = ''/'' then ''concurrency.html'' else tl ?p"
  have slash: "take 1 ?p = ''/'' \<Longrightarrow> ?p = CHR ''/'' # tl ?p" by (cases ?p) auto
  have p: "take 1 ?p = ''/''" "\<not> has_dot_dot ?p" and ok: "hr_status (read_file_response (sv_root sv @ CHR ''/'' # ?name) sv) = 200"
    and body: "rsp = read_file_response (sv_root sv @ CHR ''/'' # ?name) sv"
    using assms(3) slash unfolding rsp(1) serve_static_def Let_def
    by (auto simp: error_response_def json_response_def split: if_splits)
  have "sv_files sv (sv_root sv @ CHR ''/'' # ?name) = Some (hr_body rsp)"
    using ok body by (auto simp: read_file_response_def set_jsonf_def error_response_def json_response_def split: option.splits if_splits)
  moreover have "\<nexists>a b. ?name = a @ ''..'' @ b"
  proof
    assume "\<exists>a b. ?name = a @ ''..'' @ b"
    then obtain a b where "?name = a @ ''..'' @ b" by blast
    then have "has_dot_dot ?name" using has_dot_dot_append [of a b] by simp
    moreover have "\<not> has_dot_dot ''concurrency.html''" by code_simp
    moreover have "has_dot_dot (tl ?p) \<Longrightarrow> has_dot_dot ?p" by (cases ?p rule: has_dot_dot.cases) auto
    ultimately show False using p(2) by (simp split: if_splits)
  qed
  ultimately show ?thesis using rsp(2) by blast
qed

section \<open>A small server\<close>

definition word_server :: server where
  "word_server = \<lparr>sv_engine = word_engine,
     sv_cache = Some (snd (dict_cache_put (dict_cache_create 2) ''english:cat'' ''stale'')),
     sv_root = ''./web'', sv_files = [''./web/index.html'' \<mapsto> ''hi'']\<rparr>"

definition some_clock :: clock where
  "some_clock = \<lparr>ck_elapsed = ''0.1'', ck_wait = ''0.0'', ck_lookup = ''0.0'', ck_wait_ns = ''0''\<rparr>"

definition plain_request :: "string \<Rightarrow> string \<Rightarrow> http_request" where
  "plain_request meth path = \<lparr>rq_method = meth, rq_path = path, rq_query = [], rq_content_type = [],
     rq_content_length = 0, rq_body = None\<rparr>"

definition insert_cat :: http_request where
  "insert_cat = (plain_request ''POST'' ''/api/admin/insert'')\<lparr>rq_content_length := 31,
     rq_body := Some (''{'' @ json_key ''english'' @ jq @ ''cat'' @ jq @ '','' @ json_key ''korean'' @ jq @ ''go'' @ jq @ ''}'')\<rparr>"

definition look_up :: "string \<Rightarrow> http_request" where
  "look_up query = (plain_request ''GET'' ''/api/dict'')\<lparr>rq_query := query\<rparr>"

theorem lookup_is_one_statement_witness:
  "sv_engine (snd (handle_dict_request some_clock (look_up ''english=a%27;DELETE%20FROM%20t'') word_server)) =
     after_statement (''SELECT korean FROM dictionary WHERE english = '' @ quoted (''a'' @ [CHR 0x27] @ '';DELETE FROM t'')) word_engine"
proof -
  have "hr_status (fst (handle_dict_request some_clock (look_up ''english=a%27;DELETE%20FROM%20t'') word_server)) = 200"
    "\<not> cache_answers (rq_query (look_up ''english=a%27;DELETE%20FROM%20t'')) word_server"
    "lookup_statement (rq_query (look_up ''english=a%27;DELETE%20FROM%20t'')) =
       Some (''SELECT korean FROM dictionary WHERE english = '' @ quoted (''a'' @ [CHR 0x27] @ '';DELETE FROM t''))"
    by code_simp+
  then show ?thesis
    using lookup_is_one_statement [where ck = some_clock and rq = "look_up ''english=a%27;DELETE%20FROM%20t''" and sv = word_server]
    by (auto simp: word_server_def split: prod.splits simp del: append.simps append_Cons)
qed

theorem refused_requests_keep_engine_witness:
  "sv_engine (snd (router_dispatch some_clock (plain_request ''GET'' ''/api/query'') word_server)) = word_engine"
proof -
  have "refusal (fst (router_dispatch some_clock (plain_request ''GET'' ''/api/query'') word_server))" by code_simp
  then show ?thesis
    using refused_requests_keep_engine [where ck = some_clock and rq = "plain_request ''GET'' ''/api/query''" and sv = word_server]
    by (simp add: word_server_def split: prod.splits)
qed

lemma insert_cat_status: "hr_status (fst (router_dispatch some_clock insert_cat word_server)) = 200"
proof -
  let ?stmt = "''INSERT INTO dictionary (english, korean) VALUES ('' @ quoted ''cat'' @ '', '' @ quoted ''go'' @ '')''"
  let ?sql = "''INSERT INTO dictionary (english, korean) VALUES ('' @ CHR 0x27 # ''cat'' @ CHR 0x27 # '', '' @
    CHR 0x27 # ''go'' @ CHR 0x27 # '');''"
  have parts: "method_is insert_cat ''POST''" "rq_body insert_cat \<noteq> None" "rq_content_length insert_cat \<noteq> 0"
    "json_get_string_field (c_str (the (rq_body insert_cat))) ''english'' 256 = Some ''cat''"
    "json_get_string_field (c_str (the (rq_body insert_cat))) ''korean'' 256 = Some ''go''"
    "sql_escape_literal 512 0 ''cat'' = Some ''cat''" "sql_escape_literal 512 0 ''go'' = Some ''go''"
    "engine_is_ready (sv_engine word_server)" "\<not> 1024 \<le> length ?sql" "?sql = ?stmt @ '';''"
    "is_lowercase_word ''cat''"
    by code_simp+
  have stmt: "single_statement ?stmt" by code_simp
  have "oc_ok (fst (run_statement ?stmt word_engine))"
  proof -
    have "(case engine_parse ?stmt word_engine of None \<Rightarrow> False
       | Some sql \<Rightarrow> sql_type sql = QUERY_INSERT \<and>
           fst (storage_insert (sql_table sql) (sql_columns sql) (sql_values sql) word_store))" by code_simp
    moreover have "en_storage word_engine = word_store" by (simp add: word_engine_def)
    ultimately show ?thesis
      by (auto simp: run_statement_def execute_statement_def write_outcome_def text_outcome_def Let_def
          simp del: append.simps append_Cons split: option.splits)
  qed
  then have ok: "er_ok (fst (run_sql some_clock ?sql word_server))"
    unfolding parts(10) using run_sql_ok [OF stmt, of some_clock word_server] by (simp add: word_server_def)
  have path: "rq_path insert_cat = ''/api/admin/insert''" by code_simp
  have "hr_status (fst (handle_admin_insert_request some_clock insert_cat word_server)) = 200"
    unfolding handle_admin_insert_request_def Let_def using parts(1-9,11) ok
    by (cases "run_sql some_clock ?sql word_server") (simp add: json_response_def del: append.simps append_Cons)
  then show ?thesis using path by (simp add: router_dispatch_def)
qed

theorem insert_drops_cached_word_witness:
  "dc_lookup (router_dict_cache word_server) ''english:cat'' = Some ''stale'' \<and>
   dc_lookup (router_dict_cache (snd (router_dispatch some_clock insert_cat word_server))) ''english:cat'' = None"
proof -
  have "router_dict_cache word_server = snd (dict_cache_put (dict_cache_create 2) ''english:cat'' ''stale'')"
    by (simp add: router_dict_cache_def word_server_def)
  then have inv: "dc_inv (router_dict_cache word_server)" using put_inv [OF create_inv] by simp
  have "hr_status (fst (router_dispatch some_clock insert_cat word_server)) = 200" by (rule insert_cat_status)
  moreover have "rq_path insert_cat = ''/api/admin/insert''" "rq_body insert_cat \<noteq> None"
    "json_get_string_field (c_str (the (rq_body insert_cat))) ''english'' 256 = Some ''cat''"
    "dc_lookup (router_dict_cache word_server) ''english:cat'' = Some ''stale''"
    by code_simp+
  ultimately show ?thesis
    using insert_drops_cached_word [OF inv _ _ _ prod.collapse [symmetric], where rq = insert_cat and english = "''cat''" and ck = some_clock]
    by auto
qed

theorem static_stays_under_root_witness:
  "(\<exists>name. sv_files word_server (sv_root word_server @ CHR ''/'' # name) =
      Some (hr_body (fst (router_dispatch some_clock (plain_request ''GET'' ''/index.html'') word_server)))) \<and>
   hr_body (fst (router_dispatch some_clock (plain_request ''GET'' ''/index.html'') word_server)) = ''hi''"
proof -
  have side: "take 5 (rq_path (plain_request ''GET'' ''/index.html'')) \<noteq> ''/api/''"
    "hr_status (fst (router_dispatch some_clock (plain_request ''GET'' ''/index.html'') word_server)) = 200"
    "hr_body (fst (router_dispatch some_clock (plain_request ''GET'' ''/index.html'') word_server)) = ''hi''"
    by code_simp+
  show ?thesis using static_stays_under_root [OF side(1) prod.collapse [symmetric] side(2)] side(3) by blast
qed

end
