(* ===== verification/Executor.thy ===== *)
theory Executor
  imports Engine Index_Laws
begin

text \<open>
  The executor of the command-line program, \<^verbatim>\<open>src/executor.c\<close>: one parsed statement against
  the storage, with what a SELECT prints on standard output. It has its own copies of the
  engine's helpers for literals, trimming and comparison, which the first lemmas show to
  agree with the engine's. The flag says whether standard output is a terminal.
\<close>

section \<open>The code\<close>

fun executor_equals_ignore_case :: "string \<Rightarrow> string \<Rightarrow> bool" where
  "executor_equals_ignore_case (a # as) (b # bs) = (if to_lower a \<noteq> to_lower b then False else executor_equals_ignore_case as bs)"
| "executor_equals_ignore_case as bs = (as = [] \<and> bs = [])"

definition executor_trim_whitespace :: "string \<Rightarrow> string" where
  "executor_trim_whitespace s = rev (dropWhile is_space (rev (dropWhile is_space s)))"

text \<open>Without the quotes around it, cut to the buffer.\<close>

definition executor_strip_optional_quotes :: "nat \<Rightarrow> string \<Rightarrow> string" where
  "executor_strip_optional_quotes room s =
     (if 2 \<le> length s \<and> (hd s = CHR 0x27 \<and> last s = CHR 0x27 \<or> hd s = CHR 0x22 \<and> last s = CHR 0x22)
      then take room (butlast (tl s)) else take room s)"

definition executor_parse_int_literal :: "string \<Rightarrow> int option" where
  "executor_parse_int_literal s =
     (let t = executor_trim_whitespace (executor_strip_optional_quotes 255 s)
      in if t = [] then None
         else case strtol t of
                None \<Rightarrow> None
              | Some (v, rest, erange) \<Rightarrow>
                  if erange \<or> dropWhile is_space rest \<noteq> [] \<or> v < int_min \<or> int_max < v then None else Some v)"

definition executor_parse_between_bounds :: "where_clause \<Rightarrow> (int \<times> int) option" where
  "executor_parse_between_bounds w =
     (case (executor_parse_int_literal (w_value w), executor_parse_int_literal (w_value_to w)) of
        (Some lo, Some hi) \<Rightarrow> Some (if lo > hi then (hi, lo) else (lo, hi))
      | _ \<Rightarrow> None)"

definition executor_parse_lookup_id :: "where_clause \<Rightarrow> int option" where
  "executor_parse_lookup_id w = executor_parse_int_literal (w_value w)"

definition executor_should_use_id_index :: "parsed_sql \<Rightarrow> bool" where
  "executor_should_use_id_index sql \<longleftrightarrow>
     (case sql_where sql of [w] \<Rightarrow> executor_equals_ignore_case (w_column w) ''id'' \<and> w_op w = ''='' | _ \<Rightarrow> False)"

definition executor_should_use_id_range :: "parsed_sql \<Rightarrow> bool" where
  "executor_should_use_id_range sql \<longleftrightarrow>
     (case sql_where sql of
        [w] \<Rightarrow> executor_equals_ignore_case (w_column w) ''id'' \<and> executor_equals_ignore_case (w_op w) ''BETWEEN'' | _ \<Rightarrow> False)"

lemma executor_ieq [simp]: "executor_equals_ignore_case = ieq"
proof (intro ext)
  show "executor_equals_ignore_case a b = ieq a b" for a b by (induction a b rule: ieq.induct) auto
qed

lemma executor_int_literal [simp]: "executor_parse_int_literal = parse_int_literal"
proof (intro ext)
  have "strtol [] = None" by (simp add: strtol_def)
  moreover have "executor_trim_whitespace = trim_ws" by (simp add: fun_eq_iff executor_trim_whitespace_def trim_ws_def)
  moreover have "executor_strip_optional_quotes n s = strip_quotes n s" for n s
    by (auto simp: executor_strip_optional_quotes_def strip_quotes_def)
  ultimately show "executor_parse_int_literal s = parse_int_literal s" for s
    by (simp add: executor_parse_int_literal_def parse_int_literal_def Let_def)
qed

lemma executor_helpers [simp]:
  "executor_parse_between_bounds = parse_between_bounds" "executor_parse_lookup_id w = parse_int_literal (w_value w)"
  "executor_should_use_id_index = should_use_id_index" "executor_should_use_id_range = should_use_id_range"
  by (simp_all add: fun_eq_iff executor_parse_between_bounds_def parse_between_bounds_def executor_parse_lookup_id_def
      executor_should_use_id_index_def should_use_id_index_def executor_should_use_id_range_def should_use_id_range_def
      split: list.split)

text \<open>The rows of an id range or of one id, printed; \<open>None\<close> is the return value -1.\<close>

definition executor_try_range_select :: "bool \<Rightarrow> string \<Rightarrow> parsed_sql \<Rightarrow> storage \<Rightarrow> string option \<times> storage" where
  "executor_try_range_select tty table sql s =
     (if \<not> executor_should_use_id_range sql then (None, s)
      else case (executor_parse_between_bounds (sql_where sql ! 0), index_registry_get (st_index s) table) of
             (Some (lo, hi), Some slot) \<Rightarrow>
               (case range_rows (tree_at (st_index s) slot) lo hi 16 of
                  None \<Rightarrow> (None, s)
                | Some rows \<Rightarrow>
                    (case storage_select_result_by_row_indices table sql rows s of
                       (rs, s1) \<Rightarrow> (map_option (print_rowset tty) rs, s1)))
           | _ \<Rightarrow> (None, s))"

definition executor_try_indexed_select :: "bool \<Rightarrow> string \<Rightarrow> parsed_sql \<Rightarrow> storage \<Rightarrow> string option \<times> storage" where
  "executor_try_indexed_select tty table sql s =
     (if \<not> executor_should_use_id_index sql then (None, s)
      else case (executor_parse_lookup_id (sql_where sql ! 0), index_registry_get (st_index s) table) of
             (Some key, Some slot) \<Rightarrow>
               (case storage_select_result_by_row_index table sql (bptree_search (tree_at (st_index s) slot) key) s of
                  (rs, s1) \<Rightarrow> (map_option (print_rowset tty) rs, s1))
           | _ \<Rightarrow> (None, s))"

text \<open>What \<^verbatim>\<open>execute\<close> prints and the storage it leaves.\<close>

definition execute :: "bool \<Rightarrow> parsed_sql \<Rightarrow> storage \<Rightarrow> string \<times> storage" where
  "execute tty sql s =
     (let table = sql_table sql
      in case sql_type sql of
           QUERY_CREATE \<Rightarrow> ([], snd (storage_create table (sql_col_defs sql) s))
         | QUERY_INSERT \<Rightarrow> ([], snd (storage_insert table (sql_columns sql) (sql_values sql) s))
         | QUERY_SELECT \<Rightarrow>
             (case executor_try_range_select tty table sql (storage_ensure_index table s) of
                (Some out, s1) \<Rightarrow> (out, s1)
              | (None, s1) \<Rightarrow>
                  (case executor_try_indexed_select tty table sql s1 of
                     (Some out, s2) \<Rightarrow> (out, s2)
                   | (None, s2) \<Rightarrow>
                       (case storage_select tty table sql s2 of (out, s3) \<Rightarrow> (case out of None \<Rightarrow> [] | Some t \<Rightarrow> t, s3))))
         | QUERY_DELETE \<Rightarrow> ([], snd (storage_delete table sql s))
         | QUERY_UPDATE \<Rightarrow> ([], snd (storage_update table sql s))
         | QUERY_UNKNOWN \<Rightarrow> ([], s))"

section \<open>The executor and the engine\<close>

text \<open>A printed result and an outcome that show the same rows, with the same storage.\<close>

definition shows_same :: "bool \<Rightarrow> string \<times> storage \<Rightarrow> outcome \<times> engine \<Rightarrow> bool" where
  "shows_same tty p q \<longleftrightarrow> en_storage (snd q) = snd p \<and>
     (if oc_ok (fst q) then \<exists>rs. oc_json (fst q) = append_rowset_json rs \<and> fst p = print_rowset tty rs else fst p = [])"

lemma scan_shows_same:
  "shows_same tty (case storage_select tty (sql_table sql) sql (en_storage en) of (out, s3) \<Rightarrow> (case out of None \<Rightarrow> [] | Some t \<Rightarrow> t, s3))
     (scan_outcome sql en)"
  by (auto simp: shows_same_def storage_select_def scan_outcome_def rows_outcome_def text_outcome_def split: prod.split option.split)

lemma no_trie_scan: "should_use_trie_prefix sql = None \<or> \<not> en_trie_ready en \<Longrightarrow> trie_outcome sql en = scan_outcome sql en"
  by (auto simp: trie_outcome_def split: option.split bool.split)

lemma range_not_index: "should_use_id_range sql \<Longrightarrow> \<not> should_use_id_index sql"
  by (auto simp: should_use_id_range_def should_use_id_index_def dest: ieq_length split: list.splits)

lemma rows_show_same [simp]:
  "shows_same tty (print_rowset tty rs, s) (rows_outcome i n rs, en) \<longleftrightarrow> en_storage en = s"
  by (auto simp: shows_same_def rows_outcome_def)

lemma select_shows_same:
  assumes "should_use_trie_prefix sql = None \<or> \<not> en_trie_ready en"
    and "oc_json (fst (execute_select sql en)) \<noteq> []" "sql_type sql = QUERY_SELECT"
  shows "shows_same tty (execute tty sql (en_storage en)) (execute_select sql en)"
proof -
  let ?s = "storage_ensure_index (sql_table sql) (en_storage en)"
  have scan: "shows_same tty (case storage_select tty (sql_table sql) sql t of (out, s3) \<Rightarrow> (case out of None \<Rightarrow> [] | Some t \<Rightarrow> t, s3))
      (trie_outcome sql (en\<lparr>en_storage := t\<rparr>))" for t
    using scan_shows_same [of tty sql "en\<lparr>en_storage := t\<rparr>"] assms(1) by (simp add: no_trie_scan)
  consider (range) "should_use_id_range sql" | (point) "\<not> should_use_id_range sql" "should_use_id_index sql"
    | (neither) "\<not> should_use_id_range sql" "\<not> should_use_id_index sql" by blast
  then show ?thesis
  proof cases
    case range
    show ?thesis
      using range range_not_index [OF range] assms(2,3) scan
      by (auto simp: execute_def execute_select_def executor_try_range_select_def executor_try_indexed_select_def Let_def
          text_outcome_def split: option.split prod.split)
  next
    case point
    then show ?thesis using assms(3) scan
      by (auto simp: execute_def execute_select_def executor_try_range_select_def executor_try_indexed_select_def Let_def
          split: option.split prod.split)
  next
    case neither
    then show ?thesis
      using assms(3) scan
      by (simp add: execute_def execute_select_def executor_try_range_select_def executor_try_indexed_select_def Let_def)
  qed
qed


text \<open>C36: the command-line executor and the server's engine do the same with a statement: they
  leave the same storage, and a SELECT prints the table of exactly the rows that the engine
  answers as JSON, or nothing when the engine fails. The engine's own word tree is left out:
  prefix queries it answers, and its rebuild after writes to the dictionary; so is an id range
  whose row buffer cannot grow, where the engine gives no JSON and the executor scans.\<close>

theorem executor_agrees_with_engine:
  assumes "should_use_trie_prefix sql = None \<or> \<not> en_trie_ready en"
    and "sql_type sql = QUERY_SELECT \<or> \<not> ieq (sql_table sql) ''dictionary''"
    and "execute_statement sql en = (oc, en')" "oc_json oc \<noteq> []"
    and "execute tty sql (en_storage en) = (out, s')"
  shows "en_storage en' = s' \<and>
    (if sql_type sql = QUERY_SELECT \<and> oc_ok oc
     then \<exists>rs. oc_json oc = append_rowset_json rs \<and> out = print_rowset tty rs else out = [])"
proof (cases "sql_type sql = QUERY_SELECT")
  case True
  then show ?thesis
    using select_shows_same [of sql en tty] assms by (auto simp: execute_statement_def Let_def shows_same_def split: if_splits)
next
  case False
  then show ?thesis
    using assms(2,3,5)
    by (cases "sql_type sql")
      (auto simp: execute_def execute_statement_def Let_def write_outcome_def dictionary_trie_refresh_after_write_def)
qed

theorem executor_agrees_with_engine_witness:
  "fst (execute False by_id small) = ''name'' @ newline # ''lee'' @ newline # ''(1 rows)'' @ [newline] \<and>
   (\<exists>rs. oc_json (fst (execute_statement by_id small_engine)) = append_rowset_json rs \<and>
     fst (execute False by_id small) = print_rowset False rs)"
proof -
  have side: "should_use_trie_prefix by_id = None" "sql_type by_id = QUERY_SELECT" "oc_ok (fst (execute_statement by_id small_engine))"
    "oc_json (fst (execute_statement by_id small_engine)) \<noteq> []"
    "fst (execute False by_id small) = ''name'' @ newline # ''lee'' @ newline # ''(1 rows)'' @ [newline]"
    by code_simp+
  have small: "en_storage small_engine = small" by (simp add: small_engine_def)
  show ?thesis
    using executor_agrees_with_engine [of by_id small_engine _ _ False, OF _ _ prod.collapse [symmetric] side(4) prod.collapse [symmetric]]
      side small by simp
qed

end
