(* ===== verification/Ast_Print.thy ===== *)
theory Ast_Print
  imports Sql_Format Csv
begin

text \<open>
  The tree that \<^verbatim>\<open>src/ast_print.c\<close> prints of a parsed statement. The stream is the string
  written to it, in UTF-8; the flag says whether it is a terminal, which gets colours.
\<close>

section \<open>The code\<close>

abbreviation esc :: char where "esc \<equiv> CHR 0x1B"

definition ast_reset :: string where "ast_reset = esc # ''[0m''"
definition ast_title :: string where "ast_title = esc # ''[1;95m''"
definition ast_label :: string where "ast_label = esc # ''[1;96m''"
definition ast_count :: string where "ast_count = esc # ''[1;93m''"

text \<open>\<^verbatim>\<open>COLOR\<close>: the escape sequence on a terminal, nothing elsewhere.\<close>

definition ast_color :: "bool \<Rightarrow> string \<Rightarrow> string" where
  "ast_color use_color c = (if use_color then c else [])"

text \<open>The branch, bullet and end of the tree.\<close>

definition branch :: string where
  "branch = [CHR 0xE2, CHR 0x94, CHR 0x9C, CHR 0xE2, CHR 0x94, CHR 0x80, CHR '' '']"

definition bullet :: string where
  "bullet = [CHR 0xE2, CHR 0x94, CHR 0x82] @ ''   '' @ [CHR 0xE2, CHR 0x80, CHR 0xA2, CHR '' '']"

definition tree_end :: string where
  "tree_end = [CHR 0xE2, CHR 0x94, CHR 0x94, CHR 0xE2, CHR 0x94, CHR 0x80] @ '' end''"

text \<open>The connective before a condition; \<open>None\<close> for the first or when there is none.\<close>

definition ast_link_at :: "parsed_sql \<Rightarrow> nat \<Rightarrow> string option" where
  "ast_link_at sql i =
     (if i = 0 then None
      else if i - 1 < length (sql_where_links sql) then Some (sql_where_links sql ! (i - 1))
      else if sql_where_logic sql \<noteq> [] then Some (sql_where_logic sql) else None)"

text \<open>A list with its heading, when it is not empty.\<close>

definition ast_list :: "bool \<Rightarrow> string \<Rightarrow> string list \<Rightarrow> string" where
  "ast_list c name xs =
     (if xs = [] then []
      else branch @ ast_color c ast_label @ name @ ast_color c ast_reset @ '' ('' @ ast_color c ast_count @
        show_nat (length xs) @ ast_color c ast_reset @ ''):'' @ [newline] @
        concat (map (\<lambda>x. bullet @ x @ [newline]) xs))"

definition ast_cond :: "parsed_sql \<Rightarrow> nat \<Rightarrow> string" where
  "ast_cond sql i =
     (let w = sql_where sql ! i
      in bullet @ (case ast_link_at sql i of None \<Rightarrow> [] | Some link \<Rightarrow> link @ '' '') @
         w_column w @ '' '' @ w_op w @ '' '' @ w_value w @ [newline])"

definition print_ast :: "bool \<Rightarrow> parsed_sql \<Rightarrow> string" where
  "print_ast c sql =
     ast_color c ast_title @ ''ParsedSQL'' @ ast_color c ast_reset @ [newline] @
     branch @ ast_color c ast_label @ ''type:'' @ ast_color c ast_reset @ ''  '' @ qtype_str (sql_type sql) @ [newline] @
     branch @ ast_color c ast_label @ ''table:'' @ ast_color c ast_reset @ '' '' @
       (if sql_table sql = [] then ''(none)'' else sql_table sql) @ [newline] @
     ast_list c ''columns'' (sql_columns sql) @
     ast_list c ''values'' (sql_values sql) @
     ast_list c ''col_defs'' (sql_col_defs sql) @
     (if sql_where sql = [] then []
      else branch @ ''where ('' @ show_nat (length (sql_where sql)) @ ''):'' @ [newline] @
        concat (map (ast_cond sql) [0..<length (sql_where sql)])) @
     (if sql_set sql = [] then []
      else branch @ ''set ('' @ show_nat (length (sql_set sql)) @ ''):'' @ [newline] @
        concat (map (\<lambda>s. bullet @ sc_column s @ '' = '' @ sc_value s @ [newline]) (sql_set sql))) @
     (case sql_order_by sql of None \<Rightarrow> []
      | Some ob \<Rightarrow> branch @ ''order_by: '' @ ob_column ob @ '' '' @ (if ob_asc ob then ''ASC'' else ''DESC'') @ [newline]) @
     (if 0 \<le> sql_limit sql then branch @ ''limit: '' @ show_int (sql_limit sql) @ [newline] else []) @
     tree_end @ [newline]"

section \<open>Colours change nothing\<close>

text \<open>What a reader of the terminal sees: the text without the escape sequences.\<close>

function strip_ansi :: "string \<Rightarrow> string" where
  "strip_ansi [] = []"
| "strip_ansi (c # s) =
     (if c = esc then strip_ansi (tl (dropWhile (\<lambda>x. x \<noteq> CHR ''m'') s)) else c # strip_ansi s)"
  by pat_completeness auto

termination
proof (relation "measure length")
  show "(tl (dropWhile (\<lambda>x. x \<noteq> CHR ''m'') s), c # s) \<in> measure length" for c and s :: string
    using length_dropWhile_le [of "\<lambda>x. x \<noteq> CHR ''m''" s] by simp
qed simp_all

lemma strip_plain: "esc \<notin> set a \<Longrightarrow> strip_ansi (a @ b) = a @ strip_ansi b"
  by (induction a) auto

lemma strip_color [simp]:
  "strip_ansi (ast_reset @ s) = strip_ansi s" "strip_ansi (ast_title @ s) = strip_ansi s"
  "strip_ansi (ast_label @ s) = strip_ansi s" "strip_ansi (ast_count @ s) = strip_ansi s"
  by (simp_all add: ast_reset_def ast_title_def ast_label_def ast_count_def)

text \<open>A statement none of whose texts has an escape character.\<close>

definition no_escapes :: "parsed_sql \<Rightarrow> bool" where
  "no_escapes sql \<longleftrightarrow> list_all (\<lambda>s. esc \<notin> set s)
     (sql_table sql # sql_where_logic sql # sql_columns sql @ sql_values sql @ sql_col_defs sql @ sql_where_links sql @
      concat (map (\<lambda>w. [w_column w, w_op w, w_value w]) (sql_where sql)) @
      concat (map (\<lambda>s. [sc_column s, sc_value s]) (sql_set sql)) @
      (case sql_order_by sql of None \<Rightarrow> [] | Some ob \<Rightarrow> [ob_column ob]))"

lemma tree_plain: "esc \<notin> set branch" "esc \<notin> set bullet" "esc \<notin> set tree_end" "esc \<noteq> newline"
  "esc \<notin> set (qtype_str t)"
  by (simp_all add: branch_def bullet_def tree_end_def newline_def qtype_str_def split: query_type.split)

lemma strip_Cons [simp]: "c \<noteq> esc \<Longrightarrow> strip_ansi (c # s) = c # strip_ansi s"
  by simp

declare strip_ansi.simps(2) [simp del]

lemma show_nat_plain: "esc \<notin> set (show_nat n)" "esc \<notin> set (show_int i)"
proof -
  have "\<not> is_digit esc" "\<not> is_digit (CHR ''-'') \<and> esc \<noteq> CHR ''-''" by code_simp+
  then show "esc \<notin> set (show_nat n)" for n using show_nat_digits by blast
  then show "esc \<notin> set (show_int i)" by (simp add: show_int_def)
qed

lemma strip_list:
  assumes "list_all (\<lambda>s. esc \<notin> set s) xs" "esc \<notin> set name"
  shows "strip_ansi (ast_list True name xs @ t) = ast_list False name xs @ strip_ansi t"
proof -
  have items: "esc \<notin> set (concat (map (\<lambda>x. bullet @ x @ [newline]) xs))"
    using assms(1) tree_plain by (auto simp: list_all_iff)
  show ?thesis
    using assms(2) tree_plain strip_plain [OF items]
    by (simp add: ast_list_def ast_color_def strip_plain show_nat_plain newline_def)
qed

text \<open>The part after the lists has no colours.\<close>

definition ast_tail :: "parsed_sql \<Rightarrow> string" where
  "ast_tail sql =
     (if sql_where sql = [] then []
      else branch @ ''where ('' @ show_nat (length (sql_where sql)) @ ''):'' @ [newline] @
        concat (map (ast_cond sql) [0..<length (sql_where sql)])) @
     (if sql_set sql = [] then []
      else branch @ ''set ('' @ show_nat (length (sql_set sql)) @ ''):'' @ [newline] @
        concat (map (\<lambda>s. bullet @ sc_column s @ '' = '' @ sc_value s @ [newline]) (sql_set sql))) @
     (case sql_order_by sql of None \<Rightarrow> []
      | Some ob \<Rightarrow> branch @ ''order_by: '' @ ob_column ob @ '' '' @ (if ob_asc ob then ''ASC'' else ''DESC'') @ [newline]) @
     (if 0 \<le> sql_limit sql then branch @ ''limit: '' @ show_int (sql_limit sql) @ [newline] else []) @
     tree_end @ [newline]"

lemma ast_cond_plain:
  assumes "no_escapes sql" "i < length (sql_where sql)"
  shows "esc \<notin> set (ast_cond sql i)"
proof -
  have w: "esc \<notin> set (w_column (sql_where sql ! i))" "esc \<notin> set (w_op (sql_where sql ! i))" "esc \<notin> set (w_value (sql_where sql ! i))"
    using assms(1) nth_mem [OF assms(2)] unfolding no_escapes_def list_all_iff by auto
  have "esc \<notin> set link" if "ast_link_at sql i = Some link" for link
    using that assms(1) by (auto simp: ast_link_at_def no_escapes_def list_all_iff split: if_splits)
  then show ?thesis using w tree_plain by (auto simp: ast_cond_def Let_def newline_def split: option.splits)
qed

lemma ast_tail_plain: "no_escapes sql \<Longrightarrow> esc \<notin> set (ast_tail sql)"
  using ast_cond_plain [of sql] tree_plain show_nat_plain
  by (auto simp: ast_tail_def no_escapes_def list_all_iff newline_def split: option.splits)

text \<open>The colours of the tree are the only difference between a terminal and a file.\<close>

lemma print_ast_colors:
  assumes "no_escapes sql"
  shows "strip_ansi (print_ast True sql) = print_ast False sql"
proof -
  have lists: "list_all (\<lambda>s. esc \<notin> set s) (sql_columns sql)" "list_all (\<lambda>s. esc \<notin> set s) (sql_values sql)"
    "list_all (\<lambda>s. esc \<notin> set s) (sql_col_defs sql)" "esc \<notin> set (sql_table sql)"
    using assms by (simp_all add: no_escapes_def)
  have tail: "strip_ansi (ast_tail sql) = ast_tail sql"
    using strip_plain [OF ast_tail_plain [OF assms], of "[]"] by simp
  have split: "print_ast c sql =
     ast_color c ast_title @ ''ParsedSQL'' @ ast_color c ast_reset @ [newline] @
     branch @ ast_color c ast_label @ ''type:'' @ ast_color c ast_reset @ ''  '' @ qtype_str (sql_type sql) @ [newline] @
     branch @ ast_color c ast_label @ ''table:'' @ ast_color c ast_reset @ '' '' @
       (if sql_table sql = [] then ''(none)'' else sql_table sql) @ [newline] @
     ast_list c ''columns'' (sql_columns sql) @ ast_list c ''values'' (sql_values sql) @
     ast_list c ''col_defs'' (sql_col_defs sql) @ ast_tail sql" for c
    by (simp add: print_ast_def ast_tail_def)
  have table: "strip_ansi ((if sql_table sql = [] then ''(none)'' else sql_table sql) @ t) =
      (if sql_table sql = [] then ''(none)'' else sql_table sql) @ strip_ansi t" for t
    using lists(4) by (intro strip_plain) simp
  show ?thesis
    unfolding split using lists(1-3) tree_plain tail
    by (simp add: strip_list strip_plain table ast_color_def newline_def)
qed

end
