(* ===== verification/Server.thy ===== *)
theory Server
  imports Thread_Pool Router
begin

text \<open>
  The daemon: the command line of \<^verbatim>\<open>src/main.c\<close>, start-up, the accept loop and the shutdown of
  \<^verbatim>\<open>src/server.c\<close>, and the handler that answers one connection. Creating the listening
  socket and starting threads can fail; whether they do are parameters.
\<close>

section \<open>The command line\<close>

record server_config =
  cfg_port :: int
  cfg_workers :: int
  cfg_data_dir :: string
  cfg_web_root :: string

definition default_config :: server_config where
  "default_config = \<lparr>cfg_port = 8080, cfg_workers = 8, cfg_data_dir = ''./data'', cfg_web_root = ''./web''\<rparr>"

definition parse_int_arg :: "string \<Rightarrow> int \<Rightarrow> int" where
  "parse_int_arg s fallback =
     (case strtol s of
        None \<Rightarrow> fallback
      | Some (v, rest, _) \<Rightarrow> if rest \<noteq> [] \<or> v < 1 \<or> v > 65535 then fallback else v)"

text \<open>What \<^verbatim>\<open>main\<close> does with its arguments: print something and exit, or run the server.\<close>

datatype command = Print_help | Print_version | Unknown_option string | Run server_config

fun parse_args :: "string list \<Rightarrow> server_config \<Rightarrow> command" where
  "parse_args [] cfg = Run cfg"
| "parse_args (a # as) cfg =
     (if a = ''--help'' \<or> a = ''-h'' then Print_help
      else if a = ''--version'' then Print_version
      else case as of
             [] \<Rightarrow> Unknown_option a
           | v # rest \<Rightarrow>
               if a = ''--port'' then parse_args rest (cfg\<lparr>cfg_port := parse_int_arg v (cfg_port cfg)\<rparr>)
               else if a = ''--workers'' then parse_args rest (cfg\<lparr>cfg_workers := parse_int_arg v (cfg_workers cfg)\<rparr>)
               else if a = ''--data-dir'' then parse_args rest (cfg\<lparr>cfg_data_dir := v\<rparr>)
               else if a = ''--web-root'' then parse_args rest (cfg\<lparr>cfg_web_root := v\<rparr>)
               else Unknown_option a)"

text \<open>Whatever the arguments are, a server that runs has a port and a number of workers in range.\<close>

lemma parse_int_arg_range: "1 \<le> fallback \<Longrightarrow> fallback \<le> 65535 \<Longrightarrow> 1 \<le> parse_int_arg s fallback \<and> parse_int_arg s fallback \<le> 65535"
  by (auto simp: parse_int_arg_def split: option.split)

lemma parse_args_range:
  "parse_args as cfg = Run cfg' \<Longrightarrow> cfg_port cfg \<in> {1..65535} \<Longrightarrow> cfg_workers cfg \<in> {1..65535} \<Longrightarrow>
   cfg_port cfg' \<in> {1..65535} \<and> cfg_workers cfg' \<in> {1..65535}"
proof (induction as cfg rule: parse_args.induct)
  case (2 a as cfg)
  then show ?case using parse_int_arg_range by (auto split: if_splits list.splits)
qed simp

section \<open>One connection\<close>

definition write_simple_error :: "write_event list \<Rightarrow> int \<Rightarrow> string \<Rightarrow> string" where
  "write_simple_error ws status body =
     snd (http_write_response ws \<lparr>hr_status = status, hr_content_type = ''application/json'', hr_body = body\<rparr>)"

definition bad_request_body :: string where
  "bad_request_body = ''{'' @ json_key ''ok'' @ ''false,'' @ json_key ''error'' @ jq @ ''bad_request'' @ jq @ ''}''"

text \<open>
  The bytes a handler writes before it closes the connection, and the server state it leaves.
  The dispatcher fails only when memory runs out, so its error answer has no counterpart.
\<close>

definition handle_client :: "clock \<Rightarrow> read_event list \<Rightarrow> write_event list \<Rightarrow> server \<Rightarrow> string \<times> server" where
  "handle_client ck es ws sv =
     (case http_parse_request es of
        None \<Rightarrow> (write_simple_error ws 400 bad_request_body, sv)
      | Some (rq, _) \<Rightarrow>
          (case router_dispatch ck rq sv of (rsp, sv') \<Rightarrow> (snd (http_write_response ws rsp), sv')))"

text \<open>What a client gets whose connection the full queue refuses.\<close>

definition busy_resp :: string where
  "busy_resp = ''HTTP/1.1 503 Service Unavailable'' @ crlf @ ''Connection: close'' @ crlf @ ''Retry-After: 1'' @ crlf @
     ''Content-Type: application/json'' @ crlf @ ''Content-Length: 33'' @ crlf @ crlf @
     ''{'' @ json_key ''ok'' @ ''false,'' @ json_key ''error'' @ jq @ ''queue_full'' @ jq @ ''}''"

section \<open>Start-up\<close>

text \<open>
  \<^verbatim>\<open>server_run\<close> up to its loop: \<open>None\<close> is the exit status 1. The workers' threads start as
  \<open>spawn\<close> says, and \<open>listening\<close> says whether the socket can be set up.
\<close>

definition server_start ::
    "(nat \<Rightarrow> bool) \<Rightarrow> (int \<Rightarrow> bool) \<Rightarrow> clock \<Rightarrow> server_config \<Rightarrow> server \<Rightarrow> storage \<Rightarrow> (nat threadpool \<times> server) option" where
  "server_start spawn listening ck cfg sv st =
     (let sv1 = (router_set_web_root (cfg_web_root cfg) sv)\<lparr>sv_engine := engine_init (en_heap (sv_engine sv)) (ck_elapsed ck) (ck_wait ck) st\<rparr>
      in case threadpool_create spawn (cfg_workers cfg) of
           None \<Rightarrow> None
         | Some tp \<Rightarrow> if listening (cfg_port cfg) then Some (tp, sv1) else None)"

text \<open>More workers than the pool has slots, which the command line admits, and the server does not start.\<close>

lemma too_many_workers: "64 < cfg_workers cfg \<Longrightarrow> server_start spawn listening ck cfg sv st = None"
  by (simp add: server_start_def threadpool_create_def tp_abs_max_def)

section \<open>The accept loop and the shutdown\<close>

text \<open>Where the main thread is, from the loop through \<^verbatim>\<open>threadpool_shutdown_graceful\<close> to the end.\<close>

datatype main_pc = Accepting | Closing | Stopping_monitor | Draining | Shutting_down | Joining | Ended

text \<open>
  Connections are numbered in the order in which they are accepted. The pool's jobs are
  handlers, one per connection; a handler closes its connection when it ends, and a refused
  connection is answered and closed at once.
\<close>

record server_run =
  sr_pc :: main_pc
  sr_flag :: bool
  sr_seen :: nat
  sr_busy :: "nat list"
  sr_timed_out :: bool
  sr_pool :: "nat pool_run"

text \<open>What workers and the monitor do: steps that accept and drop no job and set no flag.\<close>

definition pool_threads :: "nat pool_run \<Rightarrow> nat pool_run \<Rightarrow> bool" where
  "pool_threads r r' \<longleftrightarrow> pool_step r r' \<and> accepted r' = accepted r \<and> dropped r' = dropped r \<and>
     tp_submit_closed (pool r') = tp_submit_closed (pool r) \<and> tp_shutdown (pool r') = tp_shutdown (pool r)"

inductive server_step :: "server_run \<Rightarrow> server_run \<Rightarrow> bool" where
  server_accept: "sr_pc r = Accepting \<Longrightarrow> threadpool_submit (pool (sr_pool r)) (sr_seen r) = (rc, tp) \<Longrightarrow>
    server_step r (r\<lparr>sr_seen := Suc (sr_seen r),
      sr_busy := (if rc = 0 then sr_busy r else sr_busy r @ [sr_seen r]),
      sr_pool := (sr_pool r)\<lparr>pool := tp, accepted := (if rc = 0 then accepted (sr_pool r) @ [sr_seen r] else accepted (sr_pool r))\<rparr>\<rparr>)"
| server_signal: "server_step r (r\<lparr>sr_flag := True\<rparr>)"
| server_leave: "sr_pc r = Accepting \<Longrightarrow> sr_flag r \<Longrightarrow> server_step r (r\<lparr>sr_pc := Closing\<rparr>)"
| server_close: "sr_pc r = Closing \<Longrightarrow>
    server_step r (r\<lparr>sr_pc := Stopping_monitor, sr_pool := (sr_pool r)\<lparr>pool := threadpool_close_submit (pool (sr_pool r))\<rparr>\<rparr>)"
| server_stop_monitor: "sr_pc r = Stopping_monitor \<Longrightarrow>
    server_step r (r\<lparr>sr_pc := Draining, sr_pool := (sr_pool r)\<lparr>pool := threadpool_stop_monitor (pool (sr_pool r))\<rparr>\<rparr>)"
| server_drained: "sr_pc r = Draining \<Longrightarrow> threadpool_drained (pool (sr_pool r)) \<Longrightarrow> server_step r (r\<lparr>sr_pc := Shutting_down\<rparr>)"
| server_timeout: "sr_pc r = Draining \<Longrightarrow> server_step r (r\<lparr>sr_pc := Shutting_down, sr_timed_out := True\<rparr>)"
| server_shutdown: "sr_pc r = Shutting_down \<Longrightarrow>
    server_step r (r\<lparr>sr_pc := Joining, sr_pool := (sr_pool r)\<lparr>pool := threadpool_set_shutdown (pool (sr_pool r))\<rparr>\<rparr>)"
| server_join: "sr_pc r = Joining \<Longrightarrow> s < tp_abs_max \<Longrightarrow> worker_alive (at_slot (sr_pool r) s) \<Longrightarrow>
    worker_pc (at_slot (sr_pool r) s) = Exited \<Longrightarrow>
    server_step r (r\<lparr>sr_pool := (sr_pool r)\<lparr>pool := shutdown_join (pool (sr_pool r)) s\<rparr>\<rparr>)"
| server_free: "sr_pc r = Joining \<Longrightarrow> \<forall>s < tp_abs_max. \<not> worker_alive (at_slot (sr_pool r) s) \<Longrightarrow>
    server_step r (r\<lparr>sr_pc := Ended, sr_pool := (sr_pool r)\<lparr>pool := threadpool_free_jobs (pool (sr_pool r)),
      dropped := dropped (sr_pool r) @ tp_jobs (pool (sr_pool r))\<rparr>\<rparr>)"
| server_threads: "pool_threads (sr_pool r) p \<Longrightarrow> server_step r (r\<lparr>sr_pool := p\<rparr>)"

definition server_init :: "server_run \<Rightarrow> bool" where
  "server_init r \<longleftrightarrow> sr_pc r = Accepting \<and> \<not> sr_flag r \<and> sr_seen r = 0 \<and> sr_busy r = [] \<and> \<not> sr_timed_out r \<and> pool_init (sr_pool r)"

section \<open>The invariant\<close>

text \<open>Before the flag is set the pool is not shut down; from the closing of submissions on it takes no job.\<close>

definition pc_ok :: "main_pc \<Rightarrow> nat threadpool \<Rightarrow> bool" where
  "pc_ok p tp \<longleftrightarrow> (p \<in> {Accepting, Closing, Stopping_monitor, Draining, Shutting_down} \<longrightarrow> \<not> tp_shutdown tp) \<and>
     (p \<in> {Joining, Ended} \<longrightarrow> tp_shutdown tp) \<and>
     (p \<in> {Stopping_monitor, Draining, Shutting_down, Joining, Ended} \<longrightarrow> tp_submit_closed tp)"

definition server_inv :: "server_run \<Rightarrow> bool" where
  "server_inv r \<longleftrightarrow> run_inv (sr_pool r) \<and> pc_ok (sr_pc r) (pool (sr_pool r)) \<and>
     mset (accepted (sr_pool r)) + mset (sr_busy r) = mset [0..<sr_seen r] \<and>
     (sr_pc r \<in> {Shutting_down, Joining, Ended} \<longrightarrow> \<not> sr_timed_out r \<longrightarrow> quiet (sr_pool r) (accepted (sr_pool r)))"

lemma server_inv_init: "server_init r \<Longrightarrow> server_inv r"
proof -
  assume i: "server_init r"
  then obtain spawn n tp where tp: "threadpool_create spawn n = Some tp" "sr_pool r = first_run tp"
    by (auto simp: server_init_def pool_init_def first_run_def)
  have "\<not> tp_shutdown tp" using create_correct [OF tp(1)] by (auto simp: tp_inv_def)
  then show "server_inv r"
    using i pool_init_inv [of "sr_pool r"] tp(2) by (simp add: server_init_def server_inv_def pc_ok_def first_run_def)
qed

text \<open>The part of the invariant about the pool is kept by any step of the pool.\<close>

lemma submit_flags:
  "threadpool_submit tp j = (rc, tp') \<Longrightarrow> tp_shutdown tp' = tp_shutdown tp \<and> tp_submit_closed tp' = tp_submit_closed tp"
  by (auto simp: threadpool_submit_def split: if_splits)

lemma server_inv_step:
  assumes inv: "server_inv r" and st: "server_step r r'"
  shows "server_inv r'"
proof -
  let ?p = "sr_pool r"
  have run: "run_inv ?p" and pc: "pc_ok (sr_pc r) (pool ?p)" and all: "mset (accepted ?p) + mset (sr_busy r) = mset [0..<sr_seen r]"
    and q: "sr_pc r \<in> {Shutting_down, Joining, Ended} \<Longrightarrow> \<not> sr_timed_out r \<Longrightarrow> quiet ?p (accepted ?p)"
    using inv by (simp_all add: server_inv_def)
  from st show ?thesis
  proof cases
    case (server_accept rc tp)
    have "run_inv (?p\<lparr>pool := tp, accepted := (if rc = 0 then accepted ?p @ [sr_seen r] else accepted ?p)\<rparr>)"
      by (rule run_inv_step [OF step_submit [OF server_accept(3)] run])
    then show ?thesis
      using pc all submit_flags [OF server_accept(3)] server_accept(1,2) by (simp add: server_inv_def pc_ok_def)
  next
    case server_drained
    then show ?thesis
      using run pc all drained_quiet [OF run] by (simp add: server_inv_def pc_ok_def)
  next
    case server_close
    then show ?thesis using run_inv_step [OF step_close run] pc all
      by (simp add: server_inv_def pc_ok_def threadpool_close_submit_def)
  next
    case server_stop_monitor
    then show ?thesis using run_inv_step [OF step_stop_monitor run] pc all
      by (simp add: server_inv_def pc_ok_def threadpool_stop_monitor_def)
  next
    case server_shutdown
    then show ?thesis using run_inv_step [OF step_shutdown run] pc all q quiet_step [OF _ step_shutdown, of ?p]
      by (simp add: server_inv_def pc_ok_def threadpool_set_shutdown_def)
  next
    case (server_join s)
    have shut: "tp_shutdown (pool ?p)" using pc server_join(2) by (simp add: pc_ok_def)
    note st = step_shutdown_join [OF server_join(3) shut server_join(4,5)]
    show ?thesis using server_join(1,2) run_inv_step [OF st run] pc all q quiet_step [OF _ st]
      by (simp add: server_inv_def pc_ok_def shutdown_join_def)
  next
    case server_free
    have shut: "tp_shutdown (pool ?p)" using pc server_free(2) by (simp add: pc_ok_def)
    note st = step_free [OF shut server_free(3)]
    show ?thesis using server_free(1,2) run_inv_step [OF st run] pc all q quiet_step [OF _ st]
      by (simp add: server_inv_def pc_ok_def threadpool_free_jobs_def)
  next
    case (server_threads p)
    then have st: "pool_step ?p p" and same: "accepted p = accepted ?p" "tp_submit_closed (pool p) = tp_submit_closed (pool ?p)"
      "tp_shutdown (pool p) = tp_shutdown (pool ?p)" by (simp_all add: pool_threads_def)
    show ?thesis using server_threads(1) run_inv_step [OF st run] pc all q quiet_step [OF _ st] same
      by (simp add: server_inv_def pc_ok_def)
  qed (use run pc all q in \<open>simp_all add: server_inv_def pc_ok_def\<close>)
qed

interpretation srv: step_system server_init server_step server_inv
  by unfold_locales (auto intro: server_inv_init server_inv_step)

section \<open>Every connection is answered and closed once\<close>

text \<open>The connections that have been closed: by their handler, or refused because the queue was full.\<close>

definition closed :: "server_run \<Rightarrow> nat list" where
  "closed r = finished (sr_pool r) @ sr_busy r"

text \<open>C16: at any time every accepted connection is in exactly one place: closed after its answer
  (by its handler, or with the busy answer), in the hands of one worker, waiting in the
  queue, or dropped by a shutdown that timed out; no connection is closed twice, and when the
  server ends without a time-out all of them have been answered and closed.\<close>

theorem connections_closed_once:
  assumes "reachable server_init server_step r"
  shows "mset [0..<sr_seen r] = mset (closed r) + in_hand (pool (sr_pool r)) + mset (tp_jobs (pool (sr_pool r))) +
      mset (dropped (sr_pool r)) \<and> distinct (closed r) \<and>
    (sr_pc r = Ended \<and> \<not> sr_timed_out r \<longrightarrow> set (closed r) = {0..<sr_seen r})"
proof -
  have inv: "server_inv r" by (rule srv.reachable_inv [OF assms])
  then have all: "mset (accepted (sr_pool r)) + mset (sr_busy r) = mset [0..<sr_seen r]" and run: "run_inv (sr_pool r)"
    by (simp_all add: server_inv_def)
  have parts: "mset [0..<sr_seen r] = mset (closed r) + in_hand (pool (sr_pool r)) + mset (tp_jobs (pool (sr_pool r))) +
      mset (dropped (sr_pool r))"
    unfolding all [symmetric] using run by (simp add: run_inv_def closed_def)
  obtain rest where "mset rest = in_hand (pool (sr_pool r)) + mset (tp_jobs (pool (sr_pool r))) + mset (dropped (sr_pool r))"
    using ex_mset by blast
  then have "mset [0..<sr_seen r] = mset (closed r @ rest)" unfolding parts by simp
  then have "distinct (closed r)" using mset_eq_imp_distinct_iff [of "[0..<sr_seen r]" "closed r @ rest"] by simp
  moreover have "set (closed r) = {0..<sr_seen r}" if "sr_pc r = Ended" "\<not> sr_timed_out r"
  proof -
    have "quiet (sr_pool r) (accepted (sr_pool r))" using inv that by (simp add: server_inv_def)
    then have "mset [0..<sr_seen r] = mset (closed r)" using parts by (simp add: quiet_def)
    then have "set [0..<sr_seen r] = set (closed r)" by (rule mset_eq_setD)
    then show ?thesis by simp
  qed
  ultimately show ?thesis using parts by blast
qed

text \<open>A server that has just started, and after its first connection.\<close>

definition started_server :: "nat threadpool \<Rightarrow> server_run" where
  "started_server tp = \<lparr>sr_pc = Accepting, sr_flag = False, sr_seen = 0, sr_busy = [], sr_timed_out = False, sr_pool = first_run tp\<rparr>"

definition one_connection :: "nat threadpool \<Rightarrow> server_run" where
  "one_connection tp = (started_server tp)\<lparr>sr_seen := 1, sr_pool := (first_run tp)\<lparr>pool := snd (threadpool_submit tp 0), accepted := [0]\<rparr>\<rparr>"

lemma one_connection_reachable:
  assumes "threadpool_create spawn n = Some tp"
  shows "reachable server_init server_step (one_connection tp)" "tp_jobs (snd (threadpool_submit tp 0)) = [0]"
proof -
  have sub: "threadpool_submit tp 0 = (0, snd (threadpool_submit tp 0))" and "tp_jobs (snd (threadpool_submit tp 0)) = [0]"
    using create_correct [OF assms] by (simp_all add: threadpool_submit_def)
  then show "tp_jobs (snd (threadpool_submit tp 0)) = [0]" by simp
  have "reachable server_init server_step (started_server tp)"
    using assms by (intro reachable_init) (auto simp: started_server_def server_init_def pool_init_def first_run_def)
  moreover have "server_step (started_server tp) (one_connection tp)"
    using server_accept [of "started_server tp" 0 "snd (threadpool_submit tp 0)"] sub
    by (simp add: started_server_def one_connection_def first_run_def)
  ultimately show "reachable server_init server_step (one_connection tp)" by (rule reachable_step)
qed

theorem connections_closed_once_witness:
  "\<exists>tp. reachable server_init server_step (one_connection tp) \<and> tp_jobs (pool (sr_pool (one_connection tp))) = [0] \<and>
     in_hand (pool (sr_pool (one_connection tp))) = {#} \<and> closed (one_connection tp) = []"
proof -
  obtain tp :: "nat threadpool" where c: "threadpool_create (\<lambda>_. True) 2 = Some tp" by (rule two_workers)
  note r = one_connection_reachable [OF c]
  have "mset [0..<1] = mset (closed (one_connection tp)) + in_hand (snd (threadpool_submit tp 0)) + mset [0]"
    using connections_closed_once [OF r(1)] r(2) by (simp add: one_connection_def started_server_def first_run_def)
  then show ?thesis using r
    by (intro exI [of _ tp]) (simp add: one_connection_def started_server_def first_run_def closed_def)
qed

end
