(* ===== verification/Repl.thy ===== *)
theory Repl
  imports Server
begin

text \<open>
  The interactive client, \<^verbatim>\<open>client/repl.c\<close>. The other side of the connection is a parameter:
  given its state and the bytes sent, it tells what the client's reads return, or nothing
  when the connection cannot be made or used. What the client prints is a list of events,
  one per message; colours other than that of an answer are left out. The last section
  connects the client to the server of this development.
\<close>

section \<open>The code\<close>

record repl_cfg =
  rc_host :: string
  rc_port :: int
  rc_single :: bool

type_synonym 's peer = "'s \<Rightarrow> string \<Rightarrow> read_event list option \<times> 's"

definition max_line :: int where "max_line = 4096"
definition resp_cap :: int where "resp_cap = 1024 * 1024"

text \<open>Reading until the peer closes or the limit is reached, with a buffer that doubles.\<close>

definition grown :: "int \<Rightarrow> nat \<Rightarrow> int" where
  "grown cap len = (if cap - int len < 1024 then min (cap * 2) resp_cap else cap)"

function read_all :: "int \<Rightarrow> string \<Rightarrow> read_event list \<Rightarrow> string option" where
  "read_all cap buf es =
     (if resp_cap \<le> int (length buf) then Some buf
      else case read_fd (nat (grown cap (length buf) - int (length buf))) es of
             (Again, es') \<Rightarrow> if es = [] \<or> grown cap (length buf) \<le> int (length buf) then None else read_all (grown cap (length buf)) buf es'
           | (Bad, _) \<Rightarrow> None
           | (Got d, es') \<Rightarrow>
               if d = [] \<or> es = [] \<or> grown cap (length buf) \<le> int (length buf) then Some buf
               else read_all (grown cap (length buf)) (buf @ d) es')"
  by pat_completeness auto

termination
  by (relation "measure (\<lambda>(cap, buf, es). pending es)") (auto intro: read_fd_next)

declare read_all.simps [simp del]

definition find_header_body_sep :: "string \<Rightarrow> nat option" where
  "find_header_body_sep buf = (if length buf < 4 then None else find_header_end buf)"

text \<open>The status, 0 when there is none, and the body of a response.\<close>

definition parse_response :: "string \<Rightarrow> int \<times> string option" where
  "parse_response resp =
     (if length resp < 12 \<or> take 7 resp \<noteq> ''HTTP/1.'' then (0, None)
      else case strtol (drop 9 resp) of
             None \<Rightarrow> (0, None)
           | Some (v, _, _) \<Rightarrow> (wrap32 v, map_option (\<lambda>i. drop (i + 4) resp) (find_header_body_sep resp)))"

definition request_text :: "repl_cfg \<Rightarrow> string \<Rightarrow> string \<Rightarrow> string \<Rightarrow> string" where
  "request_text cfg meth path body =
     meth @ '' '' @ path @ '' HTTP/1.1'' @ crlf @
     ''Host: '' @ rc_host cfg @ '':'' @ show_int (rc_port cfg) @ crlf @
     ''Content-Type: text/plain'' @ crlf @
     ''Content-Length: '' @ show_int (int (length body)) @ crlf @
     ''Connection: close'' @ crlf @ crlf"

definition http_request :: "'s peer \<Rightarrow> repl_cfg \<Rightarrow> string \<Rightarrow> string \<Rightarrow> string \<Rightarrow> 's \<Rightarrow> string option \<times> 's" where
  "http_request peer cfg meth path body s =
     (let text = request_text cfg meth path body
      in if max_line + 512 \<le> int (length text) then (None, s)
         else case peer s (text @ body) of
                (None, s') \<Rightarrow> (None, s')
              | (Some es, s') \<Rightarrow> (read_all 4096 [] es, s'))"

datatype color = Green | Red | Yellow

datatype shown = Connection_failed | Unparsable int | Answer int color string | Help | Single_on | Single_off |
  Single_usage | Unknown_command string

definition print_response :: "string option \<Rightarrow> shown" where
  "print_response resp =
     (case resp of
        None \<Rightarrow> Connection_failed
      | Some r \<Rightarrow>
          (case parse_response r of
             (status, None) \<Rightarrow> Unparsable status
           | (status, Some body) \<Rightarrow>
               Answer status (if 200 \<le> status \<and> status < 300 then Green else if 400 \<le> status then Red else Yellow) (c_str body)))"

definition cmd_stats :: "'s peer \<Rightarrow> repl_cfg \<Rightarrow> 's \<Rightarrow> shown \<times> 's" where
  "cmd_stats peer cfg s = (case http_request peer cfg ''GET'' ''/api/stats'' [] s of (r, s') \<Rightarrow> (print_response r, s'))"

definition hex_upper :: "nat \<Rightarrow> char" where
  "hex_upper n = ''0123456789ABCDEF'' ! n"

text \<open>\<^verbatim>\<open>url_escape_min\<close> from position \<open>pos\<close> of a buffer of size \<open>cap\<close>.\<close>

fun url_escape_min :: "int \<Rightarrow> int \<Rightarrow> string \<Rightarrow> string" where
  "url_escape_min cap pos [] = []"
| "url_escape_min cap pos (c # s) =
     (if cap \<le> pos + 4 then []
      else if c = CHR '' '' then ''%20'' @ url_escape_min cap (pos + 3) s
      else if code_of c < 32 \<or> c \<in> set ''#&?=+''
      then CHR ''%'' # hex_upper (code_of c div 16) # hex_upper (code_of c mod 16) # url_escape_min cap (pos + 3) s
      else c # url_escape_min cap (pos + 1) s)"

definition cmd_explain :: "'s peer \<Rightarrow> repl_cfg \<Rightarrow> string \<Rightarrow> 's \<Rightarrow> shown \<times> 's" where
  "cmd_explain peer cfg sql s =
     (case http_request peer cfg ''GET'' (''/api/explain?sql='' @ url_escape_min (3 * max_line) 0 sql) [] s of
        (r, s') \<Rightarrow> (print_response r, s'))"

definition cmd_query :: "'s peer \<Rightarrow> repl_cfg \<Rightarrow> string \<Rightarrow> 's \<Rightarrow> shown \<times> 's" where
  "cmd_query peer cfg sql s =
     (case http_request peer cfg ''POST'' (if rc_single cfg then ''/api/query?mode=single'' else ''/api/query'') sql s of
        (r, s') \<Rightarrow> (print_response r, s'))"

text \<open>The built-in commands: a line that is none of them is SQL.\<close>

datatype builtin = Is_sql | Handled "shown list" | Quit

definition handle_builtin :: "'s peer \<Rightarrow> repl_cfg \<Rightarrow> string \<Rightarrow> 's \<Rightarrow> builtin \<times> repl_cfg \<times> 's" where
  "handle_builtin peer cfg line s =
     (let bs = CHR 0x5C
      in if take 1 line \<noteq> [bs] then (Is_sql, cfg, s)
         else if line = bs # ''q'' \<or> line = bs # ''quit'' then (Quit, cfg, s)
         else if line = bs # ''h'' \<or> line = bs # ''help'' then (Handled [Help], cfg, s)
         else if line = bs # ''s'' \<or> line = bs # ''stats''
         then (case cmd_stats peer cfg s of (o1, s') \<Rightarrow> (Handled [o1], cfg, s'))
         else if take 3 line = bs # ''e ''
         then (case cmd_explain peer cfg (drop 3 line) s of (o1, s') \<Rightarrow> (Handled [o1], cfg, s'))
         else if take 7 line = bs # ''single''
         then (let arg = dropWhile (\<lambda>c. c = CHR '' '') (drop 7 line)
               in if arg = ''on'' then (Handled [Single_on], cfg\<lparr>rc_single := True\<rparr>, s)
                  else if arg = ''off'' then (Handled [Single_off], cfg\<lparr>rc_single := False\<rparr>, s)
                  else (Handled [Single_usage], cfg, s))
         else (Handled [Unknown_command line], cfg, s))"

text \<open>\<^verbatim>\<open>fgets\<close> with room for \<open>n\<close> characters, and the line without trailing blanks and semicolons.\<close>

definition fgets :: "nat \<Rightarrow> string \<Rightarrow> string \<times> string" where
  "fgets n s =
     (let l = takeWhile (\<lambda>c. c \<noteq> newline) s; k = (if length l < n \<and> length l < length s then Suc (length l) else min n (length l))
      in (take k s, drop k s))"

definition strip_line :: "string \<Rightarrow> string" where
  "strip_line s = rev (dropWhile (\<lambda>c. c \<in> {newline, creturn, CHR '' '', CHR 0x09, CHR '';''}) (rev (c_str s)))"

lemma fgets_shorter: "s \<noteq> [] \<Longrightarrow> 0 < n \<Longrightarrow> length (snd (fgets n s)) < length s"
  by (cases s) (auto simp: fgets_def Let_def)

function repl_loop :: "'s peer \<Rightarrow> repl_cfg \<Rightarrow> string \<Rightarrow> 's \<Rightarrow> shown list \<times> 's" where
  "repl_loop peer cfg input s =
     (if input = [] then ([], s)
      else let line = strip_line (fst (fgets 4095 input)); rest = snd (fgets 4095 input)
           in if line = [] then repl_loop peer cfg rest s
              else case handle_builtin peer cfg line s of
                     (Quit, _, s1) \<Rightarrow> ([], s1)
                   | (Handled os, cfg1, s1) \<Rightarrow> (case repl_loop peer cfg1 rest s1 of (os', s2) \<Rightarrow> (os @ os', s2))
                   | (Is_sql, cfg1, s1) \<Rightarrow>
                       (case cmd_query peer cfg1 line s1 of
                          (o1, s2) \<Rightarrow> (case repl_loop peer cfg1 rest s2 of (os', s3) \<Rightarrow> (o1 # os', s3))))"
  by pat_completeness auto

termination
  by (relation "measure (\<lambda>(peer, cfg, input, s). length input)") (auto intro: fgets_shorter)

declare repl_loop.simps [simp del]

text \<open>The client's command line: the configuration, or an exit status.\<close>

fun repl_args :: "string list \<Rightarrow> repl_cfg \<Rightarrow> int + repl_cfg" where
  "repl_args [] cfg = Inr cfg"
| "repl_args (a # as) cfg =
     (if a = ''--help'' \<or> a = ''-h'' then Inl 0
      else case as of
             [] \<Rightarrow> Inl 1
           | v # rest \<Rightarrow>
               if a = ''--host'' then repl_args rest (cfg\<lparr>rc_host := strncpy 127 v\<rparr>)
               else if a = ''--port''
               then repl_args rest (cfg\<lparr>rc_port := (if atoi v \<le> 0 \<or> atoi v > 65535 then 8080 else atoi v)\<rparr>)
               else Inl 1)"

definition repl_main :: "'s peer \<Rightarrow> string list \<Rightarrow> string \<Rightarrow> 's \<Rightarrow> int \<times> shown list \<times> 's" where
  "repl_main peer args input s =
     (case repl_args args \<lparr>rc_host = ''localhost'', rc_port = 8080, rc_single = False\<rparr> of
        Inl status \<Rightarrow> (status, [], s)
      | Inr cfg \<Rightarrow> (case repl_loop peer cfg input s of (os, s') \<Rightarrow> (0, os, s')))"

end
