(* ===== verification/Repl_Laws.thy ===== *)
theory Repl_Laws
  imports Repl Router_Laws
begin

text \<open>
  The client and the server together: what the client sends is the request it means, what
  the server answers is what the client shows, and SQL in the address survives the escaping.
\<close>

section \<open>Header lines\<close>

definition line_ok :: "string \<Rightarrow> bool" where
  "line_ok l \<longleftrightarrow> l \<noteq> [] \<and> creturn \<notin> set l \<and> newline \<notin> set l \<and> nul \<notin> set l"

definition lines_text :: "string list \<Rightarrow> string" where
  "lines_text ls = concat (map (\<lambda>l. l @ crlf) ls)"

lemma header_end_skip: "c \<noteq> creturn \<Longrightarrow> find_header_end (c # s) = map_option Suc (find_header_end s)"
  by (cases s rule: find_header_end.cases) auto

lemma header_end_line: "creturn \<notin> set l \<Longrightarrow> find_header_end (l @ s) = map_option ((+) (length l)) (find_header_end s)"
proof (induction l)
  case (Cons c l)
  then show ?case using header_end_skip [of c "l @ s"] by (auto simp: option.map_comp comp_def)
next
  case Nil
  then show ?case by (cases "find_header_end s") simp_all
qed

lemma header_end_break: "c \<noteq> creturn \<Longrightarrow> find_header_end (crlf @ c # s) = map_option (\<lambda>i. Suc (Suc (Suc i))) (find_header_end s)"
  by (cases s) (auto simp: crlf_def newline_def creturn_def option.map_comp comp_def header_end_skip)

lemma header_end_lines:
  "list_all line_ok ls \<Longrightarrow> ls \<noteq> [] \<Longrightarrow>
   find_header_end (lines_text ls @ crlf @ body) = Some (length (lines_text ls) - 2)"
proof (induction ls)
  case (Cons l ls)
  then have l: "creturn \<notin> set l" "l \<noteq> []" by (simp_all add: line_ok_def)
  show ?case
  proof (cases "ls = []")
    case True
    have "find_header_end (crlf @ crlf @ body) = Some 0" by (simp add: crlf_def)
    then show ?thesis using True header_end_line [OF l(1), of "crlf @ crlf @ body"] by (simp add: lines_text_def crlf_def)
  next
    case False
    then obtain c m ls' where ls: "ls = (c # m) # ls'" "c \<noteq> creturn"
      using Cons.prems by (cases ls) (auto simp: line_ok_def neq_Nil_conv)
    have ih: "find_header_end (lines_text ls @ crlf @ body) = Some (length (lines_text ls) - 2)"
      using Cons.IH Cons.prems False by simp
    have "find_header_end (crlf @ lines_text ls @ crlf @ body) = map_option ((+) 2) (find_header_end (lines_text ls @ crlf @ body))"
      using header_end_break [OF ls(2)] header_end_skip [OF ls(2)] ls(1)
      by (simp add: lines_text_def option.map_comp comp_def)
    moreover have "2 \<le> length (lines_text ls)" using ls(1) by (simp add: lines_text_def crlf_def)
    ultimately show ?thesis
      using ih header_end_line [OF l(1), of "crlf @ lines_text ls @ crlf @ body"] by (simp add: lines_text_def crlf_def)
  qed
qed simp

lemma header_lines_crlf: "header_lines (crlf @ s) = header_lines s"
  by (subst (1 2) header_lines.simps) (simp add: crlf_def)

lemma takeWhile_line: "creturn \<notin> set l \<Longrightarrow> newline \<notin> set l \<Longrightarrow>
   takeWhile (\<lambda>c. c \<noteq> creturn \<and> c \<noteq> newline) (l @ crlf @ s) = l \<and>
   dropWhile (\<lambda>c. c \<noteq> creturn \<and> c \<noteq> newline) (l @ crlf @ s) = crlf @ s"
  by (induction l) (auto simp: crlf_def)

lemma header_lines_text: "list_all line_ok ls \<Longrightarrow> header_lines (lines_text ls) = ls"
proof (induction ls)
  case Nil
  then show ?case by (subst header_lines.simps) (simp add: lines_text_def)
next
  case (Cons l ls)
  then obtain c m where l: "l = c # m" "c \<noteq> creturn" "c \<noteq> newline" "creturn \<notin> set l" "newline \<notin> set l"
    by (auto simp: line_ok_def neq_Nil_conv)
  have eq: "lines_text (l # ls) = l @ crlf @ lines_text ls" by (simp add: lines_text_def)
  have skip: "dropWhile (\<lambda>c. c = creturn \<or> c = newline) (l @ crlf @ lines_text ls) = l @ crlf @ lines_text ls"
    using l(1-3) by simp
  have "header_lines (lines_text (l # ls)) = l # header_lines (crlf @ lines_text ls)"
    unfolding eq using takeWhile_line [OF l(4,5), of "lines_text ls"] l(1)
    by (subst header_lines.simps, unfold skip) (simp add: Let_def)
  then show ?case using Cons by (simp add: header_lines_crlf)
qed

section \<open>What the server reads from the client's bytes\<close>

lemma strtoul_show:
  assumes "int n \<le> ulong_max"
  shows "strtoul (show_nat n) = Some (int n, [], False)"
proof -
  obtain c cs where s: "show_nat n = c # cs" by (cases "show_nat n") auto
  have digits: "\<forall>c \<in> set (show_nat n). is_digit c" by (rule show_nat_digits)
  then have c: "is_digit c" "\<not> is_space c" "c \<noteq> CHR ''-''" "c \<noteq> CHR ''+''"
    using digit_not_space digit_not_sign by (auto simp: s)
  have v: "nat_of_digits (c # cs) = int n" using nat_of_digits_show [of n] s by simp
  have "takeWhile is_digit (c # cs) = c # cs" "dropWhile is_digit (c # cs) = []"
    using takeWhile_digits [OF digits] dropWhile_digits [OF digits] s by simp_all
  then have rest: "takeWhile is_digit cs = cs" "dropWhile is_digit cs = []" using c(1) by simp_all
  show ?thesis
    using assms c v rest by (simp add: strtoul_def s Let_def ulong_max_def del: takeWhile_eq_all_conv dropWhile_eq_Nil_conv)
qed

lemma content_length_show: "int n \<le> body_max \<Longrightarrow> parse_content_length (show_nat n) = Some n"
  using strtoul_show [of n] by (simp add: parse_content_length_def body_max_def ulong_max_def)

lemma trim_ws_front: "\<forall>c \<in> set s. \<not> is_space c \<Longrightarrow> trim_ws (CHR '' '' # s) = s"
proof -
  assume "\<forall>c \<in> set s. \<not> is_space c"
  then have "trim_ws s = s" by (rule trim_ws_no_space)
  moreover have "is_space (CHR '' '')" by code_simp
  ultimately show ?thesis by (simp add: trim_ws_def)
qed

text \<open>A host name that can stand in a header.\<close>

definition host_ok :: "repl_cfg \<Rightarrow> bool" where
  "host_ok cfg \<longleftrightarrow> creturn \<notin> set (rc_host cfg) \<and> newline \<notin> set (rc_host cfg) \<and> nul \<notin> set (rc_host cfg)"

definition header_of :: "repl_cfg \<Rightarrow> string \<Rightarrow> string \<Rightarrow> string \<Rightarrow> string list" where
  "header_of cfg meth path body =
     [meth @ '' '' @ path @ '' HTTP/1.1'', ''Host: '' @ rc_host cfg @ '':'' @ show_int (rc_port cfg),
      ''Content-Type: text/plain'', ''Content-Length: '' @ show_int (int (length body)), ''Connection: close'']"

lemma request_text_lines: "request_text cfg meth path body = lines_text (header_of cfg meth path body) @ crlf"
  by (simp add: request_text_def header_of_def lines_text_def)

lemma show_int_plain: "creturn \<notin> set (show_int i) \<and> newline \<notin> set (show_int i) \<and> nul \<notin> set (show_int i)"
proof -
  have "\<not> is_digit creturn" "\<not> is_digit newline" "\<not> is_digit nul" by code_simp+
  then have "creturn \<notin> set (show_nat n) \<and> newline \<notin> set (show_nat n) \<and> nul \<notin> set (show_nat n)" for n
    using show_nat_digits by blast
  then show ?thesis by (simp add: show_int_def creturn_def newline_def nul_def)
qed

lemma header_of_ok:
  assumes "host_ok cfg" "line_ok meth" "line_ok path"
  shows "list_all line_ok (header_of cfg meth path body)"
  using assms show_int_plain by (auto simp: header_of_def line_ok_def host_ok_def creturn_def newline_def nul_def)

lemma parse_client_headers:
  assumes "int (length body) \<le> body_max"
  shows "parse_headers (tl (header_of cfg meth path body)) rq =
    Some (rq\<lparr>rq_content_type := ''text/plain'', rq_content_length := length body\<rparr>)"
proof -
  have digits: "\<forall>c \<in> set (show_nat (length body)). \<not> is_space c" using show_nat_digits digit_not_space by blast
  have len: "parse_content_length (trim_ws (CHR '' '' # show_nat (length body))) = Some (length body)"
    unfolding trim_ws_front [OF digits] by (rule content_length_show [OF assms])
  have cuts: "cut_at (CHR '':'') (''Host: '' @ h) = (''Host'', Some (CHR '' '' # h))"
    "cut_at (CHR '':'') (''Content-Length: '' @ h) = (''Content-Length'', Some (CHR '' '' # h))"
    "cut_at (CHR '':'') ''Content-Type: text/plain'' = (''Content-Type'', Some '' text/plain'')"
    "cut_at (CHR '':'') ''Connection: close'' = (''Connection'', Some '' close'')" for h
    by (simp_all add: cut_at_def)
  have names: "trim_ws ''Host'' = ''Host''" "trim_ws ''Content-Type'' = ''Content-Type''" "trim_ws ''Content-Length'' = ''Content-Length''"
    "trim_ws ''Connection'' = ''Connection''" "strncpy 63 (trim_ws '' text/plain'') = ''text/plain''"
    "ieq ''Host'' ''Content-Length'' = False" "ieq ''Host'' ''Content-Type'' = False" "ieq ''Content-Type'' ''Content-Length'' = False"
    "ieq ''Connection'' ''Content-Length'' = False" "ieq ''Connection'' ''Content-Type'' = False"
    by code_simp+
  show ?thesis
    unfolding header_of_def list.sel parse_headers.simps cuts names Let_def prod.case option.case if_False if_True ieq_refl
    by (simp only: show_int_def len nat_int of_nat_less_0_iff if_False if_True ieq_refl option.case)
qed

text \<open>The request line of a method and a target that needs no cutting.\<close>

definition target_ok :: "string \<Rightarrow> bool" where
  "target_ok path \<longleftrightarrow> line_ok path \<and> list_all (\<lambda>c. \<not> is_space c) path"

lemma cut_at_free: "c \<notin> set a \<Longrightarrow> cut_at c (a @ c # b) = (a, Some b)"
  by (induction a) (auto simp: cut_at_def)

lemma cut_at_none: "c \<notin> set a \<Longrightarrow> cut_at c a = (a, None)"
  by (induction a) (auto simp: cut_at_def)

lemma trim_target:
  assumes "target_ok path"
  shows "trim_ws (path @ '' HTTP/1.1'') = path @ '' HTTP/1.1''"
proof -
  obtain c s where path: "path = c # s" "\<not> is_space c" using assms by (cases path) (auto simp: target_ok_def line_ok_def)
  have "\<not> is_space (CHR ''1'')" by code_simp
  then show ?thesis by (simp add: trim_ws_def path)
qed

lemma parse_client_line:
  assumes "meth \<in> {''GET'', ''POST''}" "target_ok path"
  shows "parse_request_line (meth @ '' '' @ path @ '' HTTP/1.1'') =
    (case cut_at (CHR ''?'') path of
       (p, q) \<Rightarrow> Some \<lparr>rq_method = meth, rq_path = strncpy 511 p,
         rq_query = (case q of None \<Rightarrow> [] | Some t \<Rightarrow> strncpy 511 t),
         rq_content_type = [], rq_content_length = 0, rq_body = None\<rparr>)"
proof -
  have sp: "CHR '' '' \<notin> set meth" using assms(1) by auto
  have "\<not> is_space c" if "c \<in> set path" for c using assms(2) that by (auto simp: target_ok_def list_all_iff)
  moreover have "is_space (CHR '' '')" by code_simp
  ultimately have sp2: "CHR '' '' \<notin> set path" by blast
  have m: "ieq meth ''GET'' = (meth = ''GET'')" "ieq meth ''GET'' \<or> ieq meth ''POST''" "take 5 (trim_ws ''HTTP/1.1'') = ''HTTP/''"
    using assms(1) by (auto; code_simp)+
  show ?thesis
    using cut_at_free [OF sp, of "path @ '' HTTP/1.1''"] cut_at_free [OF sp2, of "''HTTP/1.1''"] trim_target [OF assms(2)] m assms(1)
    by (auto simp: parse_request_line_def split: prod.splits)
qed

lemma lines_text_length: "ls \<noteq> [] \<Longrightarrow> 2 \<le> length (lines_text ls)"
  by (cases ls) (simp_all add: lines_text_def crlf_def)

text \<open>The request the server reads from what the client sends.\<close>

definition client_request :: "string \<Rightarrow> string \<Rightarrow> string \<Rightarrow> Http_Protocol.http_request" where
  "client_request meth path body =
     (case cut_at (CHR ''?'') path of
        (p, q) \<Rightarrow> \<lparr>rq_method = meth, rq_path = strncpy 511 p, rq_query = (case q of None \<Rightarrow> [] | Some t \<Rightarrow> strncpy 511 t),
          rq_content_type = ''text/plain'', rq_content_length = length body, rq_body = (if body = [] then None else Some body)\<rparr>)"

lemma parse_client_bytes:
  assumes "host_ok cfg" "meth \<in> {''GET'', ''POST''}" "target_ok path" "int (length body) \<le> body_max"
    and "length (request_text cfg meth path body) \<le> header_max"
  shows "parse_bytes (request_text cfg meth path body @ body) = Some (client_request meth path body)"
proof -
  let ?ls = "header_of cfg meth path body"
  let ?h = "lines_text ?ls"
  have "line_ok meth" using assms(2) by (auto simp: line_ok_def creturn_def newline_def nul_def)
  then have ok: "list_all line_ok ?ls" using header_of_ok [OF assms(1)] assms(3) by (simp add: target_ok_def)
  have ne: "?ls \<noteq> []" by (simp add: header_of_def)
  have two: "2 \<le> length ?h" by (rule lines_text_length [OF ne])
  have all: "request_text cfg meth path body @ body = ?h @ crlf @ body" by (simp add: request_text_lines)
  have len: "length (?h @ crlf) \<le> header_max" using assms(5) by (simp only: request_text_lines)
  have front: "take header_max (?h @ crlf @ body) = ?h @ crlf @ take (header_max - length (?h @ crlf)) body"
    using take_append [of header_max "?h @ crlf" body] take_all [OF len] by (simp only: append_assoc)
  have sep: "find_header_end (take header_max (?h @ crlf @ body)) = Some (length ?h - 2)"
    unfolding front by (rule header_end_lines [OF ok ne])
  have cut: "take (length ?h - 2 + 2) (?h @ crlf @ body) = ?h" "drop (length ?h - 2 + 4) (?h @ crlf @ body) = body"
    using two by (simp_all add: crlf_def)
  have nul: "takeWhile (\<lambda>c. c \<noteq> nul) ?h = ?h"
    using ok by (intro takeWhile_eq_all_conv [THEN iffD2]) (auto simp: lines_text_def line_ok_def list_all_iff crlf_def creturn_def newline_def nul_def)
  have "?ls = (meth @ '' '' @ path @ '' HTTP/1.1'') # tl ?ls" by (simp add: header_of_def)
  then have "parse_header_text ?h = (case parse_request_line (meth @ '' '' @ path @ '' HTTP/1.1'') of None \<Rightarrow> None | Some rq \<Rightarrow> parse_headers (tl ?ls) rq)"
    unfolding parse_header_text_def nul header_lines_text [OF ok] by (metis list.case(2))
  then have header: "parse_header_text ?h = Some ((client_request meth path body)\<lparr>rq_body := None\<rparr>)"
    unfolding parse_client_line [OF assms(2,3)] parse_client_headers [OF assms(4), of cfg meth path]
    by (cases "cut_at (CHR ''?'') path") (simp add: client_request_def)
  show ?thesis
    unfolding all parse_bytes_def sep option.case cut header Let_def
    by (cases "cut_at (CHR ''?'') path") (simp add: client_request_def)
qed

section \<open>What the client reads\<close>

lemma read_all_data:
  assumes "delivers es"
  shows "int (length buf) \<le> cap \<Longrightarrow> 4096 \<le> cap \<Longrightarrow> cap \<le> resp_cap \<Longrightarrow>
    read_all cap buf es = Some (take (nat resp_cap) (buf @ data_of es))"
  using assms
proof (induction cap buf es rule: read_all.induct)
  case (1 cap buf es)
  let ?g = "grown cap (length buf)"
  show ?case
  proof (cases "resp_cap \<le> int (length buf) \<or> es = []")
    case True
    then show ?thesis using 1(3,5) by (subst read_all.simps) (auto simp: le_nat_iff)
  next
    case False
    have g: "int (length buf) < ?g" "4096 \<le> ?g" "?g \<le> resp_cap" using 1(3-5) False by (auto simp: grown_def resp_cap_def)
    obtain r es' where r: "read_fd (nat (?g - int (length buf))) es = (r, es')" by fastforce
    have d: "delivers es'" and rr: "r = Again \<and> data_of es' = data_of es \<or>
        (\<exists>d. r = Got d \<and> d \<noteq> [] \<and> length d \<le> nat (?g - int (length buf)) \<and> d @ data_of es' = data_of es)"
      using read_fd_delivers [OF 1(6) _ _ r] False g(1) by auto
    from rr show ?thesis
    proof
      assume again: "r = Again \<and> data_of es' = data_of es"
      have "read_all cap buf es = read_all ?g buf es'" using False g(1) r again by (subst read_all.simps) simp
      moreover have "read_all ?g buf es' = Some (take (nat resp_cap) (buf @ data_of es'))"
        by (rule 1(2) [OF _ r [symmetric] conjunct1 [OF again] _ less_imp_le [OF g(1)] g(2,3) d]) (use False g(1) in auto)
      ultimately show ?thesis using again by simp
    next
      assume "\<exists>d. r = Got d \<and> d \<noteq> [] \<and> length d \<le> nat (?g - int (length buf)) \<and> d @ data_of es' = data_of es"
      then obtain d where got: "r = Got d" "d \<noteq> []" "length d \<le> nat (?g - int (length buf))" "d @ data_of es' = data_of es" by blast
      have all: "buf @ data_of es = (buf @ d) @ data_of es'" using got(4) by simp
      have len: "int (length (buf @ d)) \<le> ?g" using got(3) g(1) by simp
      have "read_all cap buf es = read_all ?g (buf @ d) es'" using False g(1) r got by (subst read_all.simps) simp
      moreover have "read_all ?g (buf @ d) es' = Some (take (nat resp_cap) ((buf @ d) @ data_of es'))"
        by (rule 1(1) [OF _ r [symmetric] got(1) _ len g(2,3) d]) (use False g(1) got(2) in auto)
      ultimately show ?thesis by (simp only: all)
    qed
  qed
qed

lemma strtol_show_nat:
  assumes "int n \<le> long_max" "\<not> is_digit c"
  shows "strtol (show_nat n @ c # s) = Some (int n, c # s, False)"
proof -
  obtain d ds where s: "show_nat n = d # ds" by (cases "show_nat n") auto
  have digits: "\<forall>c \<in> set (d # ds). is_digit c" using show_nat_digits [of n] s by simp
  then have d: "is_digit d" "\<not> is_space d" "d \<noteq> CHR ''-''" "d \<noteq> CHR ''+''"
    using digit_not_space digit_not_sign by auto
  have v: "nat_of_digits (d # ds) = int n" using nat_of_digits_show [of n] s by simp
  have "takeWhile is_digit (d # ds @ c # s) = d # ds" "dropWhile is_digit (d # ds @ c # s) = c # s"
    using digits assms(2) by (simp_all add: takeWhile_append dropWhile_append)
  then show ?thesis
    using assms(1) d v by (simp add: strtol_def s Let_def long_min_def long_max_def)
qed

text \<open>The client understands the server's responses: status and body come back.\<close>

definition response_lines :: "http_response \<Rightarrow> string list" where
  "response_lines rsp =
     [''HTTP/1.1 '' @ show_int (hr_status rsp) @ '' '' @ status_reason (hr_status rsp), ''Content-Type: '' @ hr_content_type rsp,
      ''Content-Length: '' @ show_int (int (length (hr_body rsp))), ''Connection: close'']"

lemma response_header_lines: "response_header rsp = lines_text (response_lines rsp) @ crlf"
  by (simp add: response_header_def response_lines_def lines_text_def)

lemma parse_written_response:
  assumes "0 \<le> hr_status rsp" "hr_status rsp \<le> int_max" "line_ok (hr_content_type rsp)"
  shows "parse_response (response_header rsp @ hr_body rsp) = (hr_status rsp, Some (hr_body rsp))"
proof -
  let ?ls = "response_lines rsp"
  let ?all = "response_header rsp @ hr_body rsp"
  have ne: "?ls \<noteq> []" by (simp add: response_lines_def)
  have "creturn \<notin> set (status_reason i) \<and> newline \<notin> set (status_reason i) \<and> nul \<notin> set (status_reason i)" for i
    by (simp add: status_reason_def creturn_def newline_def nul_def)
  then have ok: "list_all line_ok ?ls"
    using assms(3) show_int_plain by (auto simp: response_lines_def line_ok_def creturn_def newline_def nul_def)
  have sep: "find_header_end ?all = Some (length (lines_text ?ls) - 2)"
    using header_end_lines [OF ok ne, of "hr_body rsp"] by (simp add: response_header_lines)
  have body: "drop (length (lines_text ?ls) - 2 + 4) ?all = hr_body rsp"
    using lines_text_length [OF ne] by (simp add: response_header_lines crlf_def)
  define rest where "rest = status_reason (hr_status rsp) @ crlf @ lines_text (tl ?ls) @ crlf @ hr_body rsp"
  have all: "?all = ''HTTP/1.1 '' @ show_nat (nat (hr_status rsp)) @ CHR '' '' # rest"
    using assms(1) by (simp add: rest_def response_header_lines response_lines_def lines_text_def show_int_def)
  have "\<not> is_digit (CHR '' '')" by code_simp
  then have "strtol (drop 9 ?all) = Some (hr_status rsp, CHR '' '' # rest, False)"
    unfolding all using assms(1,2) strtol_show_nat [of "nat (hr_status rsp)" "CHR '' ''" rest]
    by (simp add: int_max_def long_max_def)
  moreover have "take 7 ?all = ''HTTP/1.''" unfolding all by simp
  moreover have "12 \<le> length ?all" by (simp add: response_header_def)
  ultimately show ?thesis
    using assms(1,2) sep body by (simp add: parse_response_def find_header_body_sep_def wrap32_id int_min_def int_max_def)
qed

section \<open>The client talking to the server\<close>

text \<open>
  A connection to the server: \<open>split\<close> is how the network cuts bytes into reads, in both
  directions, and \<open>ws\<close> how it takes the server's writes.
\<close>

definition network :: "(string \<Rightarrow> read_event list) \<Rightarrow> write_event list \<Rightarrow> clock \<Rightarrow> server peer" where
  "network split ws ck sv bytes = (case handle_client ck (split bytes) ws sv of (out, sv') \<Rightarrow> (Some (split out), sv'))"

definition lossless :: "(string \<Rightarrow> read_event list) \<Rightarrow> bool" where
  "lossless split \<longleftrightarrow> (\<forall>x. delivers (split x) \<and> data_of (split x) = x)"

text \<open>A response that is written in full and that the client can take.\<close>

definition arrives :: "write_event list \<Rightarrow> http_response \<Rightarrow> bool" where
  "arrives ws rsp \<longleftrightarrow> fst (http_write_response ws rsp) \<and> 0 \<le> hr_status rsp \<and> hr_status rsp \<le> int_max \<and>
     line_ok (hr_content_type rsp) \<and> int (length (response_header rsp @ hr_body rsp)) \<le> resp_cap \<and> nul \<notin> set (hr_body rsp)"

lemma exchange:
  assumes net: "lossless split" "host_ok cfg" "meth \<in> {''GET'', ''POST''}" "target_ok path" "int (length body) \<le> body_max"
    and fits: "int (length (request_text cfg meth path body)) < max_line + 512"
    and served: "router_dispatch ck (client_request meth path body) sv = (rsp, sv')" "arrives ws rsp"
  shows "http_request (network split ws ck) cfg meth path body sv = (Some (response_header rsp @ hr_body rsp), sv')"
proof -
  let ?bytes = "request_text cfg meth path body @ body"
  let ?out = "response_header rsp @ hr_body rsp"
  have "length (request_text cfg meth path body) \<le> header_max" using fits by (simp add: max_line_def header_max_def)
  then have "map_option fst (http_parse_request (split ?bytes)) = Some (client_request meth path body)"
    using parse_delivered [of "split ?bytes"] parse_client_bytes [OF net(2-5)] net(1) by (simp add: lossless_def)
  then obtain es where parsed: "http_parse_request (split ?bytes) = Some (client_request meth path body, es)" by auto
  have "snd (http_write_response ws rsp) = ?out"
    using served(2) response_written [of ws rsp] by (cases "http_write_response ws rsp") (auto simp: arrives_def)
  then have "handle_client ck (split ?bytes) ws sv = (?out, sv')" using parsed served(1) by (simp add: handle_client_def)
  moreover have "take (nat resp_cap) ?out = ?out"
    using served(2) by (intro take_all) (simp add: arrives_def resp_cap_def)
  then have "read_all 4096 [] (split ?out) = Some ?out"
    using read_all_data [of "split ?out" "[]" 4096] net(1) by (simp add: lossless_def resp_cap_def del: take_append take_all_iff)
  ultimately show ?thesis using fits by (simp add: http_request_def network_def Let_def)
qed

lemma print_arrived:
  assumes "arrives ws rsp"
  shows "print_response (Some (response_header rsp @ hr_body rsp)) =
    Answer (hr_status rsp) (if 200 \<le> hr_status rsp \<and> hr_status rsp < 300 then Green else if 400 \<le> hr_status rsp then Red else Yellow) (hr_body rsp)"
proof -
  have "c_str (hr_body rsp) = hr_body rsp"
    using assms unfolding c_str_def arrives_def by (intro takeWhile_eq_all_conv [THEN iffD2]) blast
  then show ?thesis using assms parse_written_response [of rsp] by (simp add: print_response_def arrives_def)
qed

definition query_path :: "repl_cfg \<Rightarrow> string" where
  "query_path cfg = (if rc_single cfg then ''/api/query?mode=single'' else ''/api/query'')"

text \<open>C1: a line of SQL typed at the client is executed by the server exactly as typed, in the lock
  mode that the client is in, and the client shows the status and the JSON that the engine
  gave for it; this holds however the network cuts the bytes of request and response into
  reads.\<close>

theorem client_query_end_to_end:
  assumes "lossless split" "host_ok cfg" "sql \<noteq> []" "nul \<notin> set sql" "int (length sql) < max_line"
    and "int (length (request_text cfg ''POST'' (query_path cfg) sql)) < max_line + 512"
    and "run_sql ck sql sv = (r, sv')" "arrives ws (take_engine_result r)"
  shows "cmd_query (network split ws ck) cfg sql sv =
      (Answer (if er_ok r then 200 else 500) (if er_ok r then Green else Red) (er_json r), sv') \<and>
    query_has_single_mode (rq_query (client_request ''POST'' (query_path cfg) sql)) = rc_single cfg"
proof -
  let ?rq = "client_request ''POST'' (query_path cfg) sql"
  have path: "target_ok ''/api/query''" "target_ok ''/api/query?mode=single''" by code_simp+
  have cut: "cut_at (CHR ''?'') ''/api/query'' = (''/api/query'', None)"
    "cut_at (CHR ''?'') ''/api/query?mode=single'' = (''/api/query'', Some ''mode=single'')"
    "strncpy 511 ''/api/query'' = ''/api/query''" "strncpy 511 ''mode=single'' = ''mode=single''"
    "query_has_single_mode ''mode=single''" "\<not> query_has_single_mode []"
    by code_simp+
  have mode: "query_has_single_mode (rq_query ?rq) = rc_single cfg" using cut by (simp add: client_request_def query_path_def)
  have rq: "rq_path ?rq = ''/api/query''" "rq_method ?rq = ''POST''" "rq_body ?rq = Some sql" "rq_content_length ?rq \<noteq> 0"
    using cut assms(3) by (simp_all add: client_request_def query_path_def)
  have "c_str sql = sql" using assms(4) unfolding c_str_def by (intro takeWhile_eq_all_conv [THEN iffD2]) blast
  then have dispatch: "router_dispatch ck ?rq sv = (take_engine_result r, sv')"
    using rq assms(7) by (simp add: router_dispatch_def method_is_def)
  have "http_request (network split ws ck) cfg ''POST'' (query_path cfg) sql sv =
      (Some (response_header (take_engine_result r) @ hr_body (take_engine_result r)), sv')"
    using exchange [OF assms(1,2) _ _ _ assms(6) dispatch assms(8)] path assms(5)
    by (simp add: query_path_def max_line_def body_max_def)
  then show ?thesis
    using mode print_arrived [OF assms(8)] by (simp add: cmd_query_def query_path_def take_engine_result_def json_response_def)
qed

section \<open>SQL in an address\<close>

lemma url_decode_plain: "c \<noteq> CHR ''%'' \<Longrightarrow> url_decode (Suc n) (c # s) = (if c = CHR ''+'' then CHR '' '' else c) # url_decode n s"
  by (cases s; cases "tl s") auto

lemma url_decode_hex:
  "from_hex a = Some hi \<Longrightarrow> from_hex b = Some lo \<Longrightarrow> url_decode (Suc n) (CHR ''%'' # a # b # s) = char_of (16 * hi + lo) # url_decode n s"
  by simp

lemma from_hex_upper: "k < 16 \<Longrightarrow> from_hex (hex_upper k) = Some k"
proof -
  have "list_all (\<lambda>k. from_hex (hex_upper k) = Some k) [0..<16]" by code_simp
  then show "k < 16 \<Longrightarrow> ?thesis" by (auto simp: list_all_iff)
qed

lemma nibbles: "code_of c div 16 < 16" "code_of c mod 16 < 16"
  using nat_of_char_less_256 [of c] by (auto intro: less_mult_imp_div_less)

lemma url_escape_decode:
  "pos + 3 * int (length s) + 2 \<le> cap \<Longrightarrow> CHR ''%'' \<notin> set s \<Longrightarrow> length s \<le> n \<Longrightarrow>
   url_decode n (url_escape_min cap pos s) = s"
proof (induction cap pos s arbitrary: n rule: url_escape_min.induct)
  case (1 cap pos)
  then show ?case by (cases n) simp_all
next
  case (2 cap pos c s)
  then obtain m where n: "n = Suc m" "length s \<le> m" by (cases n) auto
  have room: "\<not> cap \<le> pos + 4" using 2(4) by simp
  consider (space) "c = CHR '' ''" | (code) "c \<noteq> CHR '' ''" "code_of c < 32 \<or> c \<in> set ''#&?=+''"
    | (plain) "c \<noteq> CHR '' ''" "\<not> (code_of c < 32 \<or> c \<in> set ''#&?=+'')" by blast
  then show ?case
  proof cases
    case space
    have "url_decode m (url_escape_min cap (pos + 3) s) = s" using 2(1) [OF room space] 2(4,5) n(2) by simp
    moreover have "from_hex (CHR ''2'') = Some 2" "from_hex (CHR ''0'') = Some 0" "char_of (32 :: nat) = CHR '' ''" by code_simp+
    ultimately show ?thesis using room by (simp add: space n(1) url_decode_hex del: url_decode.simps)
  next
    case code
    have "url_decode m (url_escape_min cap (pos + 3) s) = s" using 2(2) [OF room code] 2(4,5) n(2) by simp
    moreover have "from_hex (hex_upper (code_of c div 16)) = Some (code_of c div 16)" "from_hex (hex_upper (code_of c mod 16)) = Some (code_of c mod 16)"
      by (intro from_hex_upper nibbles)+
    moreover have "url_escape_min cap pos (c # s) = CHR ''%'' # hex_upper (code_of c div 16) # hex_upper (code_of c mod 16) # url_escape_min cap (pos + 3) s"
      using room code by (simp only: url_escape_min.simps if_False if_True)
    ultimately show ?thesis by (simp add: n(1) url_decode_hex del: url_decode.simps url_escape_min.simps)
  next
    case plain
    have "url_decode m (url_escape_min cap (pos + 1) s) = s" using 2(3) [OF room plain] 2(4,5) n(2) by simp
    moreover have "url_escape_min cap pos (c # s) = c # url_escape_min cap (pos + 1) s"
      using room plain by (simp only: url_escape_min.simps if_False if_True)
    moreover have "c \<noteq> CHR ''%''" "c \<noteq> CHR ''+''" using plain(2) 2(5) by auto
    ultimately show ?thesis by (simp add: n(1) url_decode_plain del: url_decode.simps url_escape_min.simps)
  qed
qed

definition address_char :: "char \<Rightarrow> bool" where
  "address_char c \<longleftrightarrow> 32 < code_of c \<and> c \<notin> set ''#&?=+''"

lemma hex_upper_address: "k < 16 \<Longrightarrow> address_char (hex_upper k)"
proof -
  have "list_all (\<lambda>k. address_char (hex_upper k)) [0..<16]" by code_simp
  then show "k < 16 \<Longrightarrow> ?thesis" by (auto simp: list_all_iff)
qed

lemma url_escape_chars: "list_all address_char (url_escape_min cap pos s)"
proof (induction cap pos s rule: url_escape_min.induct)
  case (2 cap pos c s)
  have fixed: "address_char (CHR ''%'')" "address_char (CHR ''2'')" "address_char (CHR ''0'')" by code_simp+
  have hex: "address_char (hex_upper (code_of c div 16))" "address_char (hex_upper (code_of c mod 16))"
    by (intro hex_upper_address nibbles)+
  have "c \<noteq> CHR '' '' \<Longrightarrow> \<not> (code_of c < 32 \<or> c \<in> set ''#&?=+'') \<Longrightarrow> address_char c"
  proof -
    assume "c \<noteq> CHR '' ''" "\<not> (code_of c < 32 \<or> c \<in> set ''#&?=+'')"
    moreover have "code_of c \<noteq> 32"
    proof
      assume "code_of c = 32"
      then have "char_of (32 :: nat) = c" using char_of_char [of c, where 'a = nat] by (simp only:)
      moreover have "char_of (32 :: nat) = CHR '' ''" by code_simp
      ultimately show False using \<open>c \<noteq> CHR '' ''\<close> by simp
    qed
    ultimately show "address_char c" by (auto simp: address_char_def)
  qed
  then show ?case using 2 fixed hex by simp
qed simp

lemma explain_target:
  fixes sql :: string
  defines "e \<equiv> url_escape_min (3 * max_line) 0 sql"
  shows "target_ok (''/api/explain?sql='' @ e)" "cut_at (CHR ''?'') (''/api/explain?sql='' @ e) = (''/api/explain'', Some (''sql='' @ e))"
    "query_parts (''sql='' @ e) = [''sql='' @ e]"
proof -
  have chars: "list_all address_char e" unfolding e_def by (rule url_escape_chars)
  have bad: "\<not> address_char creturn" "\<not> address_char newline" "\<not> address_char nul" "\<not> address_char (CHR ''&'')" by code_simp+
  have "\<not> is_space c" if "address_char c" for c using that by (auto simp: address_char_def is_space_def)
  then have "list_all (\<lambda>c. \<not> is_space c) e" using chars by (auto simp: list_all_iff)
  moreover have "list_all (\<lambda>c. \<not> is_space c) ''/api/explain?sql=''" "line_ok ''/api/explain?sql=''" by code_simp+
  ultimately show "target_ok (''/api/explain?sql='' @ e)"
    using chars bad unfolding target_ok_def line_ok_def list_all_append by (auto simp: list_all_iff)
  show "cut_at (CHR ''?'') (''/api/explain?sql='' @ e) = (''/api/explain'', Some (''sql='' @ e))" by (simp add: cut_at_def)
  have "CHR ''&'' \<notin> set (''sql='' @ e)" using chars bad(4) by (auto simp: list_all_iff)
  then show "query_parts (''sql='' @ e) = [''sql='' @ e]"
    by (subst query_parts.simps) (simp add: cut_at_none)
qed

lemma url_escape_length: "pos + 3 * int (length s) + 2 \<le> cap \<Longrightarrow> length s \<le> length (url_escape_min cap pos s)"
proof (induction s arbitrary: pos)
  case (Cons c s)
  have "length s \<le> length (url_escape_min cap (pos + 3) s)" "length s \<le> length (url_escape_min cap (pos + 1) s)"
    using Cons(2) by (auto intro!: Cons(1))
  then show ?case using Cons(2) by simp
qed simp

text \<open>The SQL the server gets when the client asks for a plan.\<close>

lemma explain_param:
  assumes "CHR ''%'' \<notin> set sql" "nul \<notin> set sql" "int (length sql) < max_line"
    and "4 + length (url_escape_min (3 * max_line) 0 sql) \<le> 511"
  shows "query_param (rq_query (client_request ''GET'' (''/api/explain?sql='' @ url_escape_min (3 * max_line) 0 sql) [])) ''sql'' 1024 = Some sql"
proof -
  let ?e = "url_escape_min (3 * max_line) 0 sql"
  have q: "rq_query (client_request ''GET'' (''/api/explain?sql='' @ ?e) []) = ''sql='' @ ?e"
    using explain_target(2) [of sql] assms(4) strncpy_short [of "''sql='' @ ?e" 511] by (simp add: client_request_def)
  have "length sql \<le> 1023" using url_escape_length [of 0 sql "3 * max_line"] assms(3,4) by (simp add: max_line_def)
  then have "url_decode 1023 ?e = sql" using url_escape_decode [of 0 sql "3 * max_line" 1023] assms(1,3) by (simp add: max_line_def)
  moreover have "c_str sql = sql" using assms(2) unfolding c_str_def by (intro takeWhile_eq_all_conv [THEN iffD2]) blast
  ultimately show ?thesis
    unfolding q query_param_def explain_target(3) using assms(4) by simp
qed

text \<open>SQL that the client sends in an address, to ask for a plan, reaches the engine exactly as
  typed: the escaping of the client and the decoding of the server cancel, and the client
  shows the plan. It holds for text without percent signs (the client does not escape them)
  whose escaped form fits the 511 characters that the server keeps of a query string.\<close>

theorem client_explain_end_to_end:
  assumes "lossless split" "host_ok cfg" "sql \<noteq> []" "CHR ''%'' \<notin> set sql" "nul \<notin> set sql" "int (length sql) < max_line"
    and "4 + length (url_escape_min (3 * max_line) 0 sql) \<le> 511"
    and "int (length (request_text cfg ''GET'' (''/api/explain?sql='' @ url_escape_min (3 * max_line) 0 sql) [])) < max_line + 512"
    and "arrives ws (take_engine_result (engine_explain sql (sv_engine sv)))"
  shows "cmd_explain (network split ws ck) cfg sql sv =
    (case engine_explain sql (sv_engine sv) of r \<Rightarrow>
       (Answer (if er_ok r then 200 else 500) (if er_ok r then Green else Red) (er_json r), sv))"
proof -
  let ?path = "''/api/explain?sql='' @ url_escape_min (3 * max_line) 0 sql"
  let ?rq = "client_request ''GET'' ?path []" and ?rsp = "take_engine_result (engine_explain sql (sv_engine sv))"
  have "strncpy 511 ''/api/explain'' = ''/api/explain''" by code_simp
  then have "rq_path ?rq = ''/api/explain''" "rq_method ?rq = ''GET''"
    using explain_target(2) [of sql] by (simp_all add: client_request_def)
  then have dispatch: "router_dispatch ck ?rq sv = (?rsp, sv)"
    using explain_param [OF assms(4-7)] assms(3) by (simp add: router_dispatch_def method_is_def)
  have "http_request (network split ws ck) cfg ''GET'' ?path [] sv = (Some (response_header ?rsp @ hr_body ?rsp), sv)"
    by (rule exchange [OF assms(1,2) _ explain_target(1) _ assms(8) dispatch assms(9)]) (simp_all add: body_max_def)
  then show ?thesis using print_arrived [OF assms(9)] by (simp add: cmd_explain_def take_engine_result_def json_response_def)
qed

section \<open>A small session\<close>

text \<open>A network that interrupts a read and then delivers everything.\<close>

definition one_read :: "string \<Rightarrow> read_event list" where
  "one_read x = (if x = [] then [] else [Read_interrupted, Arrived x])"

definition local_cfg :: repl_cfg where
  "local_cfg = \<lparr>rc_host = ''localhost'', rc_port = 80, rc_single = True\<rparr>"

definition bee_query :: string where
  "bee_query = ''SELECT english FROM dictionary WHERE id = 2''"

definition full_writes :: "write_event list" where
  "full_writes = [Wrote 1, Write_interrupted, Wrote 300, Wrote 400]"

lemma one_read_lossless: "lossless one_read"
  by (simp add: lossless_def one_read_def)

lemma short_number: "n < 1000 \<Longrightarrow> length (show_nat n) \<le> 3"
proof -
  have digit: "length (show_nat k) = 1" if "k < 10" for k using that by (subst show_nat.simps) simp
  have two: "length (show_nat k) \<le> 2" if "k < 100" for k
    using that digit [of "k div 10"] digit [of k] by (subst show_nat.simps) auto
  show "n < 1000 \<Longrightarrow> ?thesis" using two [of "n div 10"] by (subst show_nat.simps) auto
qed

lemma write_rest: "buf \<noteq> [] \<Longrightarrow> length buf \<le> n \<Longrightarrow> write_all (Wrote n # es) buf = (True, buf, es)"
  by (cases buf) (auto split: prod.split)

lemma write_interrupt: "buf \<noteq> [] \<Longrightarrow> write_all (Write_interrupted # es) buf = write_all es buf"
  by (cases buf) auto

lemma short_answer_arrives:
  assumes "st \<in> {200, 500}" "b \<noteq> []" "length b \<le> 400" "nul \<notin> set b"
  shows "arrives full_writes (json_response st b)"
proof -
  let ?h = "response_header (json_response st b)"
  have st: "show_int st = ''200'' \<or> show_int st = ''500''" "length (status_reason st) \<le> 21"
    using assms(1) by (auto; code_simp)+
  have small: "length ?h \<le> 300" "length ?h < 512"
    using st short_number [of "length b"] assms(3) by (auto simp: response_header_def json_response_def crlf_def show_int_def)
  have h: "?h = CHR ''H'' # tl ?h" "tl ?h \<noteq> []" by (simp_all add: response_header_def)
  have "write_all full_writes ?h = (True, ?h, [Wrote 400])"
    using write_rest [OF h(2), of 300 "[Wrote 400]"] small(1)
    by (subst h(1), subst (2) h(1)) (simp add: full_writes_def write_interrupt [OF h(2)])
  moreover have "write_all [Wrote 400] b = (True, b, [])" by (rule write_rest [OF assms(2,3)])
  moreover have "hr_body (json_response st b) = b" by (simp add: json_response_def)
  ultimately have "fst (http_write_response full_writes (json_response st b))" using small(2) by (simp add: http_write_response_def Let_def)
  moreover have "line_ok ''application/json''" by code_simp
  ultimately show ?thesis
    using assms small by (auto simp: arrives_def json_response_def int_max_def resp_cap_def)
qed

lemma local_requests:
  "host_ok local_cfg" "int (length (request_text local_cfg ''POST'' (query_path local_cfg) bee_query)) < max_line + 512"
  "int (length bee_query) < max_line" "nul \<notin> set bee_query" "bee_query \<noteq> []" "CHR ''%'' \<notin> set bee_query"
  by code_simp+

theorem client_query_end_to_end_witness:
  "fst (cmd_query (network one_read full_writes some_clock) local_cfg bee_query word_server) =
     Answer 200 Green (er_json (fst (run_sql some_clock bee_query word_server)))"
proof -
  let ?r = "fst (run_sql some_clock bee_query word_server)"
  have "case run_sql some_clock bee_query word_server of (r, _) \<Rightarrow>
      er_ok r \<and> er_json r \<noteq> [] \<and> int (length (er_json r)) \<le> 400 \<and> nul \<notin> set (er_json r)" by code_simp
  then have run: "er_ok ?r \<and> er_json ?r \<noteq> [] \<and> int (length (er_json ?r)) \<le> 400 \<and> nul \<notin> set (er_json ?r)"
    by (simp add: split_beta)
  then have "arrives full_writes (take_engine_result ?r)"
    unfolding take_engine_result_def by (intro short_answer_arrives) auto
  then show ?thesis
    using client_query_end_to_end [OF one_read_lossless local_requests(1,5,4,3,2) prod.collapse [symmetric]] run by simp
qed

theorem client_explain_end_to_end_witness:
  "cmd_explain (network one_read full_writes some_clock) local_cfg bee_query word_server =
     (Answer 200 Green (er_json (engine_explain bee_query word_engine)), word_server)"
proof -
  let ?r = "engine_explain bee_query word_engine"
  have en: "sv_engine word_server = word_engine" by (simp add: word_server_def)
  have "case (engine_explain bee_query word_engine, ()) of (r, _) \<Rightarrow>
      er_ok r \<and> er_json r \<noteq> [] \<and> int (length (er_json r)) \<le> 400 \<and> nul \<notin> set (er_json r)" by code_simp
  then have run: "er_ok ?r \<and> er_json ?r \<noteq> [] \<and> int (length (er_json ?r)) \<le> 400 \<and> nul \<notin> set (er_json ?r)" by simp
  then have "arrives full_writes (take_engine_result ?r)"
    unfolding take_engine_result_def by (intro short_answer_arrives) auto
  moreover have "4 + int (length (url_escape_min (3 * max_line) 0 bee_query)) \<le> 511"
    "int (length (request_text local_cfg ''GET'' (''/api/explain?sql='' @ url_escape_min (3 * max_line) 0 bee_query) [])) < max_line + 512"
    by code_simp+
  ultimately show ?thesis
    using client_explain_end_to_end [OF one_read_lossless local_requests(1,5,6,4,3), of full_writes word_server some_clock] run en
    by simp
qed

end
