(* ===== verification/Benchmark.thy ===== *)
theory Benchmark
  imports BPTree
begin

text \<open>
  The two benchmark programs, \<^verbatim>\<open>bench/benchmark.c\<close> and \<^verbatim>\<open>bench/tree_shape.c\<close>, clients of the
  B+ tree, and the printer \<^verbatim>\<open>bptree_print\<close> of \<^verbatim>\<open>src/bptree.c\<close> that the second one shows.
  The library function \<^verbatim>\<open>rand\<close> is the sequence of the values its calls return after
  \<^verbatim>\<open>srand(seed)\<close>, and the number of calls made so far is passed along; \<^verbatim>\<open>getenv\<close> is a map. The
  readings of \<^verbatim>\<open>clock\<close> and the report made from them are in \<^verbatim>\<open>Bench_Report\<close>.
\<close>

section \<open>Keys in random order\<close>

type_synonym rand_source = "nat \<Rightarrow> nat"

fun shuffle_loop :: "rand_source \<Rightarrow> nat \<Rightarrow> int list \<Rightarrow> nat \<Rightarrow> int list \<times> nat" where
  "shuffle_loop rnd 0 arr calls = (arr, calls)"
| "shuffle_loop rnd (Suc i) arr calls =
     (let j = rnd calls mod (Suc i + 1); tmp = arr ! Suc i
      in shuffle_loop rnd i (arr[Suc i := arr ! j, j := tmp]) (Suc calls))"

definition shuffle :: "rand_source \<Rightarrow> int list \<Rightarrow> nat \<Rightarrow> int list \<times> nat" where
  "shuffle rnd arr calls = shuffle_loop rnd (length arr - 1) arr calls"

definition gen_keys :: "rand_source \<Rightarrow> nat \<Rightarrow> nat \<Rightarrow> int list \<times> nat" where
  "gen_keys rnd n calls = shuffle rnd (map (\<lambda>i. int i + 1) [0..<n]) calls"

lemma swap_mset: "i < length xs \<Longrightarrow> j < length xs \<Longrightarrow> mset (xs[i := xs ! j, j := xs ! i]) = mset xs"
  by (rule mset_swap)

lemma shuffle_loop_perm:
  "i < length arr \<Longrightarrow> mset (fst (shuffle_loop rnd i arr c)) = mset arr \<and> snd (shuffle_loop rnd i arr c) = c + i"
proof (induction i arbitrary: arr c)
  case (Suc i)
  let ?j = "rnd c mod (Suc i + 1)"
  have "?j < Suc i + 1" by (rule mod_less_divisor) simp
  then have j: "?j < length arr" using Suc.prems by linarith
  show ?case
    using Suc.IH [of "arr[Suc i := arr ! ?j, ?j := arr ! Suc i]" "Suc c"] Suc.prems swap_mset [OF Suc.prems j]
    by (simp add: Let_def)
qed simp

lemma shuffle_perm: "arr \<noteq> [] \<Longrightarrow> shuffle rnd arr c = (arr', c') \<Longrightarrow> mset arr' = mset arr \<and> c' = c + (length arr - 1)"
  using shuffle_loop_perm [of "length arr - 1" arr rnd c] by (simp add: shuffle_def)

section \<open>The measurements\<close>

text \<open>The counters of \<^verbatim>\<open>Metrics\<close>; the fields with times are left out.\<close>

record metrics =
  mt_n :: nat
  mt_order :: int
  mt_seed :: int
  mt_verify_ok :: nat
  mt_search_found :: nat
  mt_range_queries :: nat
  mt_range_found :: nat
  mt_linear_hits :: nat
  mt_index_hits :: nat
  mt_compare_m :: nat

definition do_insert :: "bptree \<Rightarrow> int list \<Rightarrow> bptree" where
  "do_insert t keys = foldl (\<lambda>t kv. bptree_insert t (fst kv) (snd kv)) t (zip keys (map int [0..<length keys]))"

definition do_verify :: "bptree \<Rightarrow> int list \<Rightarrow> nat" where
  "do_verify t keys = foldl (\<lambda>ok key. if bptree_search t key \<ge> 0 then ok + 1 else ok) 0 keys"

definition do_search :: "bptree \<Rightarrow> int list \<Rightarrow> nat" where
  "do_search t keys = foldl (\<lambda>found key. let r = bptree_search t key in if r \<ge> 0 then found + 1 else found) 0 keys"

fun range_loop :: "rand_source \<Rightarrow> bptree \<Rightarrow> nat \<Rightarrow> nat \<Rightarrow> nat \<Rightarrow> nat \<Rightarrow> (nat \<times> nat) option" where
  "range_loop rnd t n 0 found calls = Some (found, calls)"
| "range_loop rnd t n (Suc queries) found calls =
     (let lo = int (rnd calls mod n) + 1;
          hi = (if lo + 99 > int n then int n else lo + 99)
      in case bptree_range t lo hi 1000 of
           None \<Rightarrow> None
         | Some rows \<Rightarrow> range_loop rnd t n queries (found + length rows) (Suc calls))"

definition do_range :: "rand_source \<Rightarrow> bptree \<Rightarrow> nat \<Rightarrow> nat \<Rightarrow> (nat \<times> nat) option" where
  "do_range rnd t n calls = range_loop rnd t n 1000 0 calls"

text \<open>The linear search with its early \<^verbatim>\<open>break\<close>; \<open>-1\<close> when the target is absent.\<close>

fun linear_find :: "nat \<Rightarrow> int list \<Rightarrow> int \<Rightarrow> int" where
  "linear_find i [] target = -1"
| "linear_find i (x # xs) target = (if x = target then int i else linear_find (Suc i) xs target)"

text \<open>The number of probes, an environment variable, and the hits of both searches on the same probes.\<close>

definition env_int :: "(string \<Rightarrow> string option) \<Rightarrow> string \<Rightarrow> int \<Rightarrow> int \<Rightarrow> int" where
  "env_int getenv name least preset =
     (case getenv name of None \<Rightarrow> preset | Some s \<Rightarrow> if atoi s \<ge> least then atoi s else preset)"

definition do_compare :: "(string \<Rightarrow> string option) \<Rightarrow> rand_source \<Rightarrow> bptree \<Rightarrow> int list \<Rightarrow> nat \<Rightarrow> nat \<times> nat \<times> nat" where
  "do_compare getenv rnd t keys calls =
     (let cm = nat (env_int getenv ''BENCH_COMPARE_M'' 1 1000);
          probes = map (\<lambda>i. keys ! (rnd (calls + i) mod length keys)) [0..<cm];
          lh = foldl (\<lambda>lh target. if linear_find 0 keys target \<ge> 0 then lh + 1 else lh) 0 probes;
          ih = foldl (\<lambda>ih target. if bptree_search t target \<ge> 0 then ih + 1 else ih) 0 probes
      in (lh, ih, cm))"

text \<open>
  \<^verbatim>\<open>main\<close>: \<open>rand\<close> gives the sequence that belongs to a seed, \<open>now\<close> is \<^verbatim>\<open>time(NULL)\<close>. \<open>Inl 1\<close> is the
  exit when the tree cannot be created; no value at all is a range query that does not end.
\<close>

definition benchmark_main :: "(string \<Rightarrow> string option) \<Rightarrow> (int \<Rightarrow> rand_source) \<Rightarrow> int \<Rightarrow> (int + metrics) option" where
  "benchmark_main getenv rand now =
     (let n = nat (env_int getenv ''BENCH_N'' 1 1000000);
          order = env_int getenv ''BENCH_ORDER'' 3 128;
          seed = (case getenv ''BENCH_SEED'' of None \<Rightarrow> now | Some s \<Rightarrow> atoi s) mod 2 ^ 32;
          rnd = rand seed;
          (keys, c1) = gen_keys rnd n 0
      in case bptree_create order of
           None \<Rightarrow> Some (Inl 1)
         | Some t0 \<Rightarrow>
             let t = do_insert t0 keys;
                 ok = do_verify t keys;
                 (keys2, c2) = shuffle rnd keys c1;
                 found = do_search t keys2
             in case do_range rnd t n c2 of
                  None \<Rightarrow> None
                | Some (hits, c3) \<Rightarrow>
                    (case do_compare getenv rnd t keys2 c3 of
                       (lh, ih, cm) \<Rightarrow>
                         Some (Inr \<lparr>mt_n = n, mt_order = order, mt_seed = seed, mt_verify_ok = ok,
                           mt_search_found = found, mt_range_queries = 1000, mt_range_found = hits,
                           mt_linear_hits = lh, mt_index_hits = ih, mt_compare_m = cm\<rparr>)))"

section \<open>What the measurements count\<close>

lemma count_all: "(\<And>x. x \<in> set xs \<Longrightarrow> P x) \<Longrightarrow> foldl (\<lambda>n x. if P x then n + 1 else n) a xs = a + length xs"
  for a :: nat
  by (induction xs arbitrary: a) auto

lemma linear_find_mem: "target \<in> set xs \<Longrightarrow> 0 \<le> linear_find i xs target"
  by (induction xs arbitrary: i) auto

text \<open>The tree after the insertions: it holds exactly the keys.\<close>

lemma do_insert_correct:
  assumes "bptree_create order = Some t"
  shows "bp_inv (do_insert t keys) \<and> set (map fst (bp_contents (do_insert t keys))) = set keys \<and>
    (\<forall>k \<in> set keys. 0 \<le> bptree_search (do_insert t keys) k)"
proof -
  let ?kvs = "zip keys (map int [0..<length keys])" and ?t = "do_insert t keys"
  have i: "bp_inv ?t" and m: "map_of (bp_contents ?t) = last_write ?kvs"
    using foldl_insert_correct [of t ?kvs] bp_inv_create [OF assms] by (auto simp: do_insert_def)
  have dom: "dom (last_write ?kvs) = set keys"
    by (simp add: last_write_def dom_map_of_conv_image_fst set_rev map_fst_zip flip: list.set_map)
  then have d: "set (map fst (bp_contents ?t)) = set keys"
    using dom unfolding m [symmetric] dom_map_of_conv_image_fst by simp
  have "0 \<le> bptree_search ?t k" if k: "k \<in> set keys" for k
  proof -
    obtain v where v: "last_write ?kvs k = Some v"
      using k unfolding dom [symmetric] by blast
    then have "(k, v) \<in> set ?kvs" by (auto simp: last_write_def dest: map_of_SomeD)
    then have "0 \<le> v" by (auto dest!: set_zip_rightD)
    then show ?thesis using v by (simp add: bptree_search_contents [OF i] m)
  qed
  with i d show ?thesis by blast
qed

lemma length_keys: "distinct (map fst xs) \<Longrightarrow> length xs = card (set (map fst xs))"
  using distinct_card [of "map fst xs"] by simp

text \<open>A range query over the keys \<open>1, \<dots>, n\<close> finds every key of the interval.\<close>

lemma range_hits:
  assumes "bp_inv t" "set (map fst (bp_contents t)) = {1..int n}" "r < n"
  shows "\<exists>rows. bptree_range t (int r + 1) (if int r + 1 + 99 > int n then int n else int r + 1 + 99) 1000 = Some rows \<and>
    length rows = min 100 (n - r)"
proof -
  let ?hi = "if int r + 1 + 99 > int n then int n else int r + 1 + 99"
  let ?f = "filter (\<lambda>e. int r + 1 \<le> fst e \<and> fst e \<le> ?hi) (bp_contents t)"
  have "distinct (map fst (bp_contents t))"
    using bp_contents_sorted [OF assms(1)] by (simp add: strict_sorted_iff)
  then have "distinct (map fst ?f)" by (simp add: distinct_map_filter)
  then have "length ?f = card (set (map fst ?f))" by (rule length_keys)
  also have "set (map fst ?f) = {k \<in> set (map fst (bp_contents t)). int r + 1 \<le> k \<and> k \<le> ?hi}" by auto
  also have "\<dots> = {int r + 1..?hi}" unfolding assms(2) using assms(3) by (auto split: if_splits)
  finally have len: "length ?f = min 100 (n - r)" using assms(3) by auto
  have "int r + 1 \<le> ?hi" using assms(3) by auto
  then show ?thesis
    using len by (simp add: bptree_range_contents [OF assms(1)] rng_def)
qed

lemma range_loop_hits:
  assumes "bp_inv t" "set (map fst (bp_contents t)) = {1..int n}" "0 < n"
  shows "range_loop rnd t n queries hits calls =
    Some (hits + (\<Sum>q<queries. min 100 (n - rnd (calls + q) mod n)), calls + queries)"
proof (induction queries arbitrary: hits calls)
  case (Suc queries)
  let ?r = "rnd calls mod n"
  obtain rows where rows: "bptree_range t (int ?r + 1) (if int ?r + 1 + 99 > int n then int n else int ?r + 1 + 99) 1000 = Some rows"
    "length rows = min 100 (n - ?r)"
    using range_hits [OF assms(1,2), of ?r] assms(3) by auto
  show ?case
    using rows by (simp add: Let_def Suc.IH sum.lessThan_Suc_shift del: sum.lessThan_Suc)
qed simp


lemma compare_hits:
  assumes "keys \<noteq> []" "\<And>k. k \<in> set keys \<Longrightarrow> 0 \<le> bptree_search t k"
  shows "\<exists>cm. do_compare getenv rnd t keys calls = (cm, cm, cm)"
proof -
  let ?cm = "nat (env_int getenv ''BENCH_COMPARE_M'' 1 1000)"
  let ?probes = "map (\<lambda>i. keys ! (rnd (calls + i) mod length keys)) [0..<?cm]"
  have "set ?probes \<subseteq> set keys" using assms(1) by auto
  then show ?thesis
    using assms(2) linear_find_mem [of _ keys 0] count_all [of ?probes "\<lambda>k. linear_find 0 keys k \<ge> 0" 0]
      count_all [of ?probes "\<lambda>k. bptree_search t k \<ge> 0" 0]
    by (simp only: do_compare_def Let_def subset_iff) simp
qed

text \<open>C38: the benchmark ends whatever the environment, the seed and the values of \<^verbatim>\<open>rand\<close>: every key
  it inserted is found, the linear scan and the tree answer all probes, and each of the 1000 range
  queries finds the 100 keys from its lower bound on, fewer only at the upper end.\<close>

theorem benchmark_counts:
  "\<exists>m. benchmark_main getenv rand now = Some (Inr m) \<and>
     mt_verify_ok m = mt_n m \<and> mt_search_found m = mt_n m \<and>
     mt_linear_hits m = mt_compare_m m \<and> mt_index_hits m = mt_compare_m m \<and>
     mt_range_found m = (\<Sum>q<1000. min 100 (mt_n m - rand (mt_seed m) (2 * (mt_n m - 1) + q) mod mt_n m))"
proof -
  define n where "n = nat (env_int getenv ''BENCH_N'' 1 1000000)"
  define order where "order = env_int getenv ''BENCH_ORDER'' 3 128"
  define rnd where "rnd = rand ((case getenv ''BENCH_SEED'' of None \<Rightarrow> now | Some s \<Rightarrow> atoi s) mod 2 ^ 32)"
  have n: "0 < n" and order: "3 \<le> order"
    by (auto simp: n_def order_def env_int_def split: option.splits)
  obtain t0 where t0: "bptree_create order = Some t0" using order by (simp add: bptree_create_def)
  let ?init = "map (\<lambda>i. int i + 1) [0..<n]"
  obtain keys c1 where g: "gen_keys rnd n 0 = (keys, c1)" by fastforce
  obtain keys2 c2 where sh: "shuffle rnd keys c1 = (keys2, c2)" by fastforce
  have k1: "mset keys = mset ?init" "c1 = n - 1"
    using shuffle_perm [of ?init rnd 0 keys c1] g n by (auto simp: gen_keys_def)
  then have "keys \<noteq> []" and len: "length keys = n" using n mset_eq_length [OF k1(1)] by auto
  then have k2: "mset keys2 = mset keys" "c2 = 2 * (n - 1)"
    using shuffle_perm [of keys rnd c1 keys2 c2] sh k1(2) by auto
  have len2: "length keys2 = n" using mset_eq_length [OF k2(1)] len by simp
  have "set ?init = {1..int n}"
    by (auto simp: set_eq_iff image_iff intro!: bexI [of _ "nat (x - 1)" for x])
  then have set1: "set keys = {1..int n}" using mset_eq_setD [OF k1(1)] by simp
  have set2: "set keys2 = set keys" using mset_eq_setD [OF k2(1)] .
  let ?t = "do_insert t0 keys"
  have inv: "bp_inv ?t" and c: "set (map fst (bp_contents ?t)) = {1..int n}"
    and f: "\<And>k. k \<in> set keys \<Longrightarrow> 0 \<le> bptree_search ?t k"
    using do_insert_correct [OF t0, of keys] set1 by auto
  have "do_verify ?t keys = n" "do_search ?t keys2 = n"
    using count_all [of keys "\<lambda>k. bptree_search ?t k \<ge> 0" 0] count_all [of keys2 "\<lambda>k. bptree_search ?t k \<ge> 0" 0]
      f len len2 set2 by (simp_all add: do_verify_def do_search_def)
  moreover have "do_range rnd ?t n c2 = Some (\<Sum>q<1000. min 100 (n - rnd (c2 + q) mod n), c2 + 1000)"
    unfolding do_range_def using range_loop_hits [OF inv c n, of rnd 1000 0 c2] by simp
  moreover obtain cm where "do_compare getenv rnd ?t keys2 (c2 + 1000) = (cm, cm, cm)"
    using compare_hits [of keys2 ?t getenv rnd "c2 + 1000"] f set2 len2 n by auto
  ultimately show ?thesis
    using g sh t0 k2(2) by (simp add: benchmark_main_def Let_def n_def order_def rnd_def)
qed


section \<open>Printing a tree\<close>

text \<open>\<^verbatim>\<open>print_node\<close> and \<^verbatim>\<open>bptree_print\<close>; a tree of the model always has a root.\<close>

definition comma_separated :: "string list \<Rightarrow> string" where
  "comma_separated items =
     concat (map (\<lambda>(i, x). (if i > 0 then '', '' else []) @ x) (enumerate 0 items))"

fun print_node :: "node \<Rightarrow> nat \<Rightarrow> string" where
  "print_node (Leaf a es nx) depth =
     concat (replicate depth ''  '') @ ''LEAF['' @
     comma_separated (map (\<lambda>(k, v). show_int k @ ''->'' @ show_int v) es) @ '']'' @
     (if nx \<noteq> None then '' ->'' else []) @ [CHR 0x0A]"
| "print_node (Internal ks cs) depth =
     concat (replicate depth ''  '') @ ''INT['' @ comma_separated (map show_int ks) @ '']'' @ [CHR 0x0A] @
     concat (map (\<lambda>c. print_node c (depth + 1)) cs)"

definition bptree_print :: "bptree \<Rightarrow> string" where
  "bptree_print t = ''BPTree(order='' @ show_nat (bp_order t) @ ''):'' @ [CHR 0x0A] @ print_node (bp_root t) 1"

text \<open>Every node of the tree is one line of the picture, in preorder.\<close>

fun node_count :: "node \<Rightarrow> nat" where
  "node_count (Leaf a es nx) = 1"
| "node_count (Internal ks cs) = Suc (sum_list (map node_count cs))"

lemma count_concat: "count_list (concat xss) x = sum_list (map (\<lambda>xs. count_list xs x) xss)"
  by (induction xss) simp_all

lemma show_no_newline [simp]: "count_list (show_nat n) (CHR 0x0A) = 0" "count_list (show_int i) (CHR 0x0A) = 0"
proof -
  have "\<not> is_digit (CHR 0x0A)" by code_simp
  then show "count_list (show_nat n) (CHR 0x0A) = 0" for n
    using show_nat_digits [of n] by (auto simp: count_list_0_iff)
  then show "count_list (show_int i) (CHR 0x0A) = 0" by (simp add: show_int_def)
qed

lemma comma_no_newline: "\<forall>s \<in> set items. count_list s (CHR 0x0A) = 0 \<Longrightarrow>
    count_list (comma_separated items) (CHR 0x0A) = 0"
  by (auto simp: comma_separated_def count_list_0_iff in_set_enumerate_eq)

lemma print_node_lines: "count_list (print_node n depth) (CHR 0x0A) = node_count n"
proof (induction n arbitrary: depth)
  case (Leaf a es nx)
  then show ?case by (auto simp: comma_no_newline count_concat sum_list_replicate split_beta)
next
  case (Internal ks cs)
  then have "map (\<lambda>c. count_list (print_node c (depth + 1)) (CHR 0x0A)) cs = map node_count cs" by simp
  then show ?case by (simp add: comma_no_newline count_concat sum_list_replicate o_def cong: map_cong)
qed


section \<open>Snapshots of a growing tree\<close>

text \<open>The options of \<^verbatim>\<open>tree_shape\<close>: two positional arguments and \<^verbatim>\<open>--snapshots K\<close>.\<close>

fun shape_args :: "string list \<Rightarrow> nat \<Rightarrow> int \<times> int \<times> int \<Rightarrow> int \<times> int \<times> int" where
  "shape_args [] pos (n, order, snapshots) = (n, order, snapshots)"
| "shape_args [a] pos (n, order, snapshots) =
     (if take 1 a \<noteq> ''-''
      then (if pos = 0 then (atoi a, order, snapshots)
            else if pos = 1 then (n, atoi a, snapshots) else (n, order, snapshots))
      else (n, order, snapshots))"
| "shape_args (a # b # rest) pos (n, order, snapshots) =
     (if a = ''--snapshots'' then shape_args rest pos (n, order, atoi b)
      else if take 1 a \<noteq> ''-''
      then shape_args (b # rest) (pos + 1)
             (if pos = 0 then (atoi a, order, snapshots)
              else if pos = 1 then (n, atoi a, snapshots) else (n, order, snapshots))
      else shape_args (b # rest) pos (n, order, snapshots))"

definition shape_params :: "string list \<Rightarrow> nat \<times> int \<times> nat" where
  "shape_params args =
     (case shape_args args 0 (20, 4, 0) of
        (n0, order0, snapshots0) \<Rightarrow>
          (let n1 = (if n0 \<le> 0 then 20 else n0);
               order = (if order0 < 3 then 4 else order0);
               n = (if n1 > 200 then 200 else n1);
               s1 = (if snapshots0 < 0 then 0 else snapshots0);
               snapshots = (if s1 > n then n else s1)
           in (nat n, order, nat snapshots)))"

text \<open>The insertion loop; the blocks it prints, one for each snapshot, and the final tree.\<close>

fun snap_loop :: "nat \<Rightarrow> nat \<Rightarrow> nat \<Rightarrow> nat \<Rightarrow> nat \<Rightarrow> int list \<Rightarrow> bptree \<Rightarrow> string list \<times> bptree" where
  "snap_loop snapshots n interval i next_snap [] t = ([], t)"
| "snap_loop snapshots n interval i next_snap (key # keys) t =
     (let t1 = bptree_insert t key (int i); inserted = i + 1
      in if snapshots > 0 \<and> (inserted = next_snap \<or> inserted = n)
         then (case snap_loop snapshots n interval (i + 1) (next_snap + interval) keys t1 of
                 (blocks, t2) \<Rightarrow>
                   ((''=== SNAPSHOT step='' @ show_nat (inserted * snapshots div n) @ '' inserted='' @
                     show_nat inserted @ '' ==='' @ [CHR 0x0A] @ bptree_print t1) # blocks, t2))
         else snap_loop snapshots n interval (i + 1) next_snap keys t1)"

definition tree_shape_main :: "rand_source \<Rightarrow> string list \<Rightarrow> int \<times> string list" where
  "tree_shape_main rnd args =
     (case shape_params args of (n, order, snapshots) \<Rightarrow>
        (case gen_keys rnd n 0 of (keys, _) \<Rightarrow>
           (case bptree_create order of
              None \<Rightarrow> (1, [])
            | Some t0 \<Rightarrow>
                (let title = ''== B+ Tree shape (N='' @ show_nat n @ '', order='' @ show_int order @
                       '', insert order shuffled'' @ (if snapshots > 0 then '', snapshots'' else []) @ '') =='' @ [CHR 0x0A];
                     interval = (if snapshots > 0 then (n + snapshots - 1) div snapshots else 0)
                 in case snap_loop snapshots n interval 0 interval keys t0 of
                      (blocks, t) \<Rightarrow> (0, title # blocks @ (if snapshots = 0 then [bptree_print t] else []))))))"

lemma snap_loop_tree:
  "snd (snap_loop snapshots n interval i next_snap keys t)
     = foldl (\<lambda>t kv. bptree_insert t (fst kv) (snd kv)) t (zip keys (map int [i..<i + length keys]))"
  by (induction keys arbitrary: i next_snap t) (simp_all add: Let_def upt_conv_Cons split_beta del: upt_Suc)

lemma next_multiple:
  fixes d :: nat
  assumes "0 < d" "i + 1 \<noteq> (i div d + 1) * d"
  shows "(i + 1) div d = i div d"
proof -
  have "i + 1 < (i div d + 1) * d"
    using assms dividend_less_times_div [of d i] by (simp add: algebra_simps)
  then have "(i + 1) div d \<le> i div d"
    using assms(1) by (simp add: div_less_iff_less_mult less_Suc_eq_le [symmetric])
  then show ?thesis by (simp add: antisym div_le_mono)
qed

lemma snap_loop_blocks:
  assumes "0 < d" "0 < snapshots" "i + length keys = n" "keys \<noteq> []" "next_snap = (i div d + 1) * d"
    and "snap_loop snapshots n d i next_snap keys t = (blocks, t')"
  shows "blocks \<noteq> [] \<and> length blocks + i div d \<le> (n + d - 1) div d \<and> (\<exists>head. last blocks = head @ bptree_print t')"
  using assms(3-)
proof (induction keys arbitrary: i next_snap t blocks)
  case (Cons key keys)
  let ?t = "bptree_insert t key (int i)" and ?ceil = "(n + d - 1) div d"
  have ceil: "i div d + 1 \<le> ?ceil"
  proof -
    have "i + d \<le> n + d - 1" using Cons.prems(1) by simp
    then have "(i + d) div d \<le> ?ceil" by (rule div_le_mono)
    moreover have "(i + d) div d = i div d + 1" using div_add_self2 [of d i] assms(1) by simp
    ultimately show ?thesis by (simp only:)
  qed
  show ?case
  proof (cases "keys = []")
    case True
    then show ?thesis
      using Cons.prems assms(2) ceil by (fastforce simp: Let_def)
  next
    case False
    then have n: "Suc i \<noteq> n" "i + 1 + length keys = n" using Cons.prems(1) by auto
    show ?thesis
    proof (cases "i + 1 = next_snap")
      case True
      obtain bs where b: "snap_loop snapshots n d (i + 1) (next_snap + d) keys ?t = (bs, t')" "length blocks = Suc (length bs)" "bs \<noteq> [] \<longrightarrow> last blocks = last bs"
        using Cons.prems(4) True assms(2) by (auto simp: Let_def split: prod.splits)
      have "(i + 1) div d = i div d + 1" using True Cons.prems(3) assms(1) by simp
      then show ?thesis using Cons.IH [OF n(2) False _ b(1)] b Cons.prems(3) by (auto simp: algebra_simps)
    next
      case no: False
      have "(i + 1) div d = i div d" using next_multiple [OF assms(1), of i] no Cons.prems(3) by simp
      then show ?thesis using Cons.IH [OF n(2) False, of next_snap ?t blocks] Cons.prems no n by (simp add: Let_def)
    qed
  qed
qed simp

text \<open>The program prints at most the asked number of snapshots, and the last one is the tree with all keys.\<close>

lemma tree_shape_snapshots:
  assumes "shape_params args = (n, order, snapshots)" "0 < snapshots"
  shows "\<exists>keys title blocks. fst (gen_keys rnd n 0) = keys \<and>
    tree_shape_main rnd args = (0, title # blocks) \<and> length blocks \<le> snapshots \<and>
    (\<exists>head t. bptree_create order = Some t \<and> last blocks = head @ bptree_print (do_insert t keys))"
proof -
  have p: "0 < n" "3 \<le> order" "snapshots \<le> n"
    using assms by (auto simp: shape_params_def Let_def split: prod.splits if_splits)
  obtain keys c where g: "gen_keys rnd n 0 = (keys, c)" by fastforce
  have len: "length keys = n"
    using shuffle_perm [of "map (\<lambda>i. int i + 1) [0..<n]" rnd 0 keys c] g p(1)
      mset_eq_length [of keys "map (\<lambda>i. int i + 1) [0..<n]"]
    by (auto simp: gen_keys_def)
  obtain t0 where t0: "bptree_create order = Some t0" using p(2) by (simp add: bptree_create_def)
  define d where "d = (n + snapshots - 1) div snapshots"
  have d: "0 < d" "n \<le> snapshots * d"
  proof -
    have "snapshots \<le> n + snapshots - 1" using p(1) by simp
    then have "snapshots div snapshots \<le> d" unfolding d_def by (rule div_le_mono)
    then show "0 < d" using assms(2) by simp
    have "n + snapshots - 1 < snapshots + snapshots * d"
      unfolding d_def using dividend_less_times_div [OF assms(2)] .
    then show "n \<le> snapshots * d" by simp
  qed
  obtain blocks t where b: "snap_loop snapshots n d 0 d keys t0 = (blocks, t)" by fastforce
  have "t = do_insert t0 keys" using snap_loop_tree [of snapshots n d 0 d keys t0] b by (simp add: do_insert_def)
  moreover have "(n + d - 1) div d \<le> snapshots"
  proof -
    have "n + d - 1 < (snapshots + 1) * d" using d by simp
    then show ?thesis using d(1) by (simp add: div_less_iff_less_mult less_Suc_eq_le [symmetric])
  qed
  ultimately show ?thesis
    using snap_loop_blocks [OF d(1) assms(2), of 0 keys n d t0 blocks t] b len p(1) g t0 assms
    by (auto simp: tree_shape_main_def Let_def d_def)
qed

end
