(* ===== verification/Divergences.thy ===== *)
theory Divergences
  imports Storage_Laws Sql_Format Router_Laws Server Repl
begin

text \<open>
  Places where the code does not do what its comments, its protocol or a neighbouring part
  expect. Each lemma is about the definitions that model the code, in general where that is
  possible and at a concrete input otherwise.
\<close>

section \<open>Storage\<close>

text \<open>
  The comment on \<^verbatim>\<open>invalidate_meta_cache\<close> says that the next INSERT scans the table again. The
  entry stays in the cache with both counters 0, so the next automatic id is 0.
\<close>

lemma meta_index_set_meta [simp]: "meta_index (set_meta i a b s) table = meta_index s table"
proof (cases "i < length (st_meta s)")
  case True
  then have "map me_table (st_meta (set_meta i a b s)) = map me_table (st_meta s)"
    by (simp add: set_meta_def map_update list_update_same_conv)
  moreover have "find_idx (\<lambda>e. me_table e = table) xs = find_idx (\<lambda>n. n = table) (map me_table xs)" for xs
    by (induction xs) auto
  ultimately show ?thesis unfolding meta_index_def by metis
qed (simp add: meta_index_def set_meta_def list_update_beyond)

lemma auto_id_after_invalidate:
  assumes "meta_index s table = Some i"
  shows "fst (take_auto_id table path col (invalidate_meta_cache table s)) = Some 0"
proof -
  have i: "i < length (st_meta s)" using assms find_idx_length unfolding meta_index_def by blast
  let ?s = "invalidate_meta_cache table s"
  have s: "?s = set_meta i 0 0 s" using assms by (simp add: invalidate_meta_cache_def)
  have e: "me_next_id (st_meta ?s ! i) = 0" "me_next_row (st_meta ?s ! i) = 0"
    using i by (simp_all add: s set_meta_def)
  have m: "meta_index ?s table = Some i" using assms by (simp add: s)
  show ?thesis using e m by (simp add: take_auto_id_def meta_ensure_def Let_def)
qed

text \<open>
  The comment in \<^verbatim>\<open>rebuild_index\<close> says that the trees of the other tables are built again at their
  next use. \<^verbatim>\<open>storage_ensure_index\<close> leaves a table alone that is marked as built.
\<close>

lemma index_loop_find: "find_index (index_loop col slot n rs reg) other = find_index reg other"
  by (induction col slot n rs reg rule: index_loop.induct)
     (auto simp: tree_insert_def split: option.splits)

lemma rebuild_drops_other_trees:
  assumes "other \<noteq> table" "length table < 64"
  shows "index_registry_get (st_index (rebuild_index table path (Some col) s)) other = None"
proof -
  have "find_index [] t = None" "find_index [(table, x)] other = None" for t x
    using assms(1) by (simp_all add: find_index_def)
  then show ?thesis
    using assms(2)
    by (simp add: rebuild_index_def index_registry_get_def index_registry_get_or_create_def
        index_registry_destroy_all_def index_loop_find registry_max_tables_def
        registry_name_max_def bptree_create_def split: option.splits)
qed

lemma rebuilt_table_is_left_alone: "table \<in> set (st_rebuilt s) \<Longrightarrow> storage_ensure_index table s = s"
  by (simp add: storage_ensure_index_def)

text \<open>A date that is no day of its month is accepted.\<close>

lemma february_31: "validate_date_text ''2024-02-31''"
  by code_simp

section \<open>Statements\<close>

text \<open>The upper bound of a BETWEEN condition is not printed.\<close>

lemma format_drops_upper_bound: "emit_cond (w\<lparr>w_value_to := v\<rparr>) = emit_cond w"
  by (simp add: emit_cond_def)

text \<open>The router doubles the quotes of a word; the tokenizer ends the literal at the first of them.\<close>

lemma doubled_quote_splits_literal:
  "sql_escape_literal 64 0 ''it's'' = Some (''it'' @ [CHR 0x27, CHR 0x27] @ ''s'')"
  "length (tokenize (CHR 0x27 # ''it'' @ [CHR 0x27, CHR 0x27] @ ''s'' @ [CHR 0x27])) = 2"
  by code_simp+

text \<open>
  A quoted keyword is a keyword to the parser, so the parts of a word between its quotes can be a
  connective and a further condition: this word makes the lookup return every other row too.
\<close>

lemma word_adds_condition:
  "map_option (\<lambda>sql. (map w_op (sql_where sql), sql_where_links sql))
     (parse_sql h (''SELECT korean FROM dictionary WHERE english = '' @
        quoted (''x'' @ [CHR 0x27] @ ''OR'' @ [CHR 0x27] @ ''english'' @ [CHR 0x27] @ ''!='' @ [CHR 0x27] @ ''x'')))
   = Some ([''='', ''!=''], [''OR''])"
  by code_simp

section \<open>HTTP\<close>

lemma reason_of_503: "status_reason 503 = ''OK''"
  by (simp add: status_reason_def)

text \<open>\<^verbatim>\<open>strtoul\<close> negates in unsigned arithmetic: a large negative length is a small one.\<close>

lemma negative_content_length: "parse_content_length ''-18446744073709551615'' = Some 1"
  by code_simp

text \<open>The escape for a line feed is decoded and then refused as a control character.\<close>

lemma json_newline_refused:
  "json_read_string_at 16 (CHR 0x22 # ''a'' @ CHR 0x5C # ''n'' @ [CHR 0x22]) = None"
  "json_read_string_at 16 (CHR 0x22 # ''ab'' @ [CHR 0x22]) = Some (''ab'', [])"
  by code_simp+

text \<open>Statements sent to \<^verbatim>\<open>/api/query\<close> leave the response cache as it is.\<close>

lemma query_keeps_cache: "rq_path rq = ''/api/query'' \<Longrightarrow> sv_cache (snd (router_dispatch ck rq sv)) = sv_cache sv"
  by (auto simp: router_dispatch_def run_sql_def split: prod.splits)

text \<open>The client leaves a percent sign as it is, and the server decodes it.\<close>

lemma client_percent_decoded:
  "url_escape_min 64 0 ''%41'' = ''%41''" "url_decode 64 ''%41'' = ''A''"
  by code_simp+

end
