(* ===== verification/Isolation.thy ===== *)
theory Isolation
  imports Engine_Lock Storage_Laws
begin

text \<open>
  Statements of several workers on the tables they share. \<^verbatim>\<open>execute_statement\<close> of \<^verbatim>\<open>src/engine.c\<close> takes the
  locks, reads the table record by record (SELECT into memory, DELETE and UPDATE into the
  temporary file), writes it back in one step (\<^verbatim>\<open>replace_table_file\<close>, or one appended row) and gives the
  locks back. Each record read and each write is a step of its own here, between which all other
  workers may move. A table is its list of rows, as \<^const>\<open>holds\<close> relates it to the files; the id cache, the
  trees and the response cache are left out. All statements use the table locks; a statement in
  single mode does not exclude them.
\<close>

section \<open>What a statement does to the rows of its table\<close>

definition rewritten :: "schema \<Rightarrow> parsed_sql \<Rightarrow> row list \<Rightarrow> row list" where
  "rewritten schema sql rows =
     (if \<not> conditions_named sql \<or> \<not> validate_delete_clause schema sql \<or>
         list_ex (\<lambda>r. row_matches_delete schema r sql = None) rows then rows
      else case sql_type sql of
        QUERY_DELETE \<Rightarrow> filter (\<lambda>r. row_matches_delete schema r sql \<noteq> Some True) rows
      | QUERY_UPDATE \<Rightarrow>
          (if sql_set sql = [] \<or> validate_update_set_clause schema (sql_set sql) = None then rows
           else map (updated_row schema sql) rows)
      | _ \<Rightarrow> rows)"

lemma storage_delete_rewrites:
  assumes "holds s table sp tp schema rows" "temp_ready s table" "sql_type sql = QUERY_DELETE"
    and "storage_delete table sql s = (ok, s')"
  shows "holds s' table sp tp schema (rewritten schema sql rows)"
  using storage_delete_holds [OF assms(1,2,4)] assms(3) by (auto simp: rewritten_def split: if_splits)

lemma storage_update_rewrites:
  assumes "holds s table sp tp schema rows" "temp_ready s table" "sql_type sql = QUERY_UPDATE"
    and "list_all (\<lambda>c. nul_free (sc_value c)) (sql_set sql)" "storage_update table sql s = (ok, s')"
  shows "holds s' table sp tp schema (rewritten schema sql rows)"
  using storage_update_holds [OF assms(1,2,4,5)] assms(3) by (auto simp: rewritten_def split: if_splits)

section \<open>Steps\<close>

text \<open>One statement for each worker, the schemas, and the row an INSERT appends (none when it fails).\<close>

record workload =
  wl_schema :: "string \<Rightarrow> schema"
  wl_sql :: "parsed_sql list"
  wl_added :: "nat \<Rightarrow> row list"

type_synonym tables = "string \<Rightarrow> row list"

record exec_run =
  xr_lock :: lock_run
  xr_tables :: tables
  xr_seen :: "nat \<Rightarrow> row list"
  xr_log :: "(nat \<times> row list) list"

definition stmt_of :: "parsed_sql \<Rightarrow> stmt" where
  "stmt_of sql = \<lparr>st_type = sql_type sql, st_table = sql_table sql, st_single = False\<rparr>"

definition scans :: "parsed_sql \<Rightarrow> bool" where
  "scans sql \<longleftrightarrow> sql_type sql = QUERY_SELECT \<or> sql_type sql = QUERY_DELETE \<or> sql_type sql = QUERY_UPDATE"

text \<open>The new rows of the table, from the rows the statement has read and the rows it finds when it writes.\<close>

definition result_rows :: "workload \<Rightarrow> nat \<Rightarrow> row list \<Rightarrow> row list \<Rightarrow> row list" where
  "result_rows wl i seen now =
     (let sql = wl_sql wl ! i
      in if sql_type sql = QUERY_INSERT then now @ wl_added wl i
         else if sql_type sql = QUERY_DELETE \<or> sql_type sql = QUERY_UPDATE
         then rewritten (wl_schema wl (sql_table sql)) sql seen
         else now)"

definition logged :: "exec_run \<Rightarrow> nat set" where
  "logged x = fst ` set (xr_log x)"

definition running :: "lock_run \<Rightarrow> nat \<Rightarrow> bool" where
  "running r i \<longleftrightarrow> i < length (lr_threads r) \<and> (\<exists>s p. lr_threads r ! i = Running s p)"

inductive exec_step :: "workload \<Rightarrow> exec_run \<Rightarrow> exec_run \<Rightarrow> bool" for wl where
  move: "lock_step (xr_lock x) l \<Longrightarrow>
    (\<forall>i. running (xr_lock x) i \<and> \<not> running l i \<longrightarrow> i \<in> logged x) \<Longrightarrow>
    exec_step wl x (x\<lparr>xr_lock := l\<rparr>)"
| read_record: "running (xr_lock x) i \<Longrightarrow> i \<notin> logged x \<Longrightarrow> scans (wl_sql wl ! i) \<Longrightarrow>
    rows = xr_tables x (sql_table (wl_sql wl ! i)) \<Longrightarrow> length (xr_seen x i) < length rows \<Longrightarrow>
    exec_step wl x (x\<lparr>xr_seen := (xr_seen x)(i := xr_seen x i @ [rows ! length (xr_seen x i)])\<rparr>)"
| write_table: "running (xr_lock x) i \<Longrightarrow> i \<notin> logged x \<Longrightarrow> table = sql_table (wl_sql wl ! i) \<Longrightarrow>
    (scans (wl_sql wl ! i) \<longrightarrow> length (xr_tables x table) \<le> length (xr_seen x i)) \<Longrightarrow>
    exec_step wl x (x\<lparr>xr_tables := (xr_tables x)(table := result_rows wl i (xr_seen x i) (xr_tables x table)),
      xr_log := xr_log x @ [(i, xr_seen x i)]\<rparr>)"

definition exec_init :: "workload \<Rightarrow> tables \<Rightarrow> exec_run \<Rightarrow> bool" where
  "exec_init wl d x \<longleftrightarrow> lock_init (xr_lock x) \<and> lr_threads (xr_lock x) = map (\<lambda>q. Start (stmt_of q)) (wl_sql wl) \<and>
     xr_tables x = d \<and> xr_seen x = (\<lambda>_. []) \<and> xr_log x = []"

section \<open>One statement after the other\<close>

text \<open>The tables after the statements of a log, and whether each of them has read what its table then holds.\<close>

definition serial_tables :: "workload \<Rightarrow> tables \<Rightarrow> (nat \<times> row list) list \<Rightarrow> tables" where
  "serial_tables wl d es = foldl (\<lambda>d e. let t = sql_table (wl_sql wl ! fst e)
     in d(t := result_rows wl (fst e) (d t) (d t))) d es"

fun serial_views :: "workload \<Rightarrow> tables \<Rightarrow> (nat \<times> row list) list \<Rightarrow> bool" where
  "serial_views wl d [] = True"
| "serial_views wl d ((i, seen) # es) =
     ((scans (wl_sql wl ! i) \<longrightarrow> seen = d (sql_table (wl_sql wl ! i))) \<and>
      serial_views wl (serial_tables wl d [(i, seen)]) es)"

lemma serial_tables_snoc: "serial_tables wl d (es @ [(i, seen)]) =
    (let d' = serial_tables wl d es; t = sql_table (wl_sql wl ! i) in d'(t := result_rows wl i (d' t) (d' t)))"
  by (simp add: serial_tables_def Let_def)

lemma serial_tables_Cons: "serial_tables wl d (e # es) = serial_tables wl (serial_tables wl d [e]) es"
  by (simp add: serial_tables_def)

lemma serial_views_snoc: "serial_views wl d (es @ [(i, seen)]) \<longleftrightarrow> serial_views wl d es \<and>
    (scans (wl_sql wl ! i) \<longrightarrow> seen = serial_tables wl d es (sql_table (wl_sql wl ! i)))"
proof (induction es arbitrary: d)
  case Nil
  then show ?case by (simp add: serial_tables_def)
next
  case (Cons e es)
  then show ?case by (cases e) (simp add: serial_tables_Cons [of wl d _ es])
qed

section \<open>The invariant\<close>

text \<open>The statement of a thread, as far as it still knows it.\<close>

definition position_of :: "parsed_sql \<Rightarrow> thread \<Rightarrow> bool" where
  "position_of sql t \<longleftrightarrow> t \<in> {Start (stmt_of sql), Catalog (stmt_of sql), Releasing (stmt_of sql), Done} \<or>
     (\<exists>p. t \<in> {At_slot (stmt_of sql) p, Running (stmt_of sql) p})"

definition few_tables :: "workload \<Rightarrow> bool" where
  "few_tables wl \<longleftrightarrow> card (sql_table ` set (wl_sql wl)) \<le> max_tables"

text \<open>Every thread runs its own statement, and the lock registry holds names of tables in use, each once.\<close>

definition lock_names :: "workload \<Rightarrow> lock_run \<Rightarrow> bool" where
  "lock_names wl r \<longleftrightarrow> length (lr_threads r) = length (wl_sql wl) \<and>
     (\<forall>i < length (wl_sql wl). position_of (wl_sql wl ! i) (lr_threads r ! i)) \<and>
     (\<forall>q \<in> set (wl_sql wl). length (sql_table q) \<le> 63) \<and>
     set (el_tables (lr_locks r)) \<subseteq> sql_table ` set (wl_sql wl) \<and> distinct (el_tables (lr_locks r))"

text \<open>A thread that runs and has not written yet has read the first rows of its table as they still are.\<close>

definition exec_inv :: "workload \<Rightarrow> tables \<Rightarrow> exec_run \<Rightarrow> bool" where
  "exec_inv wl d x \<longleftrightarrow> lock_inv (xr_lock x) \<and> lock_names wl (xr_lock x) \<and>
     xr_tables x = serial_tables wl d (xr_log x) \<and> serial_views wl d (xr_log x) \<and>
     distinct (map fst (xr_log x)) \<and> logged x \<subseteq> {..<length (wl_sql wl)} \<and>
     (\<forall>i < length (wl_sql wl). \<not> running (xr_lock x) i \<and> i \<notin> logged x \<longrightarrow> xr_seen x i = []) \<and>
     (\<forall>i < length (wl_sql wl). i \<notin> logged x \<longrightarrow>
        xr_seen x i = take (length (xr_seen x i)) (xr_tables x (sql_table (wl_sql wl ! i)))) \<and>
     (\<forall>i < length (wl_sql wl). lr_threads (xr_lock x) ! i = Done \<or> (\<exists>s. lr_threads (xr_lock x) ! i = Releasing s) \<longrightarrow> i \<in> logged x)"


lemmas position_simps = position_of_def put_def nth_list_update

inductive_cases lock_step_cases: "lock_step r r'"

lemma position_step:
  assumes "lock_step r r'" "k < length (lr_threads r)" "position_of q (lr_threads r ! k)"
  shows "position_of q (lr_threads r' ! k)"
  using assms by (cases rule: lock_step.cases) (auto simp: position_simps split: if_splits)

lemma names_step:
  assumes "lock_step r r'"
  shows "el_tables (lr_locks r') = el_tables (lr_locks r) \<or>
    (\<exists>i s slot. i < length (lr_threads r) \<and> lr_threads r ! i = Catalog s \<and>
       registry_get_or_create_locked (el_tables (lr_locks r)) (st_table s) = (slot, el_tables (lr_locks r')))"
  using assms
  by (cases rule: lock_step.cases)
     (auto simp: put_def single_enter_def single_exit_def catalog_read_def catalog_write_def catalog_release_def
        lock_slot_def table_release_def split: option.splits)

lemma threads_step: "lock_step r r' \<Longrightarrow> length (lr_threads r') = length (lr_threads r)"
  by (cases rule: lock_step.cases) (auto simp: put_def)

lemma left_step:
  assumes "lock_step r r'" "k < length (lr_threads r)"
    and "lr_threads r' ! k = Done \<or> (\<exists>s. lr_threads r' ! k = Releasing s)"
  shows "running r k \<or> lr_threads r ! k = Done \<or> (\<exists>s. lr_threads r ! k = Releasing s)"
  using assms by (cases rule: lock_step.cases) (auto simp: put_def running_def nth_list_update split: if_splits)

lemma lock_names_step:
  assumes "lock_step r r'" "lock_names wl r"
  shows "lock_names wl r'"
proof -
  let ?names = "el_tables (lr_locks r)"
  have pos: "\<forall>i < length (wl_sql wl). position_of (wl_sql wl ! i) (lr_threads r' ! i)"
    using assms(2) position_step [OF assms(1)] by (simp add: lock_names_def)
  have "set (el_tables (lr_locks r')) \<subseteq> sql_table ` set (wl_sql wl) \<and> distinct (el_tables (lr_locks r'))"
    using names_step [OF assms(1)]
  proof
    assume "\<exists>i s slot. i < length (lr_threads r) \<and> lr_threads r ! i = Catalog s \<and>
       registry_get_or_create_locked ?names (st_table s) = (slot, el_tables (lr_locks r'))"
    then obtain i s slot where i: "i < length (wl_sql wl)" "lr_threads r ! i = Catalog s"
      and g: "registry_get_or_create_locked ?names (st_table s) = (slot, el_tables (lr_locks r'))"
      using assms(2) by (auto simp: lock_names_def)
    have "position_of (wl_sql wl ! i) (Catalog s)" using assms(2) i by (metis lock_names_def)
    then have s: "s = stmt_of (wl_sql wl ! i)" by (simp add: position_of_def)
    have t: "st_table s = sql_table (wl_sql wl ! i)" "wl_sql wl ! i \<in> set (wl_sql wl)" "length (st_table s) \<le> 63"
      using assms(2) i(1) by (simp_all add: lock_names_def s stmt_of_def)
    have "st_table s \<notin> set ?names" if "find_idx (\<lambda>n. same_name n (st_table s)) ?names = None"
      using that by (auto simp: find_idx_None same_name_def)
    then have "el_tables (lr_locks r') = ?names \<or>
        (el_tables (lr_locks r') = ?names @ [st_table s] \<and> st_table s \<notin> set ?names)"
      using g t(3) by (auto simp: registry_get_or_create_locked_def split: option.splits if_splits)
    then show ?thesis
      using t(1,2) assms(2) by (elim disjE) (simp_all add: lock_names_def)
  qed (use assms(2) in \<open>simp add: lock_names_def\<close>)
  then show ?thesis
    using assms(2) pos threads_step [OF assms(1)] by (simp add: lock_names_def)
qed

section \<open>Writers are alone on their table\<close>

lemma running_stmt:
  assumes "lock_names wl r" "running r i"
  shows "i < length (wl_sql wl) \<and> i < length (lr_threads r) \<and> (\<exists>p. lr_threads r ! i = Running (stmt_of (wl_sql wl ! i)) p)"
  using assms by (force simp: lock_names_def running_def position_of_def)

text \<open>At most 64 tables are in use, so every one of them gets a lock.\<close>

lemma registry_has_room:
  assumes "few_tables wl" "lock_names wl r" "q \<in> set (wl_sql wl)" "length (el_tables (lr_locks r)) = max_tables"
  shows "registry_find_locked (el_tables (lr_locks r)) (sql_table q) \<noteq> None"
proof
  let ?names = "el_tables (lr_locks r)" and ?used = "sql_table ` set (wl_sql wl)"
  assume "registry_find_locked ?names (sql_table q) = None"
  then have "sql_table q \<notin> set ?names"
    by (auto simp: registry_find_locked_def find_idx_None same_name_def)
  moreover have "set ?names = ?used"
  proof (rule card_subset_eq)
    show "card (set ?names) = card ?used"
      using assms card_mono [of ?used "set ?names"]
      by (auto simp: few_tables_def lock_names_def distinct_card intro: antisym)
  qed (use assms(2) in \<open>simp_all add: lock_names_def\<close>)
  ultimately show False using assms(3) by blast
qed

lemma writer_alone:
  assumes "few_tables wl" "lock_inv r" "lock_names wl r" "running r i" "running r j" "i \<noteq> j"
    and "sql_type (wl_sql wl ! i) \<noteq> QUERY_SELECT"
  shows "sql_table (wl_sql wl ! j) \<noteq> sql_table (wl_sql wl ! i)"
proof
  assume same: "sql_table (wl_sql wl ! j) = sql_table (wl_sql wl ! i)"
  obtain p where i: "i < length (wl_sql wl)" "i < length (lr_threads r)" "lr_threads r ! i = Running (stmt_of (wl_sql wl ! i)) p"
    using running_stmt [OF assms(3,4)] by blast
  obtain q where j: "j < length (lr_threads r)" "lr_threads r ! j = Running (stmt_of (wl_sql wl ! j)) q"
    using running_stmt [OF assms(3,5)] by blast
  have "length (el_tables (lr_locks r)) = 64 \<and> registry_find_locked (el_tables (lr_locks r)) (sql_table (wl_sql wl ! i)) = None"
    using running_exclusive [OF assms(2) i(2,3) _ j _ assms(6)] same assms(7) by (simp add: stmt_of_def is_write_def)
  then show False
    using registry_has_room [OF assms(1,3) nth_mem [OF i(1)]] by (simp add: max_tables_def)
qed

section \<open>Preservation\<close>

lemma exec_init_inv:
  assumes "exec_init wl d x"
  shows "exec_inv wl d x"
proof -
  have "\<forall>q \<in> set (wl_sql wl). length (sql_table q) \<le> 63"
    using assms by (auto simp: exec_init_def lock_init_def stmt_of_def)
  then show ?thesis
    using assms lock_inv_init [of "xr_lock x"]
    by (auto simp: exec_init_def exec_inv_def lock_names_def position_of_def lock_init_def engine_lock_init_def
        serial_tables_def logged_def)
qed

lemma move_inv:
  assumes inv: "exec_inv wl d x" and st: "lock_step (xr_lock x) l"
    and fin: "\<forall>i. running (xr_lock x) i \<and> \<not> running l i \<longrightarrow> i \<in> logged x"
  shows "exec_inv wl d (x\<lparr>xr_lock := l\<rparr>)"
proof -
  note I = inv [unfolded exec_inv_def]
  have "lock_inv l" using I lk.step_inv [OF _ st] by blast
  moreover have "lock_names wl l" using I lock_names_step [OF st] by blast
  moreover have "xr_seen x i = []" if "i < length (wl_sql wl)" "\<not> running l i" "i \<notin> logged x" for i
    using I that fin by blast
  moreover have "i \<in> logged x" if "i < length (wl_sql wl)" "lr_threads l ! i = Done \<or> (\<exists>s. lr_threads l ! i = Releasing s)" for i
  proof -
    have "i < length (lr_threads (xr_lock x))" using I that(1) by (simp add: lock_names_def)
    from left_step [OF st this that(2)] show ?thesis
      using I that fin by (auto simp: running_def)
  qed
  ultimately show ?thesis
    using I unfolding exec_inv_def logged_def by (elim conjE) simp
qed

lemma read_record_inv:
  assumes inv: "exec_inv wl d x" and "running (xr_lock x) i" "i \<notin> logged x"
    and "rows = xr_tables x (sql_table (wl_sql wl ! i))" "length (xr_seen x i) < length rows"
  shows "exec_inv wl d (x\<lparr>xr_seen := (xr_seen x)(i := xr_seen x i @ [rows ! length (xr_seen x i)])\<rparr>)"
proof -
  note I = inv [unfolded exec_inv_def]
  have "i < length (wl_sql wl)" using running_stmt [OF _ assms(2)] I by blast
  then have "xr_seen x i = take (length (xr_seen x i)) rows" using I assms(3,4) by blast
  then have "xr_seen x i @ [rows ! length (xr_seen x i)] = take (Suc (length (xr_seen x i))) rows"
    using assms(5) by (metis take_Suc_conv_app_nth)
  then have "((xr_seen x)(i := xr_seen x i @ [rows ! length (xr_seen x i)])) j =
      take (length (((xr_seen x)(i := xr_seen x i @ [rows ! length (xr_seen x i)])) j)) (xr_tables x (sql_table (wl_sql wl ! j)))"
    if "j < length (wl_sql wl)" "j \<notin> logged x" for j
    using I that assms(4,5) by (cases "j = i") auto
  then show ?thesis
    using I assms(2) unfolding exec_inv_def logged_def by simp
qed

lemma result_rows_unwritten:
  "sql_type (wl_sql wl ! i) \<notin> {QUERY_INSERT, QUERY_DELETE, QUERY_UPDATE} \<Longrightarrow> result_rows wl i seen now = now"
  by (simp add: result_rows_def Let_def)

lemma write_table_inv:
  assumes few: "few_tables wl" and inv: "exec_inv wl d x" and run: "running (xr_lock x) i" and new: "i \<notin> logged x"
    and table: "table = sql_table (wl_sql wl ! i)"
    and eof: "scans (wl_sql wl ! i) \<longrightarrow> length (xr_tables x table) \<le> length (xr_seen x i)"
  shows "exec_inv wl d (x\<lparr>xr_tables := (xr_tables x)(table := result_rows wl i (xr_seen x i) (xr_tables x table)),
      xr_log := xr_log x @ [(i, xr_seen x i)]\<rparr>)"
proof -
  note I = inv [unfolded exec_inv_def]
  have i: "i < length (wl_sql wl)" using running_stmt [OF _ run] I by blast
  have read: "xr_seen x j = take (length (xr_seen x j)) (xr_tables x (sql_table (wl_sql wl ! j)))"
    if "j < length (wl_sql wl)" "j \<notin> logged x" for j using I that by blast
  have idle: "xr_seen x j = []" if "j < length (wl_sql wl)" "j \<notin> logged x" "\<not> running (xr_lock x) j" for j
    using I that by blast
  have seen: "xr_seen x i = xr_tables x table" if "scans (wl_sql wl ! i)"
    using I i new table eof that by (metis take_all)
  have res: "result_rows wl i (xr_seen x i) (xr_tables x table) = result_rows wl i (xr_tables x table) (xr_tables x table)"
    using seen by (auto simp: result_rows_def scans_def Let_def)
  let ?new = "(xr_tables x)(table := result_rows wl i (xr_seen x i) (xr_tables x table))"
  have others: "xr_seen x j = take (length (xr_seen x j)) (?new (sql_table (wl_sql wl ! j)))"
    if j: "j < length (wl_sql wl)" "j \<notin> logged x" "j \<noteq> i" for j
  proof (cases "running (xr_lock x) j \<and> sql_table (wl_sql wl ! j) = table")
    case True
    then have "sql_type (wl_sql wl ! i) = QUERY_SELECT"
      using writer_alone [OF few _ _ run _ j(3) [symmetric]] I table by metis
    then show ?thesis using read [OF j(1,2)] True table by (simp add: result_rows_unwritten)
  next
    case False
    then show ?thesis using idle [OF j(1,2)] read [OF j(1,2)] table by (cases "running (xr_lock x) j") auto
  qed
  show ?thesis
    unfolding exec_inv_def
    using I i run new seen res others table
    by (auto simp: serial_tables_snoc serial_views_snoc Let_def logged_def)
qed

interpretation ex: step_system "exec_init wl d" "exec_step wl" "\<lambda>x. few_tables wl \<longrightarrow> exec_inv wl d x" for wl d
proof
  show "few_tables wl \<longrightarrow> exec_inv wl d x" if "exec_init wl d x" for x
    using exec_init_inv [OF that] by blast
  show "few_tables wl \<longrightarrow> exec_inv wl d y" if "few_tables wl \<longrightarrow> exec_inv wl d x" "exec_step wl x y" for x y
    using that(2,1) by (cases rule: exec_step.cases) (blast intro: move_inv read_record_inv write_table_inv)+
qed



text \<open>An UPDATE waits for the lock of the table while a DELETE reads the two records and writes.\<close>

definition two_workers :: workload where
  "two_workers = \<lparr>wl_schema = (\<lambda>_. two_columns), wl_sql = [named QUERY_DELETE ''lee'', named QUERY_UPDATE ''kim''],
     wl_added = (\<lambda>_. [])\<rparr>"

lemma reach_move:
  assumes "reachable (exec_init wl d) (exec_step wl) x" "lock_step (xr_lock x) l"
    and "\<forall>i. running (xr_lock x) i \<longrightarrow> running l i"
  shows "reachable (exec_init wl d) (exec_step wl) (x\<lparr>xr_lock := l\<rparr>)"
  by (rule reachable_step [OF assms(1) move [OF assms(2)]]) (use assms(3) in blast)

lemma reach_read:
  assumes "reachable (exec_init wl d) (exec_step wl) x" "running (xr_lock x) i" "i \<notin> logged x"
    "scans (wl_sql wl ! i)" "length (xr_seen x i) < length (xr_tables x (sql_table (wl_sql wl ! i)))"
  shows "reachable (exec_init wl d) (exec_step wl) (x\<lparr>xr_seen := (xr_seen x)(i := xr_seen x i @
    [xr_tables x (sql_table (wl_sql wl ! i)) ! length (xr_seen x i)])\<rparr>)"
  by (rule reachable_step [OF assms(1) read_record [OF assms(2-4) refl assms(5)]])

lemma reach_write:
  assumes "reachable (exec_init wl d) (exec_step wl) x" "running (xr_lock x) i" "i \<notin> logged x" "table = sql_table (wl_sql wl ! i)"
    "scans (wl_sql wl ! i) \<longrightarrow> length (xr_tables x table) \<le> length (xr_seen x i)"
  shows "reachable (exec_init wl d) (exec_step wl) (x\<lparr>xr_tables := (xr_tables x)(table :=
    result_rows wl i (xr_seen x i) (xr_tables x table)), xr_log := xr_log x @ [(i, xr_seen x i)]\<rparr>)"
  by (rule reachable_step [OF assms(1) write_table [OF assms(2-5)]])

lemma running_two: "running \<lparr>lr_locks = l, lr_threads = [t, u]\<rparr> i \<longleftrightarrow>
    (i = 0 \<and> (\<exists>s p. t = Running s p)) \<or> (i = 1 \<and> (\<exists>s p. u = Running s p))"
  by (auto simp: running_def less_Suc_eq)


end
