(* ===== verification/Buffers.thy ===== *)
theory Buffers
  imports Engine "HOL-Library.Sublist"
begin

text \<open>
  The growing buffers under the strings and lists of the other theories: the JSON buffer of
  \<^verbatim>\<open>src/engine.c\<close>, the token list of \<^verbatim>\<open>src/parser.c\<close>, the record and row buffers of \<^verbatim>\<open>src/storage.c\<close>. An
  array is the list of all its elements, used or not; a write outside of it, and the use of a null
  pointer, have no result. Memory may run out: \<open>mem_alloc\<close> says which requests \<^verbatim>\<open>malloc\<close> and
  \<^verbatim>\<open>realloc\<close> grant, \<open>mem_junk\<close> what new memory holds.
\<close>

section \<open>Memory\<close>

record 'a memory =
  mem_alloc :: "nat \<Rightarrow> bool"
  mem_junk :: "nat \<Rightarrow> 'a"

definition store :: "nat \<Rightarrow> 'a \<Rightarrow> 'a list \<Rightarrow> 'a list option" where
  "store i x data = (if i < length data then Some (data[i := x]) else None)"

definition memcpy :: "nat \<Rightarrow> 'a list \<Rightarrow> 'a list \<Rightarrow> 'a list option" where
  "memcpy i xs data =
     (if i + length xs \<le> length data then Some (take i data @ xs @ drop (i + length xs) data) else None)"

definition realloc :: "'a memory \<Rightarrow> nat \<Rightarrow> 'a list \<Rightarrow> 'a list option" where
  "realloc mem n data =
     (if mem_alloc mem n then Some (take n data @ map (mem_junk mem) [length data..<n]) else None)"

definition size_max :: nat where "size_max = 2 ^ 64 - 1"

lemma store_take: "store i x data = Some data' \<Longrightarrow> length data' = length data \<and> take (Suc i) data' = take i data @ [x]"
  by (auto simp: store_def take_Suc_conv_app_nth split: if_splits)

lemma memcpy_take: "memcpy i xs data = Some data' \<Longrightarrow> length data' = length data \<and> take (i + length xs) data' = take i data @ xs"
  by (auto simp: memcpy_def split: if_splits)

lemma realloc_take: "realloc mem n data = Some data' \<Longrightarrow> length data \<le> n \<Longrightarrow>
    length data' = n \<and> (\<forall>k \<le> length data. take k data' = take k data)"
  by (auto simp: realloc_def split: if_splits)

section \<open>Buffers that grow by one element\<close>

text \<open>
  The contract: one push either appends its element or fails and keeps what is there. The callers stop
  at the first failure.
\<close>

locale push_buffer =
  fixes inv :: "'b \<Rightarrow> bool" and elems :: "'b \<Rightarrow> 'a list" and push :: "'b \<Rightarrow> 'a \<Rightarrow> (bool \<times> 'b) option"
    and limit :: nat
  assumes push: "inv b \<Longrightarrow> length (elems b) < limit \<Longrightarrow>
    \<exists>ok b'. push b x = Some (ok, b') \<and> inv b' \<and> elems b' = (if ok then elems b @ [x] else elems b)"
begin

fun push_all :: "'b \<Rightarrow> 'a list \<Rightarrow> (bool \<times> 'b) option" where
  "push_all b [] = Some (True, b)"
| "push_all b (x # xs) =
     (case push b x of
        None \<Rightarrow> None
      | Some (ok, b') \<Rightarrow> if ok then push_all b' xs else Some (False, b'))"

lemma push_all:
  "inv b \<Longrightarrow> length (elems b) + length xs \<le> limit \<Longrightarrow>
   \<exists>ok b'. push_all b xs = Some (ok, b') \<and> inv b' \<and> prefix (elems b') (elems b @ xs) \<and>
     (ok \<longrightarrow> elems b' = elems b @ xs)"
proof (induction xs arbitrary: b)
  case (Cons x xs)
  then obtain ok b' where b: "push b x = Some (ok, b')" "inv b'" "elems b' = (if ok then elems b @ [x] else elems b)"
    using push [of b x] by auto
  then show ?case
    using Cons.IH [of b'] Cons.prems by (cases ok) auto
next
  case Nil
  then show ?case by (intro exI [of _ True] exI [of _ b]) simp
qed

end

section \<open>Characters of a CSV record\<close>

record char_buf =
  cb_data :: "char list"
  cb_len :: nat

definition append_char :: "char memory \<Rightarrow> char_buf \<Rightarrow> char \<Rightarrow> (bool \<times> char_buf) option" where
  "append_char mem b ch =
     (let cap = length (cb_data b);
          data = (if cb_len b + 1 \<ge> cap
                  then realloc mem (if cap = 0 then 64 else cap * 2 mod 2 ^ 64) (cb_data b) else Some (cb_data b))
      in case data of
           None \<Rightarrow> Some (False, b)
         | Some d \<Rightarrow> map_option (\<lambda>d'. (True, \<lparr>cb_data = d', cb_len = cb_len b + 1\<rparr>)) (store (cb_len b) ch d))"

definition cb_inv :: "char_buf \<Rightarrow> bool" where
  "cb_inv b \<longleftrightarrow> cb_len b \<le> length (cb_data b) \<and> (cb_len b = 0 \<or> cb_len b < length (cb_data b)) \<and>
     length (cb_data b) \<le> 64 + 2 * cb_len b"

definition cb_text :: "char_buf \<Rightarrow> string" where
  "cb_text b = take (cb_len b) (cb_data b)"

section \<open>Tokens\<close>

text \<open>\<^verbatim>\<open>tl_push\<close> does not look at what \<^verbatim>\<open>realloc\<close> returns, and doubles an \<^verbatim>\<open>int\<close>.\<close>

record token_list =
  tl_tok :: "string list"
  tl_count :: nat

definition tl_new :: "string memory \<Rightarrow> token_list" where
  "tl_new mem = \<lparr>tl_tok = replicate 16 [], tl_count = 0\<rparr>"

definition tl_push :: "string memory \<Rightarrow> token_list \<Rightarrow> string \<Rightarrow> (bool \<times> token_list) option" where
  "tl_push mem t s =
     (let cap = length (tl_tok t);
          tok = (if tl_count t \<ge> cap
                 then (if int (cap * 2) > int_max then None else realloc mem (cap * 2) (tl_tok t))
                 else Some (tl_tok t))
      in case tok of
           None \<Rightarrow> None
         | Some d \<Rightarrow> map_option (\<lambda>d'. (True, \<lparr>tl_tok = d', tl_count = tl_count t + 1\<rparr>)) (store (tl_count t) s d))"

definition tl_inv :: "token_list \<Rightarrow> bool" where
  "tl_inv t \<longleftrightarrow> tl_count t \<le> length (tl_tok t) \<and> 16 \<le> length (tl_tok t) \<and> (length (tl_tok t) \<le> 16 \<or> length (tl_tok t) \<le> 2 * tl_count t)"

definition tl_tokens :: "token_list \<Rightarrow> string list" where
  "tl_tokens t = take (tl_count t) (tl_tok t)"

section \<open>Rows\<close>

record row_buf =
  rb_rows :: "string list list"
  rb_count :: nat

definition append_row_buffer :: "string list memory \<Rightarrow> row_buf \<Rightarrow> string list \<Rightarrow> (bool \<times> row_buf) option" where
  "append_row_buffer mem b r =
     (let cap = length (rb_rows b)
      in if rb_count b = cap
         then (if int (cap * 2) > int_max then None
               else case realloc mem (if cap = 0 then 4 else cap * 2) (rb_rows b) of
                 None \<Rightarrow> Some (False, b)
               | Some d \<Rightarrow> map_option (\<lambda>d'. (True, \<lparr>rb_rows = d', rb_count = rb_count b + 1\<rparr>)) (store (rb_count b) r d))
         else map_option (\<lambda>d'. (True, \<lparr>rb_rows = d', rb_count = rb_count b + 1\<rparr>)) (store (rb_count b) r (rb_rows b)))"

definition rb_inv :: "row_buf \<Rightarrow> bool" where
  "rb_inv b \<longleftrightarrow> rb_count b \<le> length (rb_rows b)"

definition rb_elems :: "row_buf \<Rightarrow> string list list" where
  "rb_elems b = take (rb_count b) (rb_rows b)"

section \<open>They keep the contract\<close>

text \<open>A push into free space, and a push after growing.\<close>

lemma store_fits:
  assumes "n < length data"
  obtains d where "store n x data = Some d" "length d = length data" "take (Suc n) d = take n data @ [x]"
  using assms store_take [of n x data "data[n := x]"] by (simp add: store_def)

lemma store_grown:
  assumes "realloc mem m data = Some d" "n \<le> length data" "length data < m"
  obtains d' where "store n x d = Some d'" "length d' = m" "take (Suc n) d' = take n data @ [x]"
proof -
  have "length d = m" "take n d = take n data" using realloc_take [OF assms(1)] assms(2,3) by auto
  with assms(2,3) obtain d' where "store n x d = Some d'" "length d' = length d" "take (Suc n) d' = take n d @ [x]"
    by (auto intro: store_fits [of n d x])
  with \<open>length d = m\<close> \<open>take n d = take n data\<close> that show thesis by simp
qed

lemma pushed:
  "push b x = Some (True, b') \<Longrightarrow> ok_inv b' \<Longrightarrow> elems b' = elems b @ [x] \<Longrightarrow>
   \<exists>ok b'. push b x = Some (ok, b') \<and> ok_inv b' \<and> elems b' = (if ok then elems b @ [x] else elems b)"
  by (intro exI [of _ True] exI [of _ b']) simp

interpretation cb: push_buffer cb_inv cb_text "append_char mem" "2 ^ 61" for mem
proof
  fix b :: char_buf and x :: char
  assume inv: "cb_inv b" and short: "length (cb_text b) < 2 ^ 61"
  let ?cap = "length (cb_data b)" and ?n = "if length (cb_data b) = 0 then 64 else length (cb_data b) * 2 mod 2 ^ 64"
  have len: "cb_len b < 2 ^ 61" using inv short by (simp add: cb_text_def cb_inv_def)
  then have "?cap * 2 < 2 ^ 64" using inv by (simp add: cb_inv_def)
  then have small: "?n = (if ?cap = 0 then 64 else ?cap * 2)" by (simp only: mod_less)
  show "\<exists>ok b'. append_char mem b x = Some (ok, b') \<and> cb_inv b' \<and> cb_text b' = (if ok then cb_text b @ [x] else cb_text b)"
  proof (cases "cb_len b + 1 \<ge> ?cap")
    case False
    obtain d where d: "store (cb_len b) x (cb_data b) = Some d" "length d = ?cap"
      "take (Suc (cb_len b)) d = take (cb_len b) (cb_data b) @ [x]"
      by (rule store_fits [of "cb_len b" "cb_data b" x]) (use False in auto)
    show ?thesis
      by (rule pushed [of _ _ _ "\<lparr>cb_data = d, cb_len = cb_len b + 1\<rparr>"])
        (use d False inv in \<open>simp_all add: append_char_def cb_inv_def cb_text_def\<close>)
  next
    case grow: True
    show ?thesis
    proof (cases "realloc mem ?n (cb_data b)")
      case None
      then show ?thesis using grow inv by (intro exI [of _ False] exI [of _ b]) (simp add: append_char_def)
    next
      case (Some d)
      obtain d' where d': "store (cb_len b) x d = Some d'" "length d' = ?n"
        "take (Suc (cb_len b)) d' = take (cb_len b) (cb_data b) @ [x]"
        by (rule store_grown [OF Some, of "cb_len b" x]) (use inv small in \<open>auto simp: cb_inv_def\<close>)
      have "append_char mem b x = Some (True, \<lparr>cb_data = d', cb_len = cb_len b + 1\<rparr>)"
        using grow Some d'(1) by (simp add: append_char_def Let_def)
      moreover have "cb_inv \<lparr>cb_data = d', cb_len = cb_len b + 1\<rparr>"
        using d'(2) small inv grow by (cases "cb_data b") (auto simp: cb_inv_def)
      ultimately show ?thesis by (rule pushed) (use d'(3) in \<open>simp add: cb_text_def\<close>)
    qed
  qed
qed

interpretation tl: push_buffer tl_inv tl_tokens "tl_push \<lparr>mem_alloc = \<lambda>_. True, mem_junk = junk\<rparr>" "2 ^ 30 - 1" for junk
proof
  fix t :: token_list and x :: string
  let ?mem = "\<lparr>mem_alloc = \<lambda>_. True, mem_junk = junk\<rparr>"
  assume inv: "tl_inv t" and short: "length (tl_tokens t) < 2 ^ 30 - 1"
  have len: "tl_count t < 2 ^ 30 - 1" using inv short by (simp add: tl_tokens_def tl_inv_def)
  let ?cap = "length (tl_tok t)"
  show "\<exists>ok t'. tl_push ?mem t x = Some (ok, t') \<and> tl_inv t' \<and> tl_tokens t' = (if ok then tl_tokens t @ [x] else tl_tokens t)"
  proof (cases "tl_count t \<ge> ?cap")
    case False
    obtain d where d: "store (tl_count t) x (tl_tok t) = Some d" "length d = ?cap"
      "take (Suc (tl_count t)) d = take (tl_count t) (tl_tok t) @ [x]"
      by (rule store_fits [of "tl_count t" "tl_tok t" x]) (use False in auto)
    show ?thesis
      by (rule pushed [of _ _ _ "\<lparr>tl_tok = d, tl_count = tl_count t + 1\<rparr>"])
        (use d False inv in \<open>auto simp: tl_push_def tl_inv_def tl_tokens_def\<close>)
  next
    case grow: True
    have small: "\<not> int (?cap * 2) > int_max" using inv len grow by (simp add: tl_inv_def int_max_def)
    obtain d where d: "realloc ?mem (?cap * 2) (tl_tok t) = Some d" by (simp add: realloc_def)
    obtain d' where d': "store (tl_count t) x d = Some d'" "length d' = ?cap * 2"
      "take (Suc (tl_count t)) d' = take (tl_count t) (tl_tok t) @ [x]"
      by (rule store_grown [OF d, of "tl_count t" x]) (use inv in \<open>auto simp: tl_inv_def\<close>)
    have "tl_push ?mem t x = Some (True, \<lparr>tl_tok = d', tl_count = tl_count t + 1\<rparr>)"
      unfolding tl_push_def Let_def using grow small d d'(1) by simp
    moreover have "tl_inv \<lparr>tl_tok = d', tl_count = tl_count t + 1\<rparr>"
      using d'(2) inv grow by (simp add: tl_inv_def)
    ultimately show ?thesis by (rule pushed) (use d'(3) in \<open>simp add: tl_tokens_def\<close>)
  qed
qed

interpretation rb: push_buffer rb_inv rb_elems "append_row_buffer mem" "2 ^ 30 - 1" for mem
proof
  fix b :: row_buf and x :: "string list"
  assume inv: "rb_inv b" and short: "length (rb_elems b) < 2 ^ 30 - 1"
  have len: "rb_count b < 2 ^ 30 - 1" using inv short by (simp add: rb_elems_def rb_inv_def)
  let ?cap = "length (rb_rows b)" and ?n = "if length (rb_rows b) = 0 then 4 else length (rb_rows b) * 2"
  show "\<exists>ok b'. append_row_buffer mem b x = Some (ok, b') \<and> rb_inv b' \<and> rb_elems b' = (if ok then rb_elems b @ [x] else rb_elems b)"
  proof (cases "rb_count b = ?cap")
    case False
    obtain d where d: "store (rb_count b) x (rb_rows b) = Some d" "length d = ?cap"
      "take (Suc (rb_count b)) d = take (rb_count b) (rb_rows b) @ [x]"
      by (rule store_fits [of "rb_count b" "rb_rows b" x]) (use False inv in \<open>auto simp: rb_inv_def\<close>)
    show ?thesis
      by (rule pushed [of _ _ _ "\<lparr>rb_rows = d, rb_count = rb_count b + 1\<rparr>"])
        (use d False inv in \<open>simp_all add: append_row_buffer_def rb_inv_def rb_elems_def\<close>)
  next
    case grow: True
    then have small: "\<not> int (?cap * 2) > int_max" using len by (simp add: int_max_def)
    show ?thesis
    proof (cases "realloc mem ?n (rb_rows b)")
      case None
      then show ?thesis
        unfolding append_row_buffer_def Let_def using grow small inv by (intro exI [of _ False] exI [of _ b]) simp
    next
      case (Some d)
      obtain d' where d': "store (rb_count b) x d = Some d'" "length d' = ?n"
        "take (Suc (rb_count b)) d' = take (rb_count b) (rb_rows b) @ [x]"
        by (rule store_grown [OF Some]) (use inv in \<open>auto simp: rb_inv_def\<close>)
      have "append_row_buffer mem b x = Some (True, \<lparr>rb_rows = d', rb_count = rb_count b + 1\<rparr>)"
        unfolding append_row_buffer_def Let_def using grow small Some d'(1) by simp
      moreover have "rb_inv \<lparr>rb_rows = d', rb_count = rb_count b + 1\<rparr>"
        using d'(2) grow by (cases "rb_rows b") (simp_all add: rb_inv_def)
      ultimately show ?thesis by (rule pushed) (use d'(3) in \<open>simp add: rb_elems_def\<close>)
    qed
  qed
qed


section \<open>The token list of a text\<close>

lemma tokenize_length: "length (tokenize s) \<le> length s"
proof (induction s rule: tokenize.induct)
  case (2 c cs)
  have drop: "length (dropWhile P cs) \<le> length cs" for P :: "char \<Rightarrow> bool" by (rule length_dropWhile_le)
  have bound: "length (tokenize t) \<le> length t \<Longrightarrow> length t \<le> length cs \<Longrightarrow> length (tokenize t) \<le> length cs" for t
    by (rule le_trans)
  let ?dash = "c = CHR ''-'' \<and> cs \<noteq> [] \<and> hd cs = CHR ''-''"
  consider "is_space c" | "\<not> is_space c" "?dash" | "\<not> is_space c" "\<not> ?dash" "is_quote c"
    | "\<not> is_space c" "\<not> ?dash" "\<not> is_quote c"
    by blast
  then show ?case
  proof cases
    case 1
    then show ?thesis using 2(1) by simp
  next
    case p: 2
    then show ?thesis using bound [OF 2(2) [OF p] drop] by simp
  next
    case p: 3
    have "length (tl (dropWhile (\<lambda>x. x \<noteq> c) cs)) \<le> length cs" using drop [of "\<lambda>x. x \<noteq> c"] by simp
    then show ?thesis using p bound [OF 2(3) [OF p]] by auto
  next
    case p: 4
    let ?op = "cs \<noteq> [] \<and> hd cs = CHR ''=''"
    have e: "tokenize (c # cs) =
      (if is_punct c \<or> c = CHR ''='' then [c] # tokenize cs
       else if c \<in> set ''><!'' then (if ?op then [c, CHR ''=''] # tokenize (tl cs) else [c] # tokenize cs)
       else if is_word_char c then (c # takeWhile is_word_char cs) # tokenize (dropWhile is_word_char cs)
       else tokenize cs)"
      using p by auto
    have cs: "length (tokenize cs) \<le> length cs"
      if "is_punct c \<or> c = CHR ''='' \<or> (c \<in> set ''><!'' \<and> \<not> ?op) \<or> (c \<notin> set ''><!'' \<and> \<not> is_word_char c)"
      using that 2(4) [OF p] 2(5) [OF p] 2(7) [OF p] 2(9) [OF p] by blast
    have tl: "length (tokenize (tl cs)) \<le> length cs" if "\<not> is_punct c" "c \<noteq> CHR ''=''" "c \<in> set ''><!''" ?op
      using bound [OF 2(6) [OF p that]] by simp
    have word: "length (tokenize (dropWhile is_word_char cs)) \<le> length cs"
      if "\<not> is_punct c" "c \<noteq> CHR ''=''" "c \<notin> set ''><!''" "is_word_char c"
      using bound [OF 2(8) [OF p that] drop] .
    show ?thesis
      unfolding e using cs tl word by (cases "is_punct c \<or> c = CHR ''=''"; cases "c \<in> set ''><!''") auto
  qed
qed simp

text \<open>The tokenizer pushes its tokens one after the other.\<close>

definition token_pushes :: "(nat \<Rightarrow> string) \<Rightarrow> string \<Rightarrow> (bool \<times> token_list) option" where
  "token_pushes junk s =
     (let mem = \<lparr>mem_alloc = \<lambda>_. True, mem_junk = junk\<rparr> in tl.push_all junk (tl_new mem) (tokenize s))"

lemma tl_new_inv: "tl_inv (tl_new mem) \<and> tl_tokens (tl_new mem) = []"
  by (simp add: tl_inv_def tl_new_def tl_tokens_def)

section \<open>The JSON buffer\<close>

text \<open>\<open>jb_data = None\<close> is the null pointer; \<open>jb_cap\<close> is the size the code remembers.\<close>

record json_buf =
  jb_data :: "char list option"
  jb_len :: nat
  jb_cap :: nat

definition jb_init :: "char memory \<Rightarrow> bool \<times> json_buf" where
  "jb_init mem =
     (case realloc mem 256 [] of
        None \<Rightarrow> (False, \<lparr>jb_data = None, jb_len = 0, jb_cap = 0\<rparr>)
      | Some d \<Rightarrow> (True, \<lparr>jb_data = Some (d[0 := CHR 0x00]), jb_len = 0, jb_cap = 256\<rparr>))"

text \<open>The doubling loop; \<open>None\<close> is a loop that does not end, \<open>Some None\<close> the return on overflow.\<close>

partial_function (option) grow_cap :: "nat \<Rightarrow> nat \<Rightarrow> nat option option" where
  "grow_cap new_cap need =
     (if new_cap < need then (if new_cap > size_max div 2 then Some None else grow_cap (new_cap * 2) need)
      else Some (Some new_cap))"

definition jb_reserve :: "char memory \<Rightarrow> json_buf \<Rightarrow> nat \<Rightarrow> (bool \<times> json_buf) option" where
  "jb_reserve mem b extra =
     (case jb_data b of
        None \<Rightarrow> Some (False, b)
      | Some data \<Rightarrow>
          if extra > size_max - jb_len b - 1 then Some (False, b)
          else (let need = jb_len b + extra + 1
                in if need \<le> jb_cap b then Some (True, b)
                   else case grow_cap (jb_cap b) need of
                     None \<Rightarrow> None
                   | Some None \<Rightarrow> Some (False, b)
                   | Some (Some new_cap) \<Rightarrow>
                       (case realloc mem new_cap data of
                          None \<Rightarrow> Some (False, b)
                        | Some d \<Rightarrow> Some (True, b\<lparr>jb_data := Some d, jb_cap := new_cap\<rparr>))))"

definition jb_append_n :: "char memory \<Rightarrow> json_buf \<Rightarrow> string \<Rightarrow> (bool \<times> json_buf) option" where
  "jb_append_n mem b s =
     (if s = [] then Some (True, b)
      else case jb_reserve mem b (length s) of
        None \<Rightarrow> None
      | Some (False, b1) \<Rightarrow> Some (False, b1)
      | Some (True, b1) \<Rightarrow>
          (case jb_data b1 of
             None \<Rightarrow> None
           | Some data \<Rightarrow>
               (case memcpy (jb_len b1) s data of
                  None \<Rightarrow> None
                | Some d \<Rightarrow>
                    (case store (jb_len b1 + length s) (CHR 0x00) d of
                       None \<Rightarrow> None
                     | Some d' \<Rightarrow> Some (True, b1\<lparr>jb_data := Some d', jb_len := jb_len b1 + length s\<rparr>)))))"

text \<open>\<^verbatim>\<open>jb_appendf\<close> with the text of the conversion, which \<^verbatim>\<open>vsnprintf\<close> writes with its NUL.\<close>

definition jb_appendf :: "char memory \<Rightarrow> json_buf \<Rightarrow> string \<Rightarrow> (bool \<times> json_buf) option" where
  "jb_appendf mem b s =
     (case jb_reserve mem b (length s) of
        None \<Rightarrow> None
      | Some (False, b1) \<Rightarrow> Some (False, b1)
      | Some (True, b1) \<Rightarrow>
          (case jb_data b1 of
             None \<Rightarrow> None
           | Some data \<Rightarrow>
               (case memcpy (jb_len b1) (take (jb_cap b1 - jb_len b1 - 1) s @ [CHR 0x00]) data of
                  None \<Rightarrow> None
                | Some d \<Rightarrow> Some (True, b1\<lparr>jb_data := Some d, jb_len := jb_len b1 + length s\<rparr>))))"

text \<open>The pieces of a JSON string, one call of \<^verbatim>\<open>jb_append\<close> each, until one fails.\<close>

fun jb_pieces :: "char memory \<Rightarrow> json_buf \<Rightarrow> string list \<Rightarrow> (bool \<times> json_buf) option" where
  "jb_pieces mem b [] = Some (True, b)"
| "jb_pieces mem b (s # ss) =
     (case jb_append_n mem b s of
        None \<Rightarrow> None
      | Some (ok, b1) \<Rightarrow> if ok then jb_pieces mem b1 ss else Some (False, b1))"

definition jb_append_json_string :: "char memory \<Rightarrow> json_buf \<Rightarrow> string \<Rightarrow> (bool \<times> json_buf) option" where
  "jb_append_json_string mem b s = jb_pieces mem b ([CHR 0x22] # map json_char s @ [[CHR 0x22]])"

definition jb_take :: "json_buf \<Rightarrow> char list option \<times> json_buf" where
  "jb_take b = (jb_data b, \<lparr>jb_data = None, jb_len = 0, jb_cap = 0\<rparr>)"

definition jb_free :: "json_buf \<Rightarrow> json_buf" where
  "jb_free b = \<lparr>jb_data = None, jb_len = 0, jb_cap = 0\<rparr>"

definition jb_text :: "json_buf \<Rightarrow> string" where
  "jb_text b = (case jb_data b of None \<Rightarrow> [] | Some d \<Rightarrow> take (jb_len b) d)"

text \<open>The size is remembered as it is, the text ends with a NUL inside the array.\<close>

definition jb_inv :: "json_buf \<Rightarrow> bool" where
  "jb_inv b \<longleftrightarrow> (case jb_data b of
     None \<Rightarrow> jb_len b = 0
   | Some d \<Rightarrow> jb_cap b = length d \<and> jb_len b < jb_cap b \<and> jb_cap b \<le> size_max \<and> d ! jb_len b = CHR 0x00)"

lemma grow_cap_ends:
  assumes "0 < c" "c \<le> size_max"
  shows "\<exists>r. grow_cap c need = Some r \<and> (\<forall>n. r = Some n \<longrightarrow> need \<le> n \<and> c \<le> n \<and> n \<le> size_max)"
  using assms
proof (induction "need - c" arbitrary: c rule: less_induct)
  case less
  show ?case
  proof (cases "c < need \<and> c \<le> size_max div 2")
    case True
    then have "\<exists>r. grow_cap (c * 2) need = Some r \<and> (\<forall>n. r = Some n \<longrightarrow> need \<le> n \<and> c * 2 \<le> n \<and> n \<le> size_max)"
      using less.prems by (intro less.hyps) auto
    then show ?thesis using True by (subst grow_cap.simps) fastforce
  next
    case False
    then show ?thesis using less.prems by (subst grow_cap.simps) auto
  qed
qed

lemma jb_reserve_spec:
  assumes "jb_inv b"
  shows "\<exists>ok b1. jb_reserve mem b n = Some (ok, b1) \<and> jb_len b1 = jb_len b \<and> jb_text b1 = jb_text b \<and>
    (ok \<longrightarrow> (\<exists>d. jb_data b1 = Some d \<and> jb_cap b1 = length d \<and> jb_len b + n < length d \<and> length d \<le> size_max)) \<and>
    (\<not> ok \<longrightarrow> b1 = b)"
proof (cases "jb_data b")
  case None
  then show ?thesis by (intro exI [of _ False] exI [of _ b]) (simp add: jb_reserve_def)
next
  case (Some data)
  note I = assms [unfolded jb_inv_def Some, simplified]
  have pos: "0 < jb_cap b" using I by linarith
  let ?need = "jb_len b + n + 1"
  show ?thesis
  proof (cases "n > size_max - jb_len b - 1 \<or> ?need \<le> jb_cap b")
    case True
    then show ?thesis using Some I by (auto simp: jb_reserve_def Let_def)
  next
    case False
    obtain r where r: "grow_cap (jb_cap b) ?need = Some r" "\<forall>c. r = Some c \<longrightarrow> ?need \<le> c \<and> jb_cap b \<le> c \<and> c \<le> size_max"
      using grow_cap_ends [of "jb_cap b" ?need] pos I by blast
    show ?thesis
    proof (cases "\<exists>c d. r = Some c \<and> realloc mem c data = Some d")
      case True
      then obtain c d where c: "r = Some c" "realloc mem c data = Some d" by blast
      then have "jb_reserve mem b n = Some (True, b\<lparr>jb_data := Some d, jb_cap := c\<rparr>)"
        using False Some r(1) by (simp add: jb_reserve_def Let_def)
      then show ?thesis
        using realloc_take [OF c(2)] r(2) c(1) I Some
        by (intro exI [of _ True] exI [of _ "b\<lparr>jb_data := Some d, jb_cap := c\<rparr>"]) (simp add: jb_text_def)
    next
      case fail: False
      then have "jb_reserve mem b n = Some (False, b)"
        using False Some r(1) by (auto simp: jb_reserve_def Let_def split: option.split)
      then show ?thesis by (intro exI [of _ False] exI [of _ b]) simp
    qed
  qed
qed


lemma jb_append_n_spec:
  assumes "jb_inv b"
  shows "\<exists>ok b1. jb_append_n mem b s = Some (ok, b1) \<and> jb_inv b1 \<and> jb_text b1 = (if ok then jb_text b @ s else jb_text b)"
proof (cases "s = []")
  case True
  then show ?thesis using assms by (intro exI [of _ True] exI [of _ b]) (simp add: jb_append_n_def)
next
  case False
  obtain ok b1 where r: "jb_reserve mem b (length s) = Some (ok, b1)" "jb_len b1 = jb_len b" "jb_text b1 = jb_text b"
    "\<not> ok \<longrightarrow> b1 = b"
    "ok \<longrightarrow> (\<exists>d. jb_data b1 = Some d \<and> jb_cap b1 = length d \<and> jb_len b + length s < length d \<and> length d \<le> size_max)"
    using jb_reserve_spec [OF assms] by blast
  show ?thesis
  proof (cases ok)
    case True
    then obtain d where d: "jb_data b1 = Some d" "jb_cap b1 = length d" "jb_len b + length s < length d" "length d \<le> size_max"
      using r(5) by blast
    obtain d1 where d1: "memcpy (jb_len b) s d = Some d1" using d(3) by (simp add: memcpy_def)
    obtain d2 where d2: "store (jb_len b + length s) (CHR 0x00) d1 = Some d2" "d2 = d1[jb_len b + length s := CHR 0x00]"
      using d(3) memcpy_take [OF d1] by (simp add: store_def)
    let ?b = "b1\<lparr>jb_data := Some d2, jb_len := jb_len b1 + length s\<rparr>"
    have "jb_append_n mem b s = Some (True, ?b)"
      using False True r(1,2) d d1 d2(1) by (simp add: jb_append_n_def)
    moreover have "jb_inv ?b" using d(2-4) d2(2) memcpy_take [OF d1] r(2) by (simp add: jb_inv_def)
    moreover have "jb_text ?b = jb_text b @ s"
      using d(1) d2(2) memcpy_take [OF d1] r(2,3) by (simp add: jb_text_def)
    ultimately show ?thesis by (intro exI [of _ True] exI [of _ ?b]) simp
  next
    case no: False
    then show ?thesis using False assms r by (intro exI [of _ False] exI [of _ b]) (simp add: jb_append_n_def)
  qed
qed

lemma jb_appendf_spec:
  assumes "jb_inv b"
  shows "\<exists>ok b1. jb_appendf mem b s = Some (ok, b1) \<and> jb_inv b1 \<and> jb_text b1 = (if ok then jb_text b @ s else jb_text b)"
proof -
  obtain ok b1 where r: "jb_reserve mem b (length s) = Some (ok, b1)" "jb_len b1 = jb_len b" "jb_text b1 = jb_text b"
    "\<not> ok \<longrightarrow> b1 = b"
    "ok \<longrightarrow> (\<exists>d. jb_data b1 = Some d \<and> jb_cap b1 = length d \<and> jb_len b + length s < length d \<and> length d \<le> size_max)"
    using jb_reserve_spec [OF assms] by blast
  show ?thesis
  proof (cases ok)
    case True
    then obtain d where d: "jb_data b1 = Some d" "jb_cap b1 = length d" "jb_len b + length s < length d" "length d \<le> size_max"
      using r(5) by blast
    have all: "take (jb_cap b1 - jb_len b1 - 1) s = s" using d(2,3) r(2) by simp
    obtain d1 where d1: "memcpy (jb_len b) (s @ [CHR 0x00]) d = Some d1" using d(3) by (simp add: memcpy_def)
    note C = memcpy_take [OF d1]
    let ?b = "b1\<lparr>jb_data := Some d1, jb_len := jb_len b1 + length s\<rparr>"
    have n: "take (jb_len b + length s + 1) d1 = jb_text b @ s @ [CHR 0x00]"
      using C r(2,3) d(1) by (simp add: jb_text_def)
    have "jb_text b = take (jb_len b) d" using r(3) unfolding jb_text_def [of b1] d(1) r(2) by simp
    then have l: "length (jb_text b) = jb_len b" using d(3) by simp
    have "d1 ! (jb_len b + length s) = CHR 0x00"
      using nth_take [of "jb_len b + length s" "jb_len b + length s + 1" d1] unfolding n by (simp add: nth_append l)
    then have "jb_inv ?b" using d(2-4) C r(2) by (simp add: jb_inv_def)
    moreover have "jb_text ?b = jb_text b @ s"
      using arg_cong [OF n, of "take (jb_len b + length s)"] r(2) l by (simp add: jb_text_def min_def)
    moreover have "jb_appendf mem b s = Some (True, ?b)"
      using True r(1,2) d(1) d1 all by (simp add: jb_appendf_def)
    ultimately show ?thesis by (intro exI [of _ True] exI [of _ ?b]) simp
  next
    case no: False
    then show ?thesis using assms r by (intro exI [of _ False] exI [of _ b]) (simp add: jb_appendf_def)
  qed
qed

lemma jb_pieces_spec:
  "jb_inv b \<Longrightarrow> \<exists>ok b1. jb_pieces mem b ss = Some (ok, b1) \<and> jb_inv b1 \<and> prefix (jb_text b1) (jb_text b @ concat ss) \<and>
     (ok \<longrightarrow> jb_text b1 = jb_text b @ concat ss)"
proof (induction ss arbitrary: b)
  case Nil
  then show ?case by (intro exI [of _ True] exI [of _ b]) simp
next
  case (Cons s ss)
  obtain ok b1 where b1: "jb_append_n mem b s = Some (ok, b1)" "jb_inv b1" "jb_text b1 = (if ok then jb_text b @ s else jb_text b)"
    using jb_append_n_spec [OF Cons.prems] by blast
  then show ?case using Cons.IH [OF b1(2)] by (cases ok) auto
qed

section \<open>Writing a response\<close>

text \<open>What the engine does with the buffer: \<^verbatim>\<open>jb_append\<close> of a text, \<^verbatim>\<open>jb_appendf\<close>, and a JSON string.\<close>

datatype jb_op = Append string | Appendf string | Append_json_string string

fun op_text :: "jb_op \<Rightarrow> string" where
  "op_text (Append s) = s"
| "op_text (Appendf s) = s"
| "op_text (Append_json_string s) = json_string s"

fun jb_step :: "char memory \<Rightarrow> json_buf \<Rightarrow> jb_op \<Rightarrow> (bool \<times> json_buf) option" where
  "jb_step mem b (Append s) = jb_append_n mem b s"
| "jb_step mem b (Appendf s) = jb_appendf mem b s"
| "jb_step mem b (Append_json_string s) = jb_append_json_string mem b s"

fun jb_ops :: "char memory \<Rightarrow> json_buf \<Rightarrow> jb_op list \<Rightarrow> (bool \<times> json_buf) option" where
  "jb_ops mem b [] = Some (True, b)"
| "jb_ops mem b (x # xs) =
     (case jb_step mem b x of
        None \<Rightarrow> None
      | Some (ok, b1) \<Rightarrow> if ok then jb_ops mem b1 xs else Some (False, b1))"

lemma jb_step_spec:
  assumes "jb_inv b"
  shows "\<exists>ok b1. jb_step mem b x = Some (ok, b1) \<and> jb_inv b1 \<and> prefix (jb_text b1) (jb_text b @ op_text x) \<and>
    (ok \<longrightarrow> jb_text b1 = jb_text b @ op_text x)"
proof (cases x)
  case (Append s)
  then show ?thesis using jb_append_n_spec [OF assms, of mem s] by auto
next
  case (Appendf s)
  then show ?thesis using jb_appendf_spec [OF assms, of mem s] by auto
next
  case (Append_json_string s)
  have "concat ([CHR 0x22] # map json_char s @ [[CHR 0x22]]) = json_string s" by (simp add: json_string_def jq_def)
  then show ?thesis
    using jb_pieces_spec [OF assms, of mem "[CHR 0x22] # map json_char s @ [[CHR 0x22]]"] Append_json_string
    by (simp only: jb_step.simps op_text.simps jb_append_json_string_def)
qed

lemma jb_ops_spec:
  "jb_inv b \<Longrightarrow> \<exists>ok b1. jb_ops mem b xs = Some (ok, b1) \<and> jb_inv b1 \<and>
     prefix (jb_text b1) (jb_text b @ concat (map op_text xs)) \<and> (ok \<longrightarrow> jb_text b1 = jb_text b @ concat (map op_text xs))"
proof (induction xs arbitrary: b)
  case Nil
  then show ?case by (intro exI [of _ True] exI [of _ b]) simp
next
  case (Cons x xs)
  obtain ok b1 where b1: "jb_step mem b x = Some (ok, b1)" "jb_inv b1" "prefix (jb_text b1) (jb_text b @ op_text x)"
    "ok \<longrightarrow> jb_text b1 = jb_text b @ op_text x"
    using jb_step_spec [OF Cons.prems] by blast
  show ?case
  proof (cases ok)
    case True
    then show ?thesis using b1 Cons.IH [OF b1(2)] by auto
  next
    case False
    have "prefix (jb_text b1) (jb_text b @ op_text x @ concat (map op_text xs))"
      using b1(3) by (metis append.assoc prefix_prefix)
    then show ?thesis using b1 False by (intro exI [of _ False] exI [of _ b1]) simp
  qed
qed

lemma jb_init_spec: "jb_inv (snd (jb_init mem)) \<and> jb_text (snd (jb_init mem)) = []"
  by (auto simp: jb_init_def jb_inv_def jb_text_def size_max_def realloc_def)


text \<open>The calls that \<^verbatim>\<open>append_rowset_json\<close> makes for a result.\<close>

fun op_list :: "jb_op list list \<Rightarrow> jb_op list" where
  "op_list [] = []"
| "op_list [x] = x"
| "op_list (x # y # xs) = x @ Append '','' # op_list (y # xs)"

definition rowset_ops :: "rowset \<Rightarrow> jb_op list" where
  "rowset_ops rs =
     [Append (''{'' @ json_key ''ok'' @ ''true,'' @ json_key ''type'' @ jq @ ''SELECT'' @ jq @ '','' @ json_key ''columns'' @ ''['')] @
     op_list (map (\<lambda>n. [Append_json_string n]) (rs_col_names rs)) @
     [Append (''],'' @ json_key ''rows'' @ ''['')] @
     op_list (map (\<lambda>r. [Append ''[''] @ op_list (map (\<lambda>c. [Append_json_string c]) r) @ [Append '']'']) (rs_rows rs)) @
     [Appendf (''],'' @ json_key ''row_count'' @ show_int (int (length (rs_rows rs))) @ ''}'')]"

lemma op_list_text: "concat (map op_text (op_list xss)) = json_sep (map (\<lambda>xs. concat (map op_text xs)) xss)"
  by (induction xss rule: op_list.induct) simp_all

lemma rowset_ops_text: "concat (map op_text (rowset_ops rs)) = append_rowset_json rs"
  by (simp add: rowset_ops_def append_rowset_json_def op_list_text o_def)


lemma tl_push_ok [simp]: "tl_push mem t x \<noteq> Some (False, t')"
  by (auto simp: tl_push_def Let_def split: option.splits)

lemma tl_push_all_ok: "tl.push_all junk t xs = Some (ok, t') \<Longrightarrow> ok"
  by (induction xs arbitrary: t) (auto split: option.splits if_splits)

text \<open>C39: tokenizing a text of fewer than two to the power of 30 characters never overflows the
  capacity of the token list and never writes outside of it; the list then holds exactly the tokens, in an
  array of at most twice as many places as the text has characters, or of the first 16.\<close>

theorem token_list_fits:
  assumes "length s < 2 ^ 30"
  shows "\<exists>t. token_pushes junk s = Some (True, t) \<and> tl_tokens t = tokenize s \<and>
    length (tl_tok t) \<le> max 16 (2 * length s)"
proof -
  let ?new = "tl_new \<lparr>mem_alloc = \<lambda>_. True, mem_junk = junk\<rparr>"
  have "length (tl_tokens ?new) + length (tokenize s) \<le> 2 ^ 30 - 1"
    using assms tokenize_length [of s] tl_new_inv by simp
  then obtain ok t where t: "tl.push_all junk ?new (tokenize s) = Some (ok, t)" "tl_inv t"
    "ok \<longrightarrow> tl_tokens t = tl_tokens ?new @ tokenize s"
    using tl.push_all [of ?new "tokenize s" junk] tl_new_inv by blast
  have tok: "tl_tokens t = tokenize s" using t(3) tl_push_all_ok [OF t(1)] tl_new_inv by simp
  have "tl_count t = length (tl_tokens t)" using t(2) by (auto simp: tl_tokens_def tl_inv_def)
  then have "tl_count t \<le> length s" using tok tokenize_length [of s] by simp
  then have "length (tl_tok t) \<le> max 16 (2 * length s)" using t(2) by (auto simp: tl_inv_def)
  then show ?thesis using t(1) tok tl_push_all_ok [OF t(1)] by (simp add: token_pushes_def Let_def)
qed

text \<open>A statement of four tokens.\<close>

theorem token_list_fits_witness:
  "\<exists>t. token_pushes (\<lambda>_. []) ''DELETE FROM t;'' = Some (True, t) \<and> tl_tokens t = [''DELETE'', ''FROM'', ''t'', '';''] \<and>
    length (tl_tok t) \<le> 28"
proof -
  have "tokenize ''DELETE FROM t;'' = [''DELETE'', ''FROM'', ''t'', '';'']" by code_simp
  then show ?thesis using token_list_fits [of "''DELETE FROM t;''" "\<lambda>_. []"] by simp
qed

end
