(* ===== verification/Write_Behind.thy ===== *)
theory Write_Behind
  imports Storage "HOL-Library.AList" "HOL-Library.Sublist"
begin

text \<open>
  The append handles of \<^verbatim>\<open>src/storage.c\<close> with the text they hold back. With \<^verbatim>\<open>BULK_INSERT_MODE=1\<close> an appended
  row stays in the buffer of its \<^verbatim>\<open>FILE\<close> until the buffer is full, the handle is flushed before a
  reader opens the file, or the handle is closed. \<^verbatim>\<open>Storage_Files\<close> has no such buffers; here each operation
  on a table file is compared with the one there. The C library may write any part of a buffer at any
  time (\<open>Spill\<close>), which covers the 64 KiB of \<^verbatim>\<open>setvbuf\<close>. Writes do not fail.
\<close>

section \<open>State\<close>

text \<open>\<open>st_files\<close> of \<open>bf_store\<close> is what the files hold; \<open>bf_handles\<close> replaces \<open>st_append\<close>: for each open
  handle its path and the text not yet written.\<close>

record buffered =
  bf_store :: storage
  bf_handles :: "(string \<times> string) list"
  bf_lazy :: bool

definition write_out :: "string \<Rightarrow> string \<Rightarrow> storage \<Rightarrow> storage" where
  "write_out path t s = set_file path (map_option (\<lambda>c. c @ t) (st_files s path)) s"

section \<open>Operations\<close>

definition fp_flush :: "string \<Rightarrow> buffered \<Rightarrow> buffered" where
  "fp_flush path b =
     (case map_of (bf_handles b) path of
        None \<Rightarrow> b
      | Some t \<Rightarrow> b\<lparr>bf_store := write_out path t (bf_store b), bf_handles := AList.update path [] (bf_handles b)\<rparr>)"

definition fp_get :: "string \<Rightarrow> buffered \<Rightarrow> bool \<times> buffered" where
  "fp_get path b =
     (if map_of (bf_handles b) path \<noteq> None then (True, b)
      else let b1 = (if cache_max \<le> length (bf_handles b)
                     then b\<lparr>bf_store := write_out (fst (hd (bf_handles b))) (snd (hd (bf_handles b))) (bf_store b),
                            bf_handles := tl (bf_handles b)\<rparr>
                     else b)
           in if \<not> can_create (bf_store b1) path then (False, b1)
              else (True, b1\<lparr>bf_store := set_file path (Some (case st_files (bf_store b1) path of None \<Rightarrow> [] | Some c \<Rightarrow> c)) (bf_store b1),
                             bf_handles := bf_handles b1 @ [(path, [])]\<rparr>))"

definition fp_invalidate :: "string \<Rightarrow> buffered \<Rightarrow> buffered" where
  "fp_invalidate path b =
     (case map_of (bf_handles b) path of
        None \<Rightarrow> b
      | Some t \<Rightarrow> b\<lparr>bf_store := write_out path t (bf_store b),
                    bf_handles := remove_at (find_idx (\<lambda>h. fst h = path) (bf_handles b)) (bf_handles b)\<rparr>)"

definition fp_close_all :: "buffered \<Rightarrow> buffered" where
  "fp_close_all b =
     b\<lparr>bf_store := fold (\<lambda>h. write_out (fst h) (snd h)) (bf_handles b) (bf_store b), bf_handles := []\<rparr>"

definition fp_reset :: "buffered \<Rightarrow> buffered" where
  "fp_reset b = (let b1 = fp_close_all b in b1\<lparr>bf_store := storage_reset_internal_caches (bf_store b1)\<rparr>)"

definition fp_append_csv_row :: "string \<Rightarrow> row \<Rightarrow> buffered \<Rightarrow> bool \<times> buffered" where
  "fp_append_csv_row path row b =
     (case fp_get path b of
        (False, b1) \<Rightarrow> (False, b1)
      | (True, b1) \<Rightarrow>
          (let t = the (map_of (bf_handles b1) path);
               b2 = b1\<lparr>bf_handles := AList.update path (t @ write_csv_row row) (bf_handles b1)\<rparr>
           in (True, if bf_lazy b2 then b2 else fp_flush path b2)))"

text \<open>Readers flush the handle and then open the file.\<close>

definition fp_read :: "string \<Rightarrow> buffered \<Rightarrow> string option \<times> buffered" where
  "fp_read path b = (let b1 = fp_flush path b in (st_files (bf_store b1) path, b1))"

definition fp_replace_table_file :: "string \<Rightarrow> string \<Rightarrow> buffered \<Rightarrow> buffered" where
  "fp_replace_table_file path temp b =
     (let b1 = fp_invalidate path b; s = bf_store b1
      in b1\<lparr>bf_store := s\<lparr>st_files := (st_files s)(path := st_files s temp, temp := None)\<rparr>\<rparr>)"

definition fp_rewrite_table :: "(row \<Rightarrow> string option) \<Rightarrow> string \<Rightarrow> string \<Rightarrow> schema \<Rightarrow> buffered \<Rightarrow> bool \<times> buffered" where
  "fp_rewrite_table f path temp schema b =
     (let (content, b0) = fp_read path (b\<lparr>bf_store := set_file temp None (bf_store b)\<rparr>)
      in case content of
           None \<Rightarrow> (False, b0)
         | Some fp \<Rightarrow>
             if \<not> can_create (bf_store b0) temp then (False, b0)
             else case (if csv_complete fp then rewrite_loop f (length schema) (csv_records fp) else None) of
                    None \<Rightarrow> (False, b0)
                  | Some out \<Rightarrow>
                      (True, fp_replace_table_file path temp (b0\<lparr>bf_store := set_file temp (Some out) (bf_store b0)\<rparr>)))"

text \<open>The table file of \<^verbatim>\<open>storage_create\<close>: the handle is closed, then the file opened for appending and closed.\<close>

definition create_file :: "string \<Rightarrow> storage \<Rightarrow> bool \<times> storage" where
  "create_file path s =
     (if \<not> can_create s path then (False, s)
      else (True, set_file path (Some (case st_files s path of None \<Rightarrow> [] | Some c \<Rightarrow> c)) s))"

definition fp_create :: "string \<Rightarrow> buffered \<Rightarrow> bool \<times> buffered" where
  "fp_create path b =
     (let b1 = fp_invalidate path b; (ok, s) = create_file path (bf_store b1) in (ok, b1\<lparr>bf_store := s\<rparr>))"

definition fp_spill :: "string \<Rightarrow> nat \<Rightarrow> buffered \<Rightarrow> buffered" where
  "fp_spill path n b =
     (case map_of (bf_handles b) path of
        None \<Rightarrow> b
      | Some t \<Rightarrow> b\<lparr>bf_store := write_out path (take n t) (bf_store b),
                    bf_handles := AList.update path (drop n t) (bf_handles b)\<rparr>)"

section \<open>Without buffers\<close>

definition pending :: "(string \<times> string) list \<Rightarrow> string \<Rightarrow> string" where
  "pending hs path = (case map_of hs path of None \<Rightarrow> [] | Some t \<Rightarrow> t)"

definition unbuffered :: "buffered \<Rightarrow> storage" where
  "unbuffered b = (bf_store b)\<lparr>
     st_files := (\<lambda>p. map_option (\<lambda>c. c @ pending (bf_handles b) p) (st_files (bf_store b) p)),
     st_append := map fst (bf_handles b)\<rparr>"

text \<open>Table files end in \<^verbatim>\<open>.csv\<close>; temporary and schema files do not.\<close>

definition is_csv :: "string \<Rightarrow> bool" where
  "is_csv p \<longleftrightarrow> take 4 (rev p) = ''vsc.''"

definition bf_inv :: "buffered \<Rightarrow> bool" where
  "bf_inv b \<longleftrightarrow> distinct (map fst (bf_handles b)) \<and>
     list_all (\<lambda>h. is_csv (fst h) \<and> st_files (bf_store b) (fst h) \<noteq> None) (bf_handles b)"

definition all_written :: "buffered \<Rightarrow> bool" where
  "all_written b \<longleftrightarrow> list_all (\<lambda>h. snd h = []) (bf_handles b)"


section \<open>One handle\<close>

text \<open>What is seen of a state that differs in its files and handles only.\<close>

lemma unbuffered_eqI:
  assumes "bf_store b' = (bf_store b)\<lparr>st_files := fs\<rparr>"
    and "\<And>p. map_option (\<lambda>c. c @ pending (bf_handles b') p) (fs p) = st_files (unbuffered b) p"
  shows "unbuffered b' = (unbuffered b)\<lparr>st_append := map fst (bf_handles b')\<rparr>"
  using assms by (simp add: unbuffered_def)

lemma seen_append: "st_append (unbuffered b) = map fst (bf_handles b)"
  by (simp add: unbuffered_def)

lemma seen_file: "st_files (unbuffered b) p = map_option (\<lambda>c. c @ pending (bf_handles b) p) (st_files (bf_store b) p)"
  by (simp add: unbuffered_def)

lemma write_out_eq: "write_out p t s = s\<lparr>st_files := (st_files s)(p := map_option (\<lambda>c. c @ t) (st_files s p))\<rparr>"
  by (simp add: write_out_def set_file_def)

lemma write_out_files: "st_files (write_out p t s) q = None \<longleftrightarrow> st_files s q = None"
  by (simp add: write_out_eq)

lemma unbuffered_can_create [simp]: "can_create (unbuffered b) p = can_create (bf_store b) p"
  by (simp add: can_create_def unbuffered_def)

lemma handle_key: "map_of hs p = Some t \<Longrightarrow> p \<in> set (map fst hs)"
  by (force dest: map_of_SomeD)

lemma handles_in_update: "h \<in> set (AList.update p u hs) \<Longrightarrow> fst h = p \<or> h \<in> set hs"
  by (induction hs) (auto split: if_splits)

text \<open>Moving a part of a buffer into its file is not seen.\<close>

lemma moved:
  assumes inv: "bf_inv b" and h: "map_of (bf_handles b) p = Some (t @ u)"
  defines "b' \<equiv> b\<lparr>bf_store := write_out p t (bf_store b), bf_handles := AList.update p u (bf_handles b)\<rparr>"
  shows "unbuffered b' = unbuffered b \<and> bf_inv b'"
proof
  have keys: "map fst (AList.update p u (bf_handles b)) = map fst (bf_handles b)"
    using handle_key [OF h] by (simp add: update_keys)
  have "unbuffered b' = (unbuffered b)\<lparr>st_append := map fst (bf_handles b')\<rparr>"
    by (rule unbuffered_eqI) (auto simp: b'_def write_out_eq seen_file pending_def update_conv' h option.map_comp o_def)
  then show "unbuffered b' = unbuffered b" by (simp add: b'_def keys unbuffered_def)
  have p: "is_csv p" "st_files (bf_store b) p \<noteq> None"
    using inv map_of_SomeD [OF h] by (auto simp: bf_inv_def list_all_iff)
  show "bf_inv b'"
    using inv p unfolding b'_def bf_inv_def
    by (auto simp: keys list_all_iff write_out_files simp del: not_None_eq dest!: handles_in_update)
qed

lemma flush_same:
  assumes "bf_inv b"
  shows "unbuffered (fp_flush p b) = unbuffered b \<and> bf_inv (fp_flush p b)"
  using moved [OF assms, of p _ "[]"] assms by (auto simp: fp_flush_def split: option.split)

lemma spill_same:
  assumes "bf_inv b"
  shows "unbuffered (fp_spill p n b) = unbuffered b \<and> bf_inv (fp_spill p n b)"
  using moved [OF assms, of p "take n _" "drop n _"] assms by (auto simp: fp_spill_def split: option.split)

text \<open>Closing a handle writes what is left of its buffer.\<close>

lemma find_handle: "find_idx (\<lambda>h. fst h = p) hs = find_idx (\<lambda>q. q = p) (map fst hs)"
  by (induction hs) auto

lemma map_remove_at: "map f (remove_at i xs) = remove_at i (map f xs)"
  by (simp add: remove_at_def take_map drop_map split: option.split)

lemma find_handle_None: "map_of hs p = None \<Longrightarrow> find_idx (\<lambda>q. q = p) (map fst hs) = None"
  by (auto simp: find_idx_None map_of_eq_None_iff)

lemma remove_is_delete:
  "distinct (map fst hs) \<Longrightarrow> remove_at (find_idx (\<lambda>h. fst h = p) hs) hs = AList.delete p hs"
proof (induction hs)
  case (Cons h hs)
  show ?case
  proof (cases "fst h = p")
    case True
    then have "p \<notin> fst ` set hs" using Cons.prems by auto
    then show ?thesis using True by (cases h) (simp add: remove_at_def)
  next
    case False
    then show ?thesis
      using Cons by (auto simp: remove_at_def AList.delete_eq split: option.splits)
  qed
qed (simp add: remove_at_def)

lemma remove_handle:
  "distinct (map fst hs) \<Longrightarrow> map_of (remove_at (find_idx (\<lambda>h. fst h = p) hs) hs) = (map_of hs)(p := None)"
  by (simp add: remove_is_delete AList.delete_conv')

lemma remove_at_set: "set (remove_at i xs) \<subseteq> set xs"
  by (auto simp: remove_at_def dest: in_set_takeD in_set_dropD split: option.splits)

lemma remove_at_distinct: "distinct xs \<Longrightarrow> distinct (remove_at i xs)"
  by (simp add: remove_at_def distinct_take distinct_drop set_take_disj_set_drop_if_distinct split: option.split)

lemma invalidate_same:
  assumes inv: "bf_inv b"
  shows "unbuffered (fp_invalidate p b) = storage_append_fp_invalidate p (unbuffered b) \<and>
    bf_inv (fp_invalidate p b) \<and> map_of (bf_handles (fp_invalidate p b)) p = None"
proof (cases "map_of (bf_handles b) p")
  case None
  then show ?thesis
    using inv by (simp add: fp_invalidate_def storage_append_fp_invalidate_def unbuffered_def find_handle_None remove_at_def)
next
  case (Some t)
  let ?hs = "remove_at (find_idx (\<lambda>h. fst h = p) (bf_handles b)) (bf_handles b)"
  have rem: "map_of ?hs = (map_of (bf_handles b))(p := None)"
    using inv by (simp add: remove_handle bf_inv_def)
  have eq: "fp_invalidate p b = b\<lparr>bf_store := write_out p t (bf_store b), bf_handles := ?hs\<rparr>"
    by (simp add: fp_invalidate_def Some)
  have "unbuffered (fp_invalidate p b) = (unbuffered b)\<lparr>st_append := map fst (bf_handles (fp_invalidate p b))\<rparr>"
    by (rule unbuffered_eqI) (auto simp: eq write_out_eq seen_file pending_def rem Some option.map_ident)
  then have "unbuffered (fp_invalidate p b) = storage_append_fp_invalidate p (unbuffered b)"
    by (simp add: eq storage_append_fp_invalidate_def seen_append find_handle map_remove_at)
  moreover have "bf_inv (fp_invalidate p b)"
    using inv remove_at_set [of "find_idx (\<lambda>h. fst h = p) (bf_handles b)" "bf_handles b"] unfolding eq bf_inv_def
    by (auto simp: list_all_iff write_out_files map_remove_at remove_at_distinct simp del: not_None_eq)
  ultimately show ?thesis by (simp add: eq rem)
qed


lemma written_files:
  "distinct (map fst hs) \<Longrightarrow>
   fold (\<lambda>h. write_out (fst h) (snd h)) hs s = s\<lparr>st_files := (\<lambda>p. map_option (\<lambda>c. c @ pending hs p) (st_files s p))\<rparr>"
proof (induction hs arbitrary: s)
  case Nil
  then show ?case by (simp add: pending_def option.map_ident)
next
  case (Cons h hs)
  then have none: "map_of hs (fst h) = None" by (simp add: map_of_eq_None_iff)
  have first: "fold (\<lambda>h. write_out (fst h) (snd h)) (h # hs) s =
      (write_out (fst h) (snd h) s)\<lparr>st_files := (\<lambda>p. map_option (\<lambda>c. c @ pending hs p) (st_files (write_out (fst h) (snd h) s) p))\<rparr>"
    using Cons by simp
  have files: "(\<lambda>p. map_option (\<lambda>c. c @ pending hs p) (st_files (write_out (fst h) (snd h) s) p)) =
      (\<lambda>p. map_option (\<lambda>c. c @ pending (h # hs) p) (st_files s p))"
    using none by (cases h) (auto simp: write_out_eq pending_def option.map_comp o_def option.map_ident)
  show ?case unfolding first files by (simp add: write_out_eq)
qed

lemma close_all_same:
  assumes "bf_inv b"
  shows "unbuffered (fp_close_all b) = (unbuffered b)\<lparr>st_append := []\<rparr> \<and> bf_inv (fp_close_all b)"
  using assms
  by (simp add: fp_close_all_def unbuffered_def bf_inv_def written_files option.map_comp o_def pending_def [of "[]"])

text \<open>Opening a handle: the oldest one makes room.\<close>

lemma evict_same:
  assumes inv: "bf_inv b" and hs: "bf_handles b = (q, t) # hs"
  defines "b' \<equiv> b\<lparr>bf_store := write_out q t (bf_store b), bf_handles := hs\<rparr>"
  shows "unbuffered b' = (unbuffered b)\<lparr>st_append := map fst hs\<rparr> \<and> bf_inv b'"
proof -
  have "b' = fp_invalidate q b" by (simp add: b'_def fp_invalidate_def hs remove_at_def)
  then show ?thesis
    using invalidate_same [OF inv, of q]
    by (simp add: storage_append_fp_invalidate_def seen_append hs remove_at_def)
qed

lemma open_same:
  assumes inv: "bf_inv b" and p: "is_csv p" "map_of (bf_handles b) p = None" and c: "can_create (bf_store b) p"
  defines "b' \<equiv> b\<lparr>bf_store := set_file p (Some (case st_files (bf_store b) p of None \<Rightarrow> [] | Some c \<Rightarrow> c)) (bf_store b),
    bf_handles := bf_handles b @ [(p, [])]\<rparr>"
  shows "unbuffered b' = (unbuffered b)\<lparr>st_append := st_append (unbuffered b) @ [p],
      st_files := (st_files (unbuffered b))(p := Some (case st_files (unbuffered b) p of None \<Rightarrow> [] | Some c \<Rightarrow> c))\<rparr> \<and>
    bf_inv b' \<and> map_of (bf_handles b') p = Some []"
proof -
  have new: "p \<notin> fst ` set (bf_handles b)" using p(2) by (simp add: map_of_eq_None_iff)
  have pend: "pending (bf_handles b @ [(p, [])]) q = pending (bf_handles b) q" for q
    using p(2) by (simp add: pending_def map_add_def split: option.split)
  have "st_files (unbuffered b') q =
      ((st_files (unbuffered b))(p := Some (case st_files (unbuffered b) p of None \<Rightarrow> [] | Some c \<Rightarrow> c))) q" for q
  proof (cases "q = p")
    case True
    have "pending (bf_handles b) p = []" using p(2) by (simp add: pending_def)
    then show ?thesis using True by (simp add: seen_file b'_def set_file_def pend split: option.split)
  next
    case False
    then show ?thesis by (simp add: seen_file b'_def set_file_def pend)
  qed
  then have "st_files (unbuffered b') =
      (st_files (unbuffered b))(p := Some (case st_files (unbuffered b) p of None \<Rightarrow> [] | Some c \<Rightarrow> c))"
    by (rule ext)
  then have "unbuffered b' = (unbuffered b)\<lparr>st_append := st_append (unbuffered b) @ [p],
      st_files := (st_files (unbuffered b))(p := Some (case st_files (unbuffered b) p of None \<Rightarrow> [] | Some c \<Rightarrow> c))\<rparr>"
    by (intro storage.equality) (simp_all add: seen_append, simp_all add: b'_def unbuffered_def set_file_def)
  moreover have "bf_inv b'"
    using inv new p(1) by (auto simp: b'_def bf_inv_def set_file_def list_all_iff)
  moreover have "map_of (bf_handles b') p = Some []"
    using p(2) by (simp add: b'_def map_add_def)
  ultimately show ?thesis by blast
qed

lemma get_same:
  assumes inv: "bf_inv b" and p: "is_csv p"
  shows "fst (fp_get p b) = fst (storage_append_fp_get p (unbuffered b)) \<and>
    unbuffered (snd (fp_get p b)) = snd (storage_append_fp_get p (unbuffered b)) \<and> bf_inv (snd (fp_get p b)) \<and>
    bf_lazy (snd (fp_get p b)) = bf_lazy b \<and> (fst (fp_get p b) \<longrightarrow> map_of (bf_handles (snd (fp_get p b))) p \<noteq> None)"
proof (cases "map_of (bf_handles b) p")
  case (Some t)
  then have "p \<in> set (st_append (unbuffered b))" using handle_key [OF Some] by (simp add: seen_append)
  then show ?thesis using Some inv by (simp add: fp_get_def storage_append_fp_get_def)
next
  case None
  have new: "p \<notin> set (st_append (unbuffered b))" using None by (simp add: seen_append map_of_eq_None_iff)
  let ?full = "cache_max \<le> length (bf_handles b)"
  define b1 where "b1 = (if ?full
    then b\<lparr>bf_store := write_out (fst (hd (bf_handles b))) (snd (hd (bf_handles b))) (bf_store b), bf_handles := tl (bf_handles b)\<rparr>
    else b)"
  have b1: "unbuffered b1 = (if ?full then (unbuffered b)\<lparr>st_append := tl (st_append (unbuffered b))\<rparr> else unbuffered b) \<and>
      bf_inv b1 \<and> map_of (bf_handles b1) p = None \<and> bf_lazy b1 = bf_lazy b"
  proof (cases ?full)
    case True
    then obtain q t hs where "bf_handles b = (q, t) # hs"
      by (cases "bf_handles b") (auto simp: cache_max_def)
    then show ?thesis
      using evict_same [OF inv, of q t hs] True None by (auto simp: b1_def seen_append split: if_splits)
  qed (use inv None in \<open>simp add: b1_def\<close>)
  have get: "fp_get p b = (if \<not> can_create (bf_store b1) p then (False, b1)
      else (True, b1\<lparr>bf_store := set_file p (Some (case st_files (bf_store b1) p of None \<Rightarrow> [] | Some c \<Rightarrow> c)) (bf_store b1),
                     bf_handles := bf_handles b1 @ [(p, [])]\<rparr>))"
    using None by (simp add: fp_get_def b1_def Let_def)
  have spec: "storage_append_fp_get p (unbuffered b) = (if \<not> can_create (unbuffered b1) p then (False, unbuffered b1)
      else (True, (unbuffered b1)\<lparr>st_append := st_append (unbuffered b1) @ [p],
        st_files := (st_files (unbuffered b1))(p := Some (case st_files (unbuffered b1) p of None \<Rightarrow> [] | Some c \<Rightarrow> c))\<rparr>))"
    using new b1 by (simp add: storage_append_fp_get_def Let_def seen_append)
  show ?thesis
    using open_same [of b1 p] p b1 unfolding get spec unbuffered_can_create
    by (simp del: not_None_eq split del: if_split) (simp split: if_split)
qed


section \<open>Operations on a table file\<close>

lemma append_same:
  assumes inv: "bf_inv b" and p: "is_csv p"
  shows "fst (fp_append_csv_row p r b) = fst (append_csv_row p r (unbuffered b)) \<and>
    unbuffered (snd (fp_append_csv_row p r b)) = snd (append_csv_row p r (unbuffered b)) \<and>
    bf_inv (snd (fp_append_csv_row p r b)) \<and> bf_lazy (snd (fp_append_csv_row p r b)) = bf_lazy b"
proof -
  obtain ok b1 where g: "fp_get p b = (ok, b1)" by (cases "fp_get p b")
  obtain s1 where s1: "storage_append_fp_get p (unbuffered b) = (ok, s1)" "unbuffered b1 = s1" "bf_inv b1"
    "bf_lazy b1 = bf_lazy b" "ok \<longrightarrow> map_of (bf_handles b1) p \<noteq> None"
    using get_same [OF inv p] by (cases "storage_append_fp_get p (unbuffered b)") (auto simp: g)
  show ?thesis
  proof (cases ok)
    case True
    then obtain t where t: "map_of (bf_handles b1) p = Some t" using s1(5) by auto
    let ?w = "t @ write_csv_row r"
    let ?b2 = "b1\<lparr>bf_handles := AList.update p ?w (bf_handles b1)\<rparr>"
    obtain c where c: "st_files (bf_store b1) p = Some c"
      using s1(3) map_of_SomeD [OF t] by (auto simp: bf_inv_def list_all_iff)
    have keys: "map fst (AList.update p ?w (bf_handles b1)) = map fst (bf_handles b1)"
      using handle_key [OF t] by (simp add: update_keys)
    have pend: "pending (AList.update p ?w (bf_handles b1)) q = (if q = p then ?w else pending (bf_handles b1) q)" for q
      by (simp add: pending_def update_conv')
    have "pending (bf_handles b1) p = t" by (simp add: pending_def t)
    then have seen: "st_files s1 p = Some (c @ t)" by (simp add: s1(2) [symmetric] seen_file c)
    have "unbuffered ?b2 = set_file p (Some ((c @ t) @ write_csv_row r)) s1"
      using c s1(2)
      by (intro storage.equality) (auto simp: unbuffered_def set_file_def pend keys fun_eq_iff)
    moreover have inv2: "bf_inv ?b2"
      using s1(3) c p by (auto simp: bf_inv_def keys list_all_iff dest!: handles_in_update)
    moreover have "unbuffered (fp_flush p ?b2) = unbuffered ?b2 \<and> bf_inv (fp_flush p ?b2) \<and> bf_lazy (fp_flush p ?b2) = bf_lazy b1"
      using flush_same [OF inv2, of p] by (simp add: fp_flush_def split: option.split)
    ultimately show ?thesis
      using True s1(4) by (simp add: fp_append_csv_row_def append_csv_row_def g s1(1) t seen Let_def)
  next
    case False
    then show ?thesis using s1 by (simp add: fp_append_csv_row_def append_csv_row_def g)
  qed
qed

lemma read_same:
  assumes "bf_inv b"
  shows "fst (fp_read p b) = st_files (unbuffered b) p \<and> unbuffered (snd (fp_read p b)) = unbuffered b \<and>
    bf_inv (snd (fp_read p b)) \<and> bf_lazy (snd (fp_read p b)) = bf_lazy b"
proof -
  have "pending (bf_handles (fp_flush p b)) p = []"
    by (simp add: fp_flush_def pending_def update_conv' split: option.split)
  then have "st_files (unbuffered (fp_flush p b)) p = st_files (bf_store (fp_flush p b)) p"
    by (simp add: seen_file option.map_ident)
  moreover have "bf_lazy (fp_flush p b) = bf_lazy b" by (simp add: fp_flush_def split: option.split)
  ultimately show ?thesis using flush_same [OF assms, of p] by (simp add: fp_read_def Let_def)
qed

text \<open>A file without a handle is written as it is.\<close>

lemma set_file_same:
  assumes inv: "bf_inv b" and p: "map_of (bf_handles b) p = None"
  shows "unbuffered (b\<lparr>bf_store := set_file p c (bf_store b)\<rparr>) = set_file p c (unbuffered b) \<and>
    bf_inv (b\<lparr>bf_store := set_file p c (bf_store b)\<rparr>)"
proof
  have "pending (bf_handles b) p = []" by (simp add: pending_def p)
  then show "unbuffered (b\<lparr>bf_store := set_file p c (bf_store b)\<rparr>) = set_file p c (unbuffered b)"
    by (intro storage.equality) (auto simp: unbuffered_def set_file_def fun_eq_iff option.map_ident)
  have "p \<notin> fst ` set (bf_handles b)" using p by (simp add: map_of_eq_None_iff)
  then show "bf_inv (b\<lparr>bf_store := set_file p c (bf_store b)\<rparr>)"
    using inv by (auto simp: bf_inv_def set_file_def list_all_iff)
qed

lemma no_handle: "bf_inv b \<Longrightarrow> \<not> is_csv p \<Longrightarrow> map_of (bf_handles b) p = None"
  by (auto simp: bf_inv_def list_all_iff map_of_eq_None_iff)

lemma replace_same:
  assumes inv: "bf_inv b" and t: "\<not> is_csv temp" "is_csv p"
  shows "unbuffered (fp_replace_table_file p temp b) = replace_table_file p temp (unbuffered b) \<and>
    bf_inv (fp_replace_table_file p temp b)"
proof -
  define b1 where "b1 = fp_invalidate p b"
  have b1: "unbuffered b1 = storage_append_fp_invalidate p (unbuffered b)" "bf_inv b1" "map_of (bf_handles b1) p = None"
    using invalidate_same [OF inv, of p] by (simp_all add: b1_def)
  note temp = no_handle [OF b1(2) t(1)]
  let ?c = "st_files (bf_store b1) temp"
  let ?b2 = "b1\<lparr>bf_store := set_file p ?c (bf_store b1)\<rparr>"
  have b2: "unbuffered ?b2 = set_file p ?c (unbuffered b1)" "bf_inv ?b2" using set_file_same [OF b1(2,3)] by simp_all
  have "pending (bf_handles b1) temp = []" by (simp add: pending_def temp)
  then have c: "st_files (unbuffered b1) temp = ?c" by (simp add: seen_file option.map_ident)
  have "fp_replace_table_file p temp b = ?b2\<lparr>bf_store := set_file temp None (bf_store ?b2)\<rparr>"
    by (simp add: fp_replace_table_file_def b1_def Let_def set_file_def)
  then show ?thesis
    using set_file_same [OF b2(2), of temp None] temp b2(1) c
    by (simp add: replace_table_file_def b1(1) [symmetric] set_file_def Let_def)
qed


lemma rewrite_same:
  assumes inv: "bf_inv b" and t: "\<not> is_csv temp" "is_csv p"
  shows "fst (fp_rewrite_table f p temp schema b) = fst (rewrite_table f p temp schema (unbuffered b)) \<and>
    unbuffered (snd (fp_rewrite_table f p temp schema b)) = snd (rewrite_table f p temp schema (unbuffered b)) \<and>
    bf_inv (snd (fp_rewrite_table f p temp schema b))"
proof -
  let ?b = "b\<lparr>bf_store := set_file temp None (bf_store b)\<rparr>" and ?s = "set_file temp None (unbuffered b)"
  have b: "unbuffered ?b = ?s" "bf_inv ?b" using set_file_same [OF inv no_handle [OF inv t(1)], of None] by simp_all
  obtain content b0 where r: "fp_read p ?b = (content, b0)" by (cases "fp_read p ?b")
  have b0: "content = st_files ?s p" "unbuffered b0 = ?s" "bf_inv b0"
    using read_same [OF b(2), of p] by (simp_all add: r b(1))
  have create: "can_create (bf_store b0) temp = can_create ?s temp"
    using unbuffered_can_create [of b0 temp] by (simp add: b0(2))
  have out: "unbuffered (fp_replace_table_file p temp (b0\<lparr>bf_store := set_file temp (Some out) (bf_store b0)\<rparr>)) =
      replace_table_file p temp (set_file temp (Some out) ?s) \<and>
      bf_inv (fp_replace_table_file p temp (b0\<lparr>bf_store := set_file temp (Some out) (bf_store b0)\<rparr>))" for out
    using set_file_same [OF b0(3) no_handle [OF b0(3) t(1)], of "Some out"] replace_same [OF _ t] by (simp add: b0(2))
  show ?thesis
    using b0 create out
    by (auto simp: fp_rewrite_table_def rewrite_table_def r Let_def split: option.split)
qed

lemma create_same:
  assumes inv: "bf_inv b"
  shows "fst (fp_create p b) = fst (create_file p (storage_append_fp_invalidate p (unbuffered b))) \<and>
    unbuffered (snd (fp_create p b)) = snd (create_file p (storage_append_fp_invalidate p (unbuffered b))) \<and>
    bf_inv (snd (fp_create p b))"
proof -
  define b1 where "b1 = fp_invalidate p b"
  have b1: "unbuffered b1 = storage_append_fp_invalidate p (unbuffered b)" "bf_inv b1" "map_of (bf_handles b1) p = None"
    using invalidate_same [OF inv, of p] by (simp_all add: b1_def)
  have "pending (bf_handles b1) p = []" by (simp add: pending_def b1(3))
  then have c: "st_files (unbuffered b1) p = st_files (bf_store b1) p" by (simp add: seen_file option.map_ident)
  show ?thesis
    unfolding fp_create_def b1_def [symmetric] b1(1) [symmetric] create_file_def unbuffered_can_create c
    using b1(2) set_file_same [OF b1(2,3)] by (simp add: Let_def)
qed

lemma reset_same:
  assumes inv: "bf_inv b"
  shows "unbuffered (fp_reset b) = storage_reset_internal_caches (unbuffered b) \<and> bf_inv (fp_reset b)"
proof -
  have "unbuffered (fp_reset b) = storage_reset_internal_caches (unbuffered (fp_close_all b))"
    by (simp add: fp_reset_def unbuffered_def storage_reset_internal_caches_def Let_def fp_close_all_def)
  moreover have "bf_inv (fp_reset b)" by (simp add: fp_reset_def fp_close_all_def bf_inv_def Let_def)
  ultimately show ?thesis
    using close_all_same [OF inv] by (simp add: storage_reset_internal_caches_def)
qed

section \<open>Runs\<close>

datatype file_op =
    Append_row string row
  | Read_file string
  | Rewrite_file "row \<Rightarrow> string option" string string schema
  | Create_file string
  | Spill string nat
  | Reset_caches

fun op_ok :: "file_op \<Rightarrow> bool" where
  "op_ok (Append_row p r) = is_csv p"
| "op_ok (Rewrite_file f p temp schema) = (is_csv p \<and> \<not> is_csv temp)"
| "op_ok _ = True"

text \<open>One operation with and without buffers: whether it succeeds, what a reader sees, and the state.\<close>

fun fp_step :: "file_op \<Rightarrow> buffered \<Rightarrow> (bool \<times> string option) \<times> buffered" where
  "fp_step (Append_row p r) b = (case fp_append_csv_row p r b of (ok, b') \<Rightarrow> ((ok, None), b'))"
| "fp_step (Read_file p) b = (case fp_read p b of (c, b') \<Rightarrow> ((True, c), b'))"
| "fp_step (Rewrite_file f p temp schema) b = (case fp_rewrite_table f p temp schema b of (ok, b') \<Rightarrow> ((ok, None), b'))"
| "fp_step (Create_file p) b = (case fp_create p b of (ok, b') \<Rightarrow> ((ok, None), b'))"
| "fp_step (Spill p n) b = ((True, None), fp_spill p n b)"
| "fp_step Reset_caches b = ((True, None), fp_reset b)"

fun file_step :: "file_op \<Rightarrow> storage \<Rightarrow> (bool \<times> string option) \<times> storage" where
  "file_step (Append_row p r) s = (case append_csv_row p r s of (ok, s') \<Rightarrow> ((ok, None), s'))"
| "file_step (Read_file p) s = ((True, st_files s p), s)"
| "file_step (Rewrite_file f p temp schema) s = (case rewrite_table f p temp schema s of (ok, s') \<Rightarrow> ((ok, None), s'))"
| "file_step (Create_file p) s = (case create_file p (storage_append_fp_invalidate p s) of (ok, s') \<Rightarrow> ((ok, None), s'))"
| "file_step (Spill p n) s = ((True, None), s)"
| "file_step Reset_caches s = ((True, None), storage_reset_internal_caches s)"

fun run_ops :: "('o \<Rightarrow> 's \<Rightarrow> 'r \<times> 's) \<Rightarrow> 'o list \<Rightarrow> 's \<Rightarrow> 'r list \<times> 's" where
  "run_ops step [] s = ([], s)"
| "run_ops step (x # xs) s =
     (case step x s of (r, s1) \<Rightarrow> case run_ops step xs s1 of (rs, s2) \<Rightarrow> (r # rs, s2))"

lemma fp_step_same:
  assumes "bf_inv b" "op_ok x"
  shows "fst (fp_step x b) = fst (file_step x (unbuffered b)) \<and>
    unbuffered (snd (fp_step x b)) = snd (file_step x (unbuffered b)) \<and> bf_inv (snd (fp_step x b))"
proof (cases x)
  case (Append_row p r)
  then show ?thesis using append_same [OF assms(1), of p r] assms(2) by (auto split: prod.splits)
next
  case (Read_file p)
  then show ?thesis using read_same [OF assms(1), of p] by (auto split: prod.splits)
next
  case (Rewrite_file f p temp schema)
  then show ?thesis using rewrite_same [OF assms(1), of temp p f schema] assms(2) by (auto split: prod.splits)
next
  case (Create_file p)
  then show ?thesis using create_same [OF assms(1), of p] by (auto split: prod.splits)
next
  case (Spill p n)
  then show ?thesis using spill_same [OF assms(1)] by simp
next
  case Reset_caches
  then show ?thesis using reset_same [OF assms(1)] by simp
qed

lemma fp_run_same:
  "bf_inv b \<Longrightarrow> list_all op_ok xs \<Longrightarrow>
   fst (run_ops fp_step xs b) = fst (run_ops file_step xs (unbuffered b)) \<and>
   unbuffered (snd (run_ops fp_step xs b)) = snd (run_ops file_step xs (unbuffered b))"
proof (induction xs arbitrary: b)
  case (Cons x xs)
  note st = fp_step_same [OF Cons.prems(1), of x]
  obtain r b1 where 1: "fp_step x b = (r, b1)" by (cases "fp_step x b")
  then have 2: "file_step x (unbuffered b) = (r, unbuffered b1)" "bf_inv b1"
    using st Cons.prems(2) by (cases "file_step x (unbuffered b)"; auto)+
  show ?case using Cons.IH [OF 2(2)] Cons.prems(2) by (simp add: 1 2 case_prod_beta)
qed simp

section \<open>When every append is flushed\<close>

text \<open>Without \<^verbatim>\<open>BULK_INSERT_MODE\<close> no text is held back between operations.\<close>

definition flushed :: "buffered \<Rightarrow> bool" where
  "flushed b \<longleftrightarrow> \<not> bf_lazy b \<and> all_written b"

lemma written_update: "list_all (\<lambda>h. snd h = []) hs \<Longrightarrow> list_all (\<lambda>h. snd h = []) (AList.update p [] hs)"
  by (induction hs) auto

lemma written_update_twice:
  "list_all (\<lambda>h. snd h = []) hs \<Longrightarrow> list_all (\<lambda>h. snd h = []) (AList.update p [] (AList.update p t hs))"
  by (induction hs) auto

lemma written_remove: "list_all (\<lambda>h. snd h = []) hs \<Longrightarrow> list_all (\<lambda>h. snd h = []) (remove_at i hs)"
  using remove_at_set [of i hs] by (auto simp: list_all_iff)

lemma written_pending: "list_all (\<lambda>h. snd h = []) hs \<Longrightarrow> map_of hs p = Some t \<Longrightarrow> t = []"
  by (force simp: list_all_iff dest: map_of_SomeD)

lemma flush_written: "flushed b \<Longrightarrow> flushed (fp_flush p b)"
  by (simp add: flushed_def all_written_def fp_flush_def written_update split: option.split)

lemma invalidate_written: "flushed b \<Longrightarrow> flushed (fp_invalidate p b)"
  by (simp add: flushed_def all_written_def fp_invalidate_def written_remove split: option.split)

lemma get_written: "flushed b \<Longrightarrow> flushed (snd (fp_get p b))"
  by (cases "bf_handles b") (auto simp: flushed_def all_written_def fp_get_def Let_def)

lemma append_written:
  assumes "flushed b"
  shows "flushed (snd (fp_append_csv_row p r b))"
  using get_written [OF assms, of p]
  by (auto simp: fp_append_csv_row_def flushed_def all_written_def Let_def fp_flush_def update_conv' written_update written_update_twice
      split: prod.split bool.split)

lemma replace_written: "flushed b \<Longrightarrow> flushed (fp_replace_table_file p temp b)"
  using invalidate_written [of b p] by (simp add: fp_replace_table_file_def Let_def flushed_def all_written_def)

lemma rewrite_written:
  assumes "flushed b"
  shows "flushed (snd (fp_rewrite_table f p temp schema b))"
proof -
  have store: "flushed (c\<lparr>bf_store := s\<rparr>) = flushed c" for c s by (simp add: flushed_def all_written_def)
  show ?thesis
    using assms
    by (auto simp: fp_rewrite_table_def fp_read_def Let_def store flush_written replace_written split: option.split)
qed

lemma create_written: "flushed b \<Longrightarrow> flushed (snd (fp_create p b))"
  using invalidate_written [of b p]
  by (auto simp: fp_create_def Let_def flushed_def all_written_def split: prod.split)

lemma spill_written:
  assumes "flushed b"
  shows "flushed (fp_spill p n b)"
proof (cases "map_of (bf_handles b) p")
  case (Some t)
  then have "t = []" using assms written_pending by (force simp: flushed_def all_written_def)
  then show ?thesis
    using assms Some by (simp add: fp_spill_def flushed_def all_written_def written_update)
qed (use assms in \<open>simp add: fp_spill_def\<close>)

lemma reset_written: "flushed b \<Longrightarrow> flushed (fp_reset b)"
  by (simp add: fp_reset_def fp_close_all_def flushed_def all_written_def Let_def)

lemma fp_step_written: "flushed b \<Longrightarrow> flushed (snd (fp_step x b))"
  by (cases x)
    (simp_all add: case_prod_beta fp_read_def Let_def append_written flush_written rewrite_written create_written
      spill_written reset_written)

lemma fp_run_written: "flushed b \<Longrightarrow> flushed (snd (run_ops fp_step xs b))"
proof (induction xs arbitrary: b)
  case (Cons x xs)
  then show ?case using fp_step_written [of b x] by (simp add: case_prod_beta)
qed simp

lemma flushed_files: "flushed b \<Longrightarrow> st_files (bf_store b) = st_files (unbuffered b)"
  by (rule ext)
    (auto simp: flushed_def all_written_def seen_file pending_def option.map_ident dest: written_pending split: option.split)

section \<open>Properties\<close>

text \<open>C6: the buffers of the append handles are not seen. For any sequence of appends, reads, rewrites and
  creations of table files and resets, with any part of a buffer written at any time, every operation
  succeeds exactly when the one without buffers does and every reader gets the same
  content. A file on disk holds a beginning of that content, and all of it unless
  \<^verbatim>\<open>BULK_INSERT_MODE\<close> is set.\<close>

theorem buffered_files_refine:
  assumes "bf_inv b" and "list_all op_ok ops"
  shows "fst (run_ops fp_step ops b) = fst (run_ops file_step ops (unbuffered b)) \<and>
    unbuffered (snd (run_ops fp_step ops b)) = snd (run_ops file_step ops (unbuffered b)) \<and>
    (if flushed b
     then st_files (bf_store (snd (run_ops fp_step ops b))) = st_files (snd (run_ops file_step ops (unbuffered b)))
     else \<forall>p. rel_option prefix (st_files (bf_store (snd (run_ops fp_step ops b))) p)
                                (st_files (snd (run_ops file_step ops (unbuffered b))) p))"
proof -
  note same = fp_run_same [OF assms]
  let ?b = "snd (run_ops fp_step ops b)"
  have "rel_option prefix (st_files (bf_store ?b) p) (st_files (unbuffered ?b) p)" for p
    by (cases "st_files (bf_store ?b) p") (simp_all add: seen_file)
  then show ?thesis
    using same fp_run_written [of b ops] flushed_files [of ?b] by auto
qed

text \<open>Two rows in bulk mode, of which one character is written early, and a reader.\<close>

definition bulk_store :: buffered where
  "bulk_store = \<lparr>bf_store = \<lparr>st_files = [''t.csv'' \<mapsto> []], st_dirs = [], st_append = [], st_schemas = [],
     st_paths = [], st_meta = [], st_rebuilt = [], st_index = []\<rparr>, bf_handles = [], bf_lazy = True\<rparr>"

definition bulk_ops :: "file_op list" where
  "bulk_ops = [Append_row ''t.csv'' [''1''], Append_row ''t.csv'' [''2''], Spill ''t.csv'' 1]"

theorem buffered_files_refine_witness:
  "st_files (bf_store (snd (run_ops fp_step bulk_ops bulk_store))) ''t.csv'' = Some ''1'' \<and>
   fst (run_ops fp_step (bulk_ops @ [Read_file ''t.csv'']) bulk_store) =
     fst (run_ops file_step (bulk_ops @ [Read_file ''t.csv'']) (unbuffered bulk_store))"
proof -
  have "st_files (bf_store (snd (run_ops fp_step bulk_ops bulk_store))) ''t.csv'' = Some ''1''"
    by code_simp
  moreover have "bf_inv bulk_store" by (simp add: bulk_store_def bf_inv_def)
  moreover have "list_all op_ok (bulk_ops @ [Read_file ''t.csv''])" by (simp add: bulk_ops_def is_csv_def)
  ultimately show ?thesis using buffered_files_refine [of bulk_store "bulk_ops @ [Read_file ''t.csv'']"] by blast
qed

end
