(* ===== verification/Pool_Metrics.thy ===== *)
theory Pool_Metrics
  imports Thread_Pool C_Double
begin

text \<open>
  What \<^verbatim>\<open>src/threadpool.c\<close> tells about a pool. Each of these functions reads one or two fields under the
  mutex of the pool.
\<close>

definition threadpool_get_utilization :: "'j threadpool \<Rightarrow> double" where
  "threadpool_get_utilization tp =
     (let cur_n = tp_n_workers tp; active = tp_active_workers tp;
          u = (if cur_n > 0 then d_div (d_int active) (d_int cur_n) else d_zero)
      in if d_less (d_int 1) u then d_int 1 else u)"

definition threadpool_active_workers :: "'j threadpool \<Rightarrow> int" where
  "threadpool_active_workers tp = tp_active_workers tp"

definition threadpool_queue_depth :: "'j threadpool \<Rightarrow> int" where
  "threadpool_queue_depth tp = tp_queue_depth tp"

definition threadpool_total_workers :: "'j threadpool \<Rightarrow> int" where
  "threadpool_total_workers tp = tp_n_workers tp"

definition threadpool_queue_max :: "'j threadpool \<Rightarrow> int" where
  "threadpool_queue_max tp = tp_queue_max tp"

definition threadpool_rejected_total :: "'j threadpool \<Rightarrow> 64 word" where
  "threadpool_rejected_total tp = tp_rejected_total tp"

lemma d_int_1: "d_int 1 = Finite_d False 1"
proof -
  have len: "bitlen 1 = 1" and q: "quotient_of 1 = (1, 1)" by code_simp+
  have "round_mag 1 = 1"
    by (simp add: round_mag_def exponent_of_def pow2_def half_even_def len q Let_def)
  then show ?thesis by (simp add: d_int_def double_of_long_def of_rat_d_def make_double_def pow2_def)
qed

lemma make_double_nonneg: "0 \<le> m \<Longrightarrow> \<not> d_less (make_double False m) d_zero"
  by (simp add: make_double_def Let_def d_zero_def round_mag_nonneg not_less)

text \<open>A shrunk pool can have more active workers than it counts; the answer still lies between 0 and 1.\<close>

lemma utilization_in_bounds:
  assumes "0 \<le> tp_active_workers tp"
  shows "\<not> d_less (threadpool_get_utilization tp) d_zero \<and> \<not> d_less (d_int 1) (threadpool_get_utilization tp)"
proof
  let ?u = "d_div (d_int (tp_active_workers tp)) (d_int (tp_n_workers tp))"
  have "\<not> d_less ?u d_zero" if "0 < tp_n_workers tp"
    using assms that round_mag_nonneg
    by (auto simp: d_int_def double_of_long_def of_rat_d_def make_double_def [of False "of_int _"] Let_def d_zero_def
        make_double_nonneg [unfolded d_zero_def] intro: make_double_nonneg [unfolded d_zero_def])
  then show "\<not> d_less (threadpool_get_utilization tp) d_zero"
    by (auto simp: threadpool_get_utilization_def Let_def d_int_1) (simp_all add: d_zero_def)
  show "\<not> d_less (d_int 1) (threadpool_get_utilization tp)"
    by (simp add: threadpool_get_utilization_def Let_def d_less_irrefl)
qed

text \<open>A bound on the queue that is already reached refuses the next job and counts it; 0 removes the bound.\<close>

lemma queue_max_refuses:
  assumes "\<not> tp_shutdown tp" "\<not> tp_submit_closed tp" "0 < m" "m \<le> tp_queue_depth tp"
  shows "fst (threadpool_submit (snd (threadpool_set_queue_max tp m)) job) = -1 \<and>
    threadpool_rejected_total (snd (threadpool_submit (snd (threadpool_set_queue_max tp m)) job)) = threadpool_rejected_total tp + 1"
  using assms by (simp add: threadpool_submit_def threadpool_set_queue_max_def threadpool_rejected_total_def)

lemma queue_max_zero_accepts:
  assumes "\<not> tp_shutdown tp" "\<not> tp_submit_closed tp"
  shows "fst (threadpool_submit (snd (threadpool_set_queue_max tp 0)) job) = 0"
  using assms by (simp add: threadpool_submit_def threadpool_set_queue_max_def)

end
