(* ===== verification/Bench_Report.thy ===== *)
theory Bench_Report
  imports Benchmark C_Double Buffers "HOL-Library.Monad_Syntax"
begin

text \<open>
  The report of \<^verbatim>\<open>bench/benchmark.c\<close>: the plain lines that the web server of the demo reads, and the
  three columns for a terminal, with the bars built by \<^verbatim>\<open>make_bar\<close> in a fixed array. Texts are
  UTF-8; those that are not ASCII are given by their code points. The readings of \<^verbatim>\<open>clock\<close>, the size of the
  terminal and the environment are parameters. No value stands for a write or a read outside of an
  array and for the conversion of a number that no \<^verbatim>\<open>int\<close> can hold.
\<close>

section \<open>Text\<close>

definition utf8_char :: "nat \<Rightarrow> string" where
  "utf8_char c =
     (if c < 0x80 then [char_of c]
      else if c < 0x800 then [char_of (0xC0 + c div 64), char_of (0x80 + c mod 64)]
      else if c < 0x10000 then [char_of (0xE0 + c div 4096), char_of (0x80 + c div 64 mod 64), char_of (0x80 + c mod 64)]
      else [char_of (0xF0 + c div 262144), char_of (0x80 + c div 4096 mod 64), char_of (0x80 + c div 64 mod 64),
            char_of (0x80 + c mod 64)])"

definition utf8 :: "nat list \<Rightarrow> string" where
  "utf8 cs = concat (map utf8_char cs)"

definition sgr :: "string \<Rightarrow> string" where
  "sgr s = CHR 0x1B # CHR ''['' # s @ ''m''"

definition c_reset :: string where "c_reset = sgr ''0''"
definition c_bold :: string where "c_bold = sgr ''1''"
definition c_dim :: string where "c_dim = sgr ''2''"
definition c_rev :: string where "c_rev = sgr ''7''"
definition c_red :: string where "c_red = sgr ''31''"
definition c_white :: string where "c_white = sgr ''37''"
definition c_bred :: string where "c_bred = sgr ''1;31''"

text \<open>The columns a text is taken to need. A character whose bytes are cut off is read past the end.\<close>

function visible_width :: "string \<Rightarrow> nat option" where
  "visible_width [] = Some 0"
| "visible_width (c # cs) =
     (if c = CHR 0x1B then visible_width (drop 1 (dropWhile (\<lambda>x. x \<noteq> CHR ''m'') cs))
      else let b = code_of c in
        if b < 0x80 then map_option Suc (visible_width cs)
        else if b div 32 = 6 then (if length cs < 1 then None else map_option Suc (visible_width (drop 1 cs)))
        else if b div 16 = 14 then (if length cs < 2 then None else map_option (\<lambda>w. w + 2) (visible_width (drop 2 cs)))
        else if b div 8 = 30 then (if length cs < 3 then None else map_option (\<lambda>w. w + 2) (visible_width (drop 3 cs)))
        else visible_width cs)"
  by pat_completeness auto

termination
  by (relation "measure length") (auto simp: less_Suc_eq_le intro: le_trans [OF diff_le_self length_dropWhile_le])

definition print_padded :: "string \<Rightarrow> int \<Rightarrow> string option" where
  "print_padded s width =
     map_option (\<lambda>vw. s @ replicate (nat (width - int vw)) (CHR '' '')) (visible_width s)"

definition print_centered :: "int \<Rightarrow> string \<Rightarrow> string \<Rightarrow> string option" where
  "print_centered total_w s color =
     map_option (\<lambda>w. replicate (nat ((total_w - int w) div 2)) (CHR '' '') @ color @ s @ c_reset @ [CHR 0x0A])
       (visible_width s)"

definition hr :: "int \<Rightarrow> bool \<Rightarrow> string" where
  "hr total_w heavy = utf8 (replicate (nat total_w) (if heavy then 0x2501 else 0x2500)) @ [CHR 0x0A]"

section \<open>Numbers\<close>

text \<open>The conversion to \<^verbatim>\<open>int\<close> drops the fraction.\<close>

fun int_of_double :: "double \<Rightarrow> int option" where
  "int_of_double (Finite_d neg m) =
     (let n = (if neg then - \<lfloor>m\<rfloor> else \<lfloor>m\<rfloor>) in if int_min \<le> n \<and> n \<le> int_max then Some n else None)"
| "int_of_double _ = None"

text \<open>\<^verbatim>\<open>"%.kf"\<close>.\<close>

fun show_f :: "nat \<Rightarrow> double \<Rightarrow> string" where
  "show_f k (Finite_d neg m) = (if neg then ''-'' else []) @ show_fixed k (nat (half_even (m * 10 ^ k)))"
| "show_f k d = show_double2 d"

definition clock_ms :: "int \<Rightarrow> int \<Rightarrow> double" where
  "clock_ms t0 t1 = d_mul (d_div (d_int (t1 - t0)) (d_int 1000000)) (d_int 1000)"

definition atof :: "string \<Rightarrow> double" where
  "atof s = (case strtod s of None \<Rightarrow> d_zero | Some (d, _, _) \<Rightarrow> d)"

section \<open>Bars\<close>

text \<open>\<^verbatim>\<open>snprintf(dst + off, dstsz - off, ...)\<close>: the size is a \<^verbatim>\<open>size_t\<close>, so an offset past the end makes it huge.\<close>

definition snprintf_at :: "char list \<Rightarrow> nat \<Rightarrow> string \<Rightarrow> (char list \<times> nat) option" where
  "snprintf_at dst off t =
     (let sz = (int (length dst) - int off) mod 2 ^ 64
      in if sz = 0 then Some (dst, off + length t)
         else map_option (\<lambda>d. (d, off + length t)) (memcpy off (take (nat (sz - 1)) t @ [CHR 0x00]) dst))"

fun bar_loop :: "nat \<Rightarrow> char list \<Rightarrow> nat \<Rightarrow> (char list \<times> nat) option" where
  "bar_loop 0 dst off = Some (dst, off)"
| "bar_loop (Suc n) dst off =
     (if off + 4 < length dst
      then (case snprintf_at dst off (utf8 [0x2588]) of None \<Rightarrow> None | Some (d, off1) \<Rightarrow> bar_loop n d off1)
      else Some (dst, off))"

definition make_bar :: "char list \<Rightarrow> string \<Rightarrow> int \<Rightarrow> string option \<Rightarrow> char list option" where
  "make_bar dst color n suffix_dim = do {
     (d0, off0) \<leftarrow> snprintf_at dst 0 color;
     (d1, off1) \<leftarrow> bar_loop (nat n) d0 off0;
     (d2, off2) \<leftarrow> snprintf_at d1 off1 c_reset;
     (d3, off3) \<leftarrow> (case suffix_dim of None \<Rightarrow> Some (d2, off2) | Some s \<Rightarrow> snprintf_at d2 off2 (c_dim @ s @ c_reset));
     store (length dst - 1) (CHR 0x00) d3 }"

definition c_string :: "char list \<Rightarrow> string" where
  "c_string = takeWhile (\<lambda>c. c \<noteq> CHR 0x00)"

fun d_not_pos :: "double \<Rightarrow> bool" where
  "d_not_pos (Finite_d neg m) \<longleftrightarrow> neg \<or> m = 0"
| "d_not_pos (Infinite_d neg) \<longleftrightarrow> neg"
| "d_not_pos NaN_d \<longleftrightarrow> False"

definition compute_bar_len :: "double \<Rightarrow> double \<Rightarrow> int \<Rightarrow> int option" where
  "compute_bar_len v max_v bar_max =
     (if d_not_pos max_v \<or> bar_max < 1 then Some 0
      else map_option (\<lambda>n0. let n = (if n0 < 1 \<and> d_less d_zero v then 1 else n0) in if n > bar_max then bar_max else n)
             (int_of_double (d_mul (d_div v max_v) (d_int bar_max))))"

section \<open>Cards\<close>

text \<open>The three columns \<^verbatim>\<open>g_col\<close>: at most 64 lines each, of at most 511 bytes.\<close>

type_synonym columns = "string list list"

definition add_line :: "nat \<Rightarrow> string \<Rightarrow> columns \<Rightarrow> columns" where
  "add_line c t cols = (if length (cols ! c) \<ge> 64 then cols else cols[c := cols ! c @ [take 511 t]])"

definition add_lines :: "nat \<Rightarrow> string list \<Rightarrow> columns \<Rightarrow> columns" where
  "add_lines c ts cols = foldl (\<lambda>cols t. add_line c t cols) cols ts"

definition bar_space :: "int \<Rightarrow> int" where
  "bar_space col_w = (if col_w - 14 < 10 then 10 else col_w - 14)"

text \<open>\<open>mem\<close> is what the uninitialised arrays of the bars hold.\<close>

definition two_bars :: "(nat \<Rightarrow> char) \<Rightarrow> double \<Rightarrow> double \<Rightarrow> int \<Rightarrow> string \<Rightarrow> string \<Rightarrow> (string \<times> string) option" where
  "two_bars mem lin idx bar_max buf1 buf2 = do {
     blin \<leftarrow> compute_bar_len lin lin bar_max;
     bidx \<leftarrow> compute_bar_len idx lin bar_max;
     bar1 \<leftarrow> make_bar (map mem [0..<512]) c_red blin (Some buf1);
     bar2 \<leftarrow> make_bar (map mem [0..<512]) c_white bidx (Some buf2);
     Some (c_string bar1, c_string bar2) }"

definition build_sql_card :: "(nat \<Rightarrow> char) \<Rightarrow> nat \<Rightarrow> int \<Rightarrow> double \<Rightarrow> double \<Rightarrow> bool \<Rightarrow> columns \<Rightarrow> columns option" where
  "build_sql_card mem col col_w sql_idx_ms sql_lin_ms near_zero cols =
     (let bar_max = bar_space col_w;
          cols1 = add_lines col
            [c_bold @ utf8 [0x2460] @ '' SQL END-TO-END'' @ c_reset,
             c_dim @ ''/api/compare '' @ utf8 [0xB7] @ '' subprocess'' @ c_reset,
             c_dim @ ''ensure_index rebuild '' @ utf8 [0xD3EC, 0xD568] @ c_reset,
             []] cols
      in if d_less d_zero sql_idx_ms \<and> d_less d_zero sql_lin_ms
         then map_option (\<lambda>(bar1, bar2). add_lines col
            [''  '' @ c_red @ utf8 [0xC120, 0xD615] @ '' (status)'' @ c_reset,
             ''  '' @ bar1,
             ''  '' @ c_white @ utf8 [0xC778, 0xB371, 0xC2A4] @ '' (BETWEEN)'' @ c_reset,
             ''  '' @ bar2,
             [],
             (if near_zero
              then ''  '' @ c_bred @ utf8 [0xCE21, 0xC815, 0xBD88, 0xAC00] @ '' (< 1'' @ utf8 [0x3BC] @ ''s)'' @ c_reset
              else ''  '' @ c_bred @ show_f 1 (d_div sql_lin_ms sql_idx_ms) @ utf8 [0xD7] @ c_reset @ '' '' @ utf8 [0xB2E8, 0xCD95]),
             ''  '' @ c_dim @ utf8 [0xC778, 0xB371, 0xC2A4] @ '' '' @ show_f 2 sql_idx_ms @ ''ms '' @ utf8 [0xB7] @ '' '' @
               utf8 [0xC120, 0xD615] @ '' '' @ show_f 2 sql_lin_ms @ ''ms'' @ c_reset] cols1)
            (two_bars mem sql_lin_ms sql_idx_ms bar_max
              (take 63 (''  '' @ show_f 1 sql_lin_ms @ ''ms'')) (take 63 (''  '' @ show_f 1 sql_idx_ms @ ''ms'')))
         else Some (add_lines col
            [''  '' @ c_dim @ ''('' @ utf8 [0xCE21, 0xC815, 0x20, 0xAC12, 0x20, 0xBBF8, 0xC8FC, 0xC785] @ '')'' @ c_reset,
             [],
             ''  '' @ c_rev @ '' BENCH_SQL_INDEX_MS '' @ c_reset,
             ''  '' @ c_rev @ '' BENCH_SQL_LINEAR_MS '' @ c_reset,
             ''  '' @ c_dim @ utf8 [0xD658, 0xACBD, 0xBCC0, 0xC218, 0xB85C, 0x20, 0xC8FC, 0xC785, 0xD558, 0xAC70, 0xB098] @ c_reset,
             ''  '' @ c_dim @ utf8 [0xC6F9] @ '' UI /api/compare'' @ c_reset,
             ''  '' @ c_dim @ utf8 [0xACB0, 0xACFC, 0xB97C, 0x20, 0xBCF5, 0xC0AC, 0xD574, 0xC11C, 0x20, 0xC0AC, 0xC6A9] @ ''.'' @ c_reset]
            cols1))"

text \<open>The metrics with their times.\<close>

record timed = metrics +
  tm_insert_ms :: double
  tm_search_ms :: double
  tm_range_ms :: double
  tm_linear_ms :: double
  tm_index_ms :: double

text \<open>The ten readings of \<^verbatim>\<open>clock\<close>, before and after each measurement.\<close>

definition with_times :: "(nat \<Rightarrow> int) \<Rightarrow> metrics \<Rightarrow> timed" where
  "with_times clock m = metrics.extend m
     \<lparr>tm_insert_ms = clock_ms (clock 0) (clock 1), tm_search_ms = clock_ms (clock 2) (clock 3),
      tm_range_ms = clock_ms (clock 4) (clock 5), tm_linear_ms = clock_ms (clock 6) (clock 7),
      tm_index_ms = clock_ms (clock 8) (clock 9)\<rparr>"

definition near_zero :: "timed \<Rightarrow> bool" where
  "near_zero m \<longleftrightarrow> d_less (tm_index_ms m) (of_rat_d (1 / 1000))"

definition build_bench_card :: "(nat \<Rightarrow> char) \<Rightarrow> nat \<Rightarrow> int \<Rightarrow> timed \<Rightarrow> columns \<Rightarrow> columns option" where
  "build_bench_card mem col col_w m cols =
     (let bar_max = bar_space col_w; cm = int (mt_compare_m m);
          cols1 = add_lines col
            [c_bold @ utf8 [0x2461] @ '' '' @ utf8 [0xC790, 0xB8CC, 0xAD6C, 0xC870, 0x20, 0xC21C, 0xC218] @ c_reset,
             c_dim @ ''make bench '' @ utf8 [0xB7] @ '' bptree_search'' @ c_reset,
             c_dim @ utf8 [0xC778] @ ''-'' @ utf8 [0xD504, 0xB85C, 0xC138, 0xC2A4, 0x20, 0xD638, 0xCD9C, 0xB9CC] @ c_reset,
             []] cols;
          per_index = (if cm > 0 then d_div (tm_index_ms m) (d_int cm) else d_zero);
          per_linear = (if cm > 0 then d_div (tm_linear_ms m) (d_int cm) else d_zero)
      in map_option (\<lambda>(bar1, bar2). add_lines col
            ([''  '' @ c_red @ utf8 [0xC120, 0xD615] @ '' flat array'' @ c_reset,
              ''  '' @ bar1,
              ''  '' @ c_white @ ''bptree_search'' @ c_reset,
              ''  '' @ bar2,
              []] @
             (if near_zero m
              then [''  '' @ c_bred @ utf8 [0xCE21, 0xC815, 0xBD88, 0xAC00] @ '' (< 1'' @ utf8 [0x3BC] @ ''s)'' @ c_reset,
                    ''  '' @ c_dim @ ''M='' @ show_int cm @ '' '' @ utf8 [0xD68C, 0xB294] @ '' index '' @
                      utf8 [0xAC00, 0x20, 0xB108, 0xBB34, 0x20, 0xBE68, 0xB77C] @ '' clock() '' @
                      utf8 [0xD574, 0xC0C1, 0xB3C4, 0x20, 0xBBF8, 0xB9CC] @ ''.'' @ c_reset]
              else [''  '' @ c_bred @ show_f 0 (d_div (tm_linear_ms m) (tm_index_ms m)) @ utf8 [0xD7] @ c_reset @ '' '' @
                      utf8 [0xB2E8, 0xCD95]]) @
             [''  '' @ c_dim @ ''per query: '' @ show_f 4 per_index @ ''ms '' @ utf8 [0xB7] @ '' '' @ show_f 4 per_linear @ ''ms'' @ c_reset,
              ''  '' @ c_dim @ ''N='' @ show_int (int (mt_n m)) @ '' '' @ utf8 [0xB7] @ '' M='' @ show_int cm @ c_reset]) cols1)
          (two_bars mem (tm_linear_ms m) (tm_index_ms m) bar_max
            (take 63 (''  '' @ show_f 2 (tm_linear_ms m) @ ''ms''))
            (take 63 (if near_zero m then ''  < 0.01ms'' else ''  '' @ show_f 2 (tm_index_ms m) @ ''ms''))))"

definition build_why_card :: "nat \<Rightarrow> columns \<Rightarrow> columns" where
  "build_why_card col = add_lines col
     [c_bred @ utf8 [0x2462] @ '' '' @ utf8 [0xB450, 0x20, 0xBC30, 0xC728, 0xC774, 0x20, 0xB2E4, 0xB978, 0x20, 0xC774, 0xC720] @ c_reset,
      c_dim @ utf8 [0x2460] @ '' '' @ utf8 [0xC5D0, 0x20, 0xD3EC, 0xD568, 0xB41C, 0x20, 0xACE0, 0xC815, 0xBE44] @ '':'' @ c_reset,
      [],
      utf8 [0x2022] @ '' '' @ c_rev @ '' subprocess '' @ c_reset,
      ''  fork + exec'',
      utf8 [0x2022] @ '' '' @ c_rev @ '' SQL '' @ utf8 [0xD30C, 0xC2F1] @ '' '' @ c_reset,
      ''  tokenize + AST'',
      utf8 [0x2022] @ '' '' @ c_rev @ '' ensure_index rebuild '' @ c_reset,
      ''  ~1.8s / call'',
      utf8 [0x2022] @ '' '' @ c_rev @ '' '' @ utf8 [0xD30C, 0xC77C] @ '' I/O '' @ c_reset,
      ''  CSV / BIN '' @ utf8 [0xC77D, 0xAE30],
      [],
      c_dim @ ''PostgreSQL '' @ utf8 [0xAC19, 0xC740] @ c_reset,
      c_dim @ utf8 [0xC601, 0xC18D, 0x20, 0xB370, 0xBAAC, 0xC774, 0xBA74] @ c_reset,
      c_dim @ ''rebuild '' @ utf8 [0xAC00, 0x20, 0xC0AC, 0xB77C, 0xC838] @ c_reset,
      c_dim @ utf8 [0x2460] @ '' '' @ utf8 [0xC774] @ '' '' @ utf8 [0x2461] @ '' '' @ utf8 [0xC5D0, 0x20, 0xC218, 0xB834] @ ''.'' @ c_reset]"

section \<open>The report\<close>

definition rate :: "nat \<Rightarrow> double \<Rightarrow> double" where
  "rate n ms = (if d_less d_zero ms then d_div (d_int (int n)) (d_div ms (d_int 1000)) else d_zero)"

text \<open>The lines for a program to read.\<close>

definition plain_lines :: "timed \<Rightarrow> string list" where
  "plain_lines m =
     (let s = (\<lambda>ms. d_div ms (d_int 1000)); num = (\<lambda>k. show_int (int k));
          linear_s = s (tm_linear_ms m); index_s = s (tm_index_ms m);
          qps = (\<lambda>x. if d_less d_zero x then d_div (d_int (int (mt_compare_m m))) x else d_zero)
      in [''INSERT  '' @ num (mt_n m) @ '' '' @ utf8 [0xAC74] @ ''  |  '' @ show_f 3 (s (tm_insert_ms m)) @ '' s  |  '' @
            show_f 0 (rate (mt_n m) (tm_insert_ms m)) @ '' ops/s'',
          ''SEARCH  '' @ num (mt_n m) @ '' '' @ utf8 [0xAC74] @ ''  |  '' @ show_f 3 (s (tm_search_ms m)) @ '' s  |  '' @
            show_f 0 (rate (mt_n m) (tm_search_ms m)) @ '' ops/s  (found '' @ num (mt_search_found m) @ '')'',
          ''RANGE   '' @ num (mt_range_queries m) @ '' '' @ utf8 [0xD68C] @ '' ('' @ utf8 [0xD3ED] @ '' 100)  |  '' @
            show_f 3 (s (tm_range_ms m)) @ '' s  |  '' @ show_f 0 (rate (mt_range_queries m) (tm_range_ms m)) @
            '' qps  (total hits '' @ num (mt_range_found m) @ '')'',
          ''VERIFY  '' @ num (mt_verify_ok m) @ '' / '' @ num (mt_n m) @ '' '' @ utf8 [0xAC74, 0x20, 0xC870, 0xD68C, 0x20, 0xC131, 0xACF5] @
            '' ('' @ show_f 1 (d_div (d_mul (d_int 100) (d_int (int (mt_verify_ok m)))) (d_int (int (mt_n m)))) @ ''%)'',
          ''LINEAR  '' @ show_f 3 linear_s @ '' s  |  '' @ show_f 0 (qps linear_s) @ '' qps  (hits '' @ num (mt_linear_hits m) @ '')'',
          ''INDEX   '' @ show_f 3 index_s @ '' s  |  '' @ show_f 0 (qps index_s) @ '' qps  (hits '' @ num (mt_index_hits m) @ '')'',
          (if d_less d_zero index_s then ''SPEEDUP '' @ show_f 1 (d_div linear_s index_s) @ '' x  (linear / index)''
           else ''SPEEDUP '' @ utf8 [0xCE21, 0xC815, 0xBD88, 0xAC00] @ '' ('' @ utf8 [0xC778, 0xB371, 0xC2A4] @ '' < 1us)''),
          []])"

text \<open>The width of a terminal, when the output is one, and of a column.\<close>

definition get_term_width :: "int option \<Rightarrow> int" where
  "get_term_width ws = (case ws of Some col \<Rightarrow> if col > 60 then col else 120 | None \<Rightarrow> 120)"

definition term_width :: "int option \<Rightarrow> int" where
  "term_width ws = (if get_term_width ws < 80 then 80 else get_term_width ws)"

definition column_width :: "int \<Rightarrow> int" where
  "column_width term_w = (let w = (term_w - 4) div 3 in if w < 26 then 26 else w)"

definition separator :: string where
  "separator = '' '' @ c_dim @ utf8 [0x2502] @ c_reset @ '' ''"

definition cell :: "columns \<Rightarrow> nat \<Rightarrow> nat \<Rightarrow> string" where
  "cell cols c i = (if i < length (cols ! c) then cols ! c ! i else [])"

definition row_line :: "int \<Rightarrow> string \<Rightarrow> string \<Rightarrow> string \<Rightarrow> string option" where
  "row_line col_w a b c = do {
     pa \<leftarrow> print_padded a col_w;
     pb \<leftarrow> print_padded b col_w;
     pc \<leftarrow> print_padded c col_w;
     Some (pa @ separator @ pb @ separator @ pc) }"

fun rows_text :: "int \<Rightarrow> columns \<Rightarrow> nat list \<Rightarrow> string option" where
  "rows_text col_w cols [] = Some []"
| "rows_text col_w cols (i # is) = do {
     l \<leftarrow> row_line col_w (cell cols 0 i) (cell cols 1 i) (cell cols 2 i);
     rest \<leftarrow> rows_text col_w cols is;
     Some (l @ [CHR 0x0A] @ rest) }"

definition footer :: "int \<Rightarrow> timed \<Rightarrow> string option" where
  "footer term_w m =
     (let mega = (\<lambda>r. show_f 2 (d_div r (d_int 1000000))); dot = ''  '' @ utf8 [0xB7] @ ''  '';
          line = take 511
            (c_bold @ ''INSERT '' @ c_reset @ c_white @ mega (rate (mt_n m) (tm_insert_ms m)) @ ''M ops/s'' @ c_reset @
             dot @ c_bold @ ''SEARCH '' @ c_reset @ c_white @ mega (rate (mt_n m) (tm_search_ms m)) @ ''M ops/s'' @ c_reset @
             dot @ c_bold @ ''RANGE '' @ c_reset @ c_white @ mega (rate (mt_range_queries m) (tm_range_ms m)) @ ''M qps'' @ c_reset @
             dot @ c_bold @ ''VERIFY '' @ c_reset @ show_int (int (mt_verify_ok m)) @ ''/'' @ show_int (int (mt_n m)))
      in map_option (\<lambda>w. replicate (nat ((term_w - int w) div 2)) (CHR '' '') @ line @ [CHR 0x0A]) (visible_width line))"

definition report :: "(string \<Rightarrow> string option) \<Rightarrow> (nat \<Rightarrow> char) \<Rightarrow> int option \<Rightarrow> timed \<Rightarrow> string option" where
  "report getenv mem ws m =
     (let term_w = term_width ws; col_w = column_width term_w;
          env = (\<lambda>name. case getenv name of None \<Rightarrow> d_zero | Some s \<Rightarrow> atof s);
          sub = take 255 (''N='' @ show_int (int (mt_n m)) @ ''  '' @ utf8 [0xB7] @ ''  order='' @ show_int (mt_order m) @ ''  '' @
            utf8 [0xB7] @ ''  compare M='' @ show_int (int (mt_compare_m m)) @ ''  '' @ utf8 [0xB7] @ ''  seed='' @ show_int (mt_seed m))
      in do {
        title \<leftarrow> print_centered term_w (''B+ TREE BENCHMARK  '' @ utf8 [0xB7] @ ''  '' @ utf8 [0xC120, 0xD615] @ '' vs '' @
          utf8 [0xC778, 0xB371, 0xC2A4]) c_bold;
        subtitle \<leftarrow> print_centered term_w sub c_dim;
        cols1 \<leftarrow> build_sql_card mem 0 col_w (env ''BENCH_SQL_INDEX_MS'') (env ''BENCH_SQL_LINEAR_MS'') False [[], [], []];
        cols2 \<leftarrow> build_bench_card mem 1 col_w m cols1;
        (let cols = build_why_card 2 cols2;
             max_lines = max (max (length (cols ! 0)) (length (cols ! 1))) (length (cols ! 2))
         in do {
           rows \<leftarrow> rows_text col_w cols [0..<max_lines];
           foot \<leftarrow> footer term_w m;
           Some (concat (map (\<lambda>l. l @ [CHR 0x0A]) (plain_lines m)) @ hr term_w True @ title @ subtitle @ hr term_w False @
             rows @ hr term_w False @ foot @ hr term_w True) }) })"

section \<open>The width of a text\<close>

text \<open>A text of closed sequences and complete characters adds a fixed width to what follows.\<close>

definition closed_text :: "string \<Rightarrow> nat \<Rightarrow> bool" where
  "closed_text s w \<longleftrightarrow> (\<forall>t. visible_width (s @ t) = map_option (\<lambda>v. w + v) (visible_width t))"

definition cp_width :: "nat \<Rightarrow> nat" where
  "cp_width c = (if c < 0x800 then 1 else 2)"

lemma closed_width: "closed_text s w \<Longrightarrow> visible_width s = Some w"
  using spec [of "\<lambda>t. visible_width (s @ t) = map_option (\<lambda>v. w + v) (visible_width t)" "[]"]
  by (simp add: closed_text_def)

lemma closed_Nil [simp]: "closed_text [] 0"
  by (simp add: closed_text_def option.map_ident)

lemma closed_append: "closed_text a v \<Longrightarrow> closed_text b w \<Longrightarrow> closed_text (a @ b) (v + w)"
  by (simp add: closed_text_def option.map_comp o_def add.assoc)

lemma closed_sgr:
  assumes "CHR ''m'' \<notin> set s"
  shows "closed_text (sgr s) 0"
proof -
  have "dropWhile (\<lambda>x. x \<noteq> CHR ''m'') (CHR ''['' # s @ CHR ''m'' # t) = CHR ''m'' # t" for t
    using assms by (induction s) auto
  then show ?thesis by (simp add: closed_text_def sgr_def option.map_ident)
qed

lemma code_not_esc: "code_of c \<noteq> 27 \<Longrightarrow> c \<noteq> CHR 0x1B"
  by auto

lemma closed_utf8_char:
  assumes "c < 0x110000" "c \<noteq> 0x1B"
  shows "closed_text (utf8_char c) (cp_width c)"
proof -
  consider "c < 0x80" | "0x80 \<le> c" "c < 0x800" | "0x800 \<le> c" "c < 0x10000" | "0x10000 \<le> c" by linarith
  then show ?thesis
  proof cases
    case 1
    then have "code_of (char_of c :: char) = c" by simp
    then show ?thesis
      using 1 assms(2) code_not_esc [of "char_of c"]
      by (simp add: closed_text_def utf8_char_def cp_width_def)
  next
    case 2
    let ?b = "0xC0 + c div 64"
    have "?b < 256" "?b div 32 = 6" using 2 by (simp_all add: div_add1_eq) 
    then show ?thesis
      using 2 code_not_esc [of "char_of ?b"]
      by (simp add: closed_text_def utf8_char_def cp_width_def Let_def)
  next
    case 3
    let ?b = "0xE0 + c div 4096"
    have "c div 4096 < 16" using 3 by simp
    then have "?b < 256" "?b div 32 \<noteq> 6" "?b div 16 = 14" by simp_all
    then show ?thesis
      using 3 code_not_esc [of "char_of ?b"]
      by (simp add: closed_text_def utf8_char_def cp_width_def Let_def)
  next
    case 4
    let ?b = "0xF0 + c div 262144"
    have "c div 262144 < 8" using assms(1) by simp
    then have "?b < 256" "?b div 32 \<noteq> 6" "?b div 16 \<noteq> 14" "?b div 8 = 30" by simp_all
    then show ?thesis
      using 4 code_not_esc [of "char_of ?b"]
      by (simp add: closed_text_def utf8_char_def cp_width_def Let_def numeral_3_eq_3)
  qed
qed

lemma closed_utf8:
  "list_all (\<lambda>c. c < 0x110000 \<and> c \<noteq> 0x1B) cs \<Longrightarrow> closed_text (utf8 cs) (sum_list (map cp_width cs))"
proof (induction cs)
  case (Cons c cs)
  then show ?case using closed_append [OF closed_utf8_char [of c]] by (simp add: utf8_def)
qed (simp add: utf8_def)

lemma closed_spaces: "closed_text (replicate n (CHR '' '')) n"
proof (induction n)
  case (Suc n)
  have "closed_text [CHR '' ''] 1" by (simp add: closed_text_def)
  then show ?case using closed_append [OF _ Suc] by fastforce
qed simp

lemma padded:
  assumes "closed_text s w" "int w \<le> width"
  shows "\<exists>t. print_padded s width = Some t \<and> closed_text t (nat width)"
  using assms closed_append [OF assms(1) closed_spaces [of "nat (width - int w)"]]
  by (simp add: print_padded_def closed_width nat_diff_distrib')

lemma closed_separator: "closed_text separator 4"
proof -
  have "closed_text ('' '' @ c_dim @ utf8 [0x2502] @ c_reset @ '' '') (1 + (0 + (2 + (0 + 1))))"
    unfolding c_dim_def c_reset_def
    using closed_spaces [of 1] closed_utf8 [of "[0x2502]"]
    by (intro closed_append closed_sgr) (simp_all add: cp_width_def)
  then show ?thesis by (simp add: separator_def)
qed

text \<open>Cells that fit their column make a row of three columns and two separators of width 4 each.\<close>

lemma row_width:
  assumes "closed_text a u" "closed_text b v" "closed_text c w" "int u \<le> col_w" "int v \<le> col_w" "int w \<le> col_w"
  shows "\<exists>l. row_line col_w a b c = Some l \<and> visible_width l = Some (nat (3 * col_w + 8))"
proof -
  obtain pa pb pc where p: "print_padded a col_w = Some pa" "closed_text pa (nat col_w)"
    "print_padded b col_w = Some pb" "closed_text pb (nat col_w)" "print_padded c col_w = Some pc" "closed_text pc (nat col_w)"
    using padded [OF assms(1,4)] padded [OF assms(2,5)] padded [OF assms(3,6)] by blast
  have "closed_text (pa @ separator @ pb @ separator @ pc) (nat col_w + (4 + (nat col_w + (4 + nat col_w))))"
    by (intro closed_append closed_separator p)
  then have "visible_width (pa @ separator @ pb @ separator @ pc) = Some (nat (3 * col_w + 8))"
    using closed_width assms(4) by (simp add: nat_add_distrib nat_mult_distrib)
  then show ?thesis by (simp add: row_line_def p)
qed

text \<open>The rows are wider than the terminal they are made for.\<close>

lemma row_wider_than_terminal: "80 \<le> t \<Longrightarrow> t < 3 * column_width t + 8"
  unfolding column_width_def Let_def by presburger

section \<open>The bars\<close>

lemma block_char: "utf8 [0x2588] = [CHR 0xE2, CHR 0x96, CHR 0x88]"
  by (simp add: utf8_def utf8_char_def char_of_eq_iff)

lemma snprintf_inside:
  fixes dst t :: string
  assumes "off < length dst" "length dst < 2 ^ 64"
  defines "w \<equiv> take (length dst - off - 1) t"
  shows "\<exists>d. snprintf_at dst off t = Some (d, off + length t) \<and> length d = length dst \<and>
    take (off + length w + 1) d = take off dst @ w @ [CHR 0x00]"
proof -
  have sz: "(int (length dst) - int off) mod 2 ^ 64 = int (length dst) - int off"
    using assms by (intro mod_pos_pos_trivial) auto
  have n: "nat (int (length dst) - int off - 1) = length dst - off - 1" using assms(1) by simp
  have "length w \<le> length dst - off - 1" by (simp add: w_def)
  then obtain d where d: "memcpy off (w @ [CHR 0x00]) dst = Some d"
    using assms(1) unfolding memcpy_def by fastforce
  have "snprintf_at dst off t = Some (d, off + length t)"
    using assms(1) unfolding snprintf_at_def sz Let_def n w_def [symmetric] by (simp add: d)
  then show ?thesis using memcpy_take [OF d] by (simp add: add.assoc)
qed

lemma snprintf_short:
  fixes dst t :: string
  assumes "off + length t < length dst" "length dst < 2 ^ 64"
  obtains d where "snprintf_at dst off t = Some (d, off + length t)" "length d = length dst"
    "take (off + length t + 1) d = take off dst @ t @ [CHR 0x00]"
proof -
  have all: "take (length dst - off - 1) t = t" using assms(1) by simp
  have "off < length dst" using assms(1) by simp
  from snprintf_inside [OF this assms(2), of t] show thesis unfolding all using that by blast
qed

lemma snprintf_outside:
  assumes "length dst < off" "off < 2 ^ 63"
  shows "snprintf_at dst off t = None"
proof -
  have "(int (length dst) - int off) mod 2 ^ 64 = (int (length dst) - int off + 2 ^ 64) mod 2 ^ 64"
    by simp
  also have "\<dots> = int (length dst) - int off + 2 ^ 64"
    using assms by (intro mod_pos_pos_trivial) auto
  finally have sz: "(int (length dst) - int off) mod 2 ^ 64 = int (length dst) - int off + 2 ^ 64" .
  have "int (length dst) - int off + 2 ^ 64 \<noteq> 0" using assms(2) by simp
  then show ?thesis unfolding snprintf_at_def sz Let_def using assms(1) by (simp add: memcpy_def)
qed

text \<open>The loop stops when fewer than four bytes are left, which is after 168 blocks.\<close>

lemma bar_loop_ends:
  "off mod 3 = 2 \<Longrightarrow> off \<le> 509 \<Longrightarrow> length dst = 512 \<Longrightarrow>
   \<exists>d. bar_loop n dst off = Some (d, min (off + 3 * n) 509) \<and> length d = 512 \<and>
     (off + 3 * n \<le> 509 \<longrightarrow> take (off + 3 * n) d = take off dst @ utf8 (replicate n 0x2588))"
proof (induction n arbitrary: dst off)
  case 0
  then show ?case by (simp add: utf8_def)
next
  case (Suc n)
  show ?case
  proof (cases "off + 4 < 512")
    case True
    have off: "off + 3 \<le> 509" using True Suc.prems(1) by presburger
    have len: "length (utf8 [0x2588]) = 3" by (simp add: block_char)
    obtain d where d: "snprintf_at dst off (utf8 [0x2588]) = Some (d, off + 3)" "length d = 512"
      "take (off + 3 + 1) d = take off dst @ utf8 [0x2588] @ [CHR 0x00]"
      by (rule snprintf_short [of off "utf8 [0x2588]" dst, unfolded len]) (use off Suc.prems(3) in auto)
    have "take (off + 3) (take (off + 3 + 1) d) = take off dst @ utf8 [0x2588]"
      unfolding d(3) using off Suc.prems(3) len by simp
    then have t: "take (off + 3) d = take off dst @ utf8 [0x2588]" by simp
    have "(off + 3) mod 3 = 2" using Suc.prems(1) by simp
    from Suc.IH [OF this off d(2)] show ?thesis
      using True Suc.prems(3) d(1) t by (auto simp: utf8_def algebra_simps)
  next
    case False
    then have "off = 509" using Suc.prems by presburger
    then show ?thesis using Suc.prems(3) by simp
  qed
qed

text \<open>A bar of 167 blocks fits its array of 512 bytes. From 168 blocks on the offset passes the end before
  the text after the bar is written, the size wraps around, and the text goes past the array.\<close>

lemma make_bar_overflows:
  assumes "length dst = 512" "length color = 5" "length s < 400"
  shows "make_bar dst color n (Some s) = None \<longleftrightarrow> 168 \<le> n"
proof -
  obtain d0 where d0: "snprintf_at dst 0 color = Some (d0, 5)" "length d0 = 512"
    by (rule snprintf_short [of 0 color dst]) (use assms(1,2) in auto)
  let ?off = "min (5 + 3 * nat n) 509"
  obtain d1 where d1: "bar_loop (nat n) d0 5 = Some (d1, ?off)" "length d1 = 512"
    using bar_loop_ends [of 5 d0 "nat n"] d0(2) by auto
  have reset: "length c_reset = 4" by (simp add: c_reset_def sgr_def)
  have "?off < length d1" "length d1 < 2 ^ 64" using d1(2) by simp_all
  from snprintf_inside [OF this, of c_reset]
  obtain d2 where d2: "snprintf_at d1 ?off c_reset = Some (d2, ?off + 4)" "length d2 = 512"
    unfolding reset d1(2) by blast
  have bar: "make_bar dst color n (Some s) =
      Option.bind (snprintf_at d2 (?off + 4) (c_dim @ s @ c_reset)) (\<lambda>(d3, _). store 511 (CHR 0x00) d3)"
    using assms(1) by (simp add: make_bar_def d0 d1 d2 case_prod_beta)
  show ?thesis
  proof (cases "168 \<le> n")
    case True
    then have "168 \<le> nat n" by linarith
    then have "?off = 509" by simp
    then show ?thesis using True snprintf_outside [of d2 513] d2(2) by (simp only: bar) simp
  next
    case False
    then have "?off + 4 < length d2" "length d2 < 2 ^ 64" unfolding d2(2) by (auto simp: min_def)
    from snprintf_inside [OF this, of "c_dim @ s @ c_reset"]
    obtain d3 where "snprintf_at d2 (?off + 4) (c_dim @ s @ c_reset) = Some (d3, ?off + 4 + length (c_dim @ s @ c_reset))"
      "length d3 = 512"
      unfolding d2(2) by blast
    then show ?thesis using False by (simp add: bar store_def)
  qed
qed

text \<open>The bar of the linear search is as long as the column allows, so a terminal of 550 columns is enough.\<close>

lemma wide_terminal_bar: "550 \<le> t \<Longrightarrow> 168 \<le> bar_space (column_width t)"
  by (simp add: bar_space_def column_width_def Let_def) presburger

text \<open>One second of linear search on a terminal of 550 columns.\<close>

lemma round_exact: "round_mag 1 = 1" "round_mag 168 = 168" "round_mag 1000 = 1000"
proof -
  have len: "bitlen 1 = 1" "bitlen 168 = 8" "bitlen 1000 = 10" by code_simp+
  have q: "quotient_of 1 = (1, 1)" "quotient_of 168 = (168, 1)" "quotient_of 1000 = (1000, 1)" by code_simp+
  show "round_mag 1 = 1" "round_mag 168 = 168" "round_mag 1000 = 1000"
    by (simp_all add: round_mag_def exponent_of_def pow2_def half_even_def len q Let_def)
qed

lemma wide_terminal_example:
  "two_bars mem (d_int 1000) (d_int 10) (bar_space (column_width 550)) ''  1000.00ms'' ''  10.00ms'' = None"
proof -
  have "compute_bar_len (d_int 1000) (d_int 1000) 168 = Some 168"
    by (simp add: compute_bar_len_def d_int_def double_of_long_def of_rat_d_def make_double_def round_exact pow2_def
        int_min_def int_max_def)
  moreover have "bar_space (column_width 550) = 168" by (simp add: bar_space_def column_width_def)
  moreover have "length c_red = 5" by (simp add: c_red_def sgr_def)
  then have "make_bar (map mem [0..<512]) c_red 168 (Some ''  1000.00ms'') = None"
    using make_bar_overflows [of "map mem [0..<512]" c_red "''  1000.00ms''" 168] by (simp del: upt.simps)
  ultimately show ?thesis by (simp add: two_bars_def split: Option.bind_split)
qed

end
