(* ===== verification/Spec2Isabelle.thy ===== *)
theory Spec2Isabelle
  imports Prelude BPTree Index_Registry Trie_Index Dict_Cache Thread_Pool Sql_Types Sql_Parser Sql_Format Engine_Lock Csv C_Double Row_Eval Row_Laws Storage_Files Storage Storage_Laws Engine Json_Text Index_Laws Trie_Laws Http_Protocol Router Router_Laws Executor Ast_Print Server Repl Repl_Laws Benchmark Divergences Isolation Buffers Write_Behind Pool_Metrics Bench_Report
begin

text \<open>
  minisqld is a small SQL database behind an HTTP server. This development models the C code of the
  server, of its interactive client and of its benchmark programs, and proves what makes each part and
  their composition correct. File names are relative to the root of the repository.

  \<^bold>\<open>The program.\<close> \<^verbatim>\<open>src/main.c\<close> reads the command line and starts \<^verbatim>\<open>src/server.c\<close>, which accepts connections and
  puts each one as a job into the worker pool of \<^verbatim>\<open>src/threadpool.c\<close>. A worker reads one request
  (\<^verbatim>\<open>src/protocol.c\<close>), lets \<^verbatim>\<open>src/router.c\<close> answer it and closes the connection. The router
  answers from its response cache (\<^verbatim>\<open>src/dict_cache.c\<close>), from static files, or by
  handing SQL to the engine (\<^verbatim>\<open>src/engine.c\<close>). The engine splits the text into statements, parses each
  (\<^verbatim>\<open>src/parser.c\<close>), takes the locks it needs (\<^verbatim>\<open>src/engine_lock.c\<close>) and runs it on the
  storage layer (\<^verbatim>\<open>src/storage.c\<close>), which keeps schemas and tables as files, and for each table a B+ tree
  over its ids (\<^verbatim>\<open>src/bptree.c\<close>, found through \<^verbatim>\<open>src/index_registry.c\<close>). For the table
  \<^verbatim>\<open>dictionary\<close> the engine also keeps a trie over its words (\<^verbatim>\<open>src/trie.c\<close>). The client
  (\<^verbatim>\<open>client/repl.c\<close>) sends typed SQL to the server and shows the answer.

  \<^bold>\<open>Theories and code.\<close>
  \<^item> \<^verbatim>\<open>Prelude\<close>: the C library functions on strings and numbers, and the locale \<open>step_system\<close> of
    step relations with an invariant.
  \<^item> \<^verbatim>\<open>BPTree\<close>, \<^verbatim>\<open>Index_Registry\<close>, \<^verbatim>\<open>Trie_Index\<close>, \<^verbatim>\<open>Dict_Cache\<close>: the data structures, each
    against what it promises. The locales \<open>kv_index\<close> and \<open>range_index\<close> are the promise of an index, interpreted by the tree
    and the trie; \<open>response_cache\<close> is the one of the cache, whose view is an LRU list.
  \<^item> \<^verbatim>\<open>Thread_Pool\<close>: pool operations, the monitor that resizes it, and a step relation of
    submitters, workers and the monitor. \<^verbatim>\<open>Engine_Lock\<close>: the lock registry and the order in which
    statements take and release locks, as a step relation of any number of threads.
  \<^item> \<^verbatim>\<open>Sql_Types\<close>, \<^verbatim>\<open>Sql_Parser\<close>, \<^verbatim>\<open>Sql_Format\<close>, \<^verbatim>\<open>Ast_Print\<close>: \<^verbatim>\<open>include/types.h\<close>, tokenizer and parser, and
    the three printers (\<^verbatim>\<open>src/sql_format.c\<close>, \<^verbatim>\<open>src/json_out.c\<close>, \<^verbatim>\<open>src/ast_print.c\<close>).
  \<^item> \<^verbatim>\<open>Csv\<close>, \<^verbatim>\<open>C_Double\<close>, \<^verbatim>\<open>Row_Eval\<close>, \<^verbatim>\<open>Storage_Files\<close>, \<^verbatim>\<open>Storage\<close>: \<^verbatim>\<open>src/storage.c\<close> from the bytes of a file
    up to INSERT, SELECT, UPDATE, DELETE and CREATE. \<^verbatim>\<open>Row_Laws\<close> and \<^verbatim>\<open>Storage_Laws\<close> hold their laws.
  \<^item> \<^verbatim>\<open>Isolation\<close>: the statements of several workers on the same tables, read record by record and written
    under the locks, as steps that interleave; they are serialisable.
  \<^item> \<^verbatim>\<open>Write_Behind\<close>: the append handles of \<^verbatim>\<open>src/storage.c\<close> with the text they hold back; readers see
    the files of \<^verbatim>\<open>Storage_Files\<close>.
  \<^item> \<^verbatim>\<open>Buffers\<close>: the arrays that grow under the strings and lists of the other theories, with memory that
    may run out. The locale \<open>push_buffer\<close> is the contract of one push, interpreted by the record
    buffer, the token list and the row buffer.
  \<^item> \<^verbatim>\<open>Engine\<close>: \<^verbatim>\<open>src/engine.c\<close>; \<^verbatim>\<open>Json_Text\<close> reads its answers back; \<^verbatim>\<open>Index_Laws\<close> and
    \<^verbatim>\<open>Trie_Laws\<close> compare the indexed routes of a SELECT with the full scan. \<^verbatim>\<open>Executor\<close>:
    \<^verbatim>\<open>src/executor.c\<close>, the route of the command-line program, agrees with the engine's.
  \<^item> \<^verbatim>\<open>Http_Protocol\<close>, \<^verbatim>\<open>Router\<close>, \<^verbatim>\<open>Router_Laws\<close>, \<^verbatim>\<open>Server\<close>, \<^verbatim>\<open>Repl\<close>, \<^verbatim>\<open>Repl_Laws\<close>: a request from its bytes to its
    answer, the life of a connection, and client and server together.
  \<^item> \<^verbatim>\<open>Benchmark\<close>, \<^verbatim>\<open>Bench_Report\<close>: \<^verbatim>\<open>bench/benchmark.c\<close> with its report, \<^verbatim>\<open>bench/tree_shape.c\<close> and the
    printer of the tree. \<^verbatim>\<open>Pool_Metrics\<close>: what the pool tells about itself.
  \<^item> \<^verbatim>\<open>Divergences\<close>: places where the code differs from its comments or from a neighbouring part.

  \<^bold>\<open>State.\<close> Each module's static variables are the fields of a record (\<open>storage\<close>, \<open>engine\<close>, \<open>server\<close>,
  \<open>threadpool\<close>, \<open>engine_locks\<close>, \<open>dict_cache\<close>) that the operations take and return. The file system is a map from paths to
  contents. A socket is the list of what \<open>read\<close> and \<open>write\<close> will return, so that short reads,
  interrupted calls and errors are all covered. The pool, the locks and the server are
  step relations in which each step is one critical section of the code.

  \<^bold>\<open>What is shown.\<close> For the data structures: invariants kept by every operation and the exact contents
  after any sequence of them. For storage: each statement is refined to an operation on the
  list of rows of a table (\<open>holds\<close> relates the files and caches to that list), with the conditions under which it
  succeeds. For the engine: point, range and prefix queries return what the scan returns, and every answer is well-formed JSON.
  For concurrency: mutual exclusion and absence of deadlock of the statement locks, each
  accepted job run once and in order, graceful shutdown, each connection closed once, and statements
  that take effect one after the other. For the
  protocol: a request does not depend on how the network cuts it. For the router: requests that
  are refused change nothing, a lookup runs exactly one statement, files come from under the web
  root. End to end: SQL typed at the client is the SQL the engine runs, and the answer is shown unchanged.

  \<^bold>\<open>Bounds.\<close> The constants are the code's: 64 worker slots, 64 lock and index entries, 16 entries of each
  storage cache, paths below 512 bytes, 8192 bytes of request header, 1 MiB of body, 4096 bytes for a line of
  the client, 4096 rows of a prefix query. Loops are structural recursion or recursion with a
  proved measure. Where a loop follows pointers (the leaf chain of the tree) it may fail to return in the model,
  and its theorem says that it returns. The JSON reader takes the length of the text as
  fuel, which suffices because every step consumes a character. Machine integers that can wrap (ids, row
  numbers, the cache clock, lengths read by \<open>strtol\<close> and \<open>strtoul\<close>) are wrapped where the code's type does.

  \<^bold>\<open>Not modelled.\<close> Failing memory allocation, except in \<^verbatim>\<open>Buffers\<close>; disk errors; reading
  the clock (times are parameters of the handlers); creating the socket and installing signal
  handlers; help and log texts. Outside the C code: the scripts, the web
  pages, the data files, the tests and the demonstrations under \<^verbatim>\<open>prev_project\<close>.
\<close>

end
